(* ===== verification/W230_Prelude.thy ===== *)
theory W230_Prelude
  imports Main "HOL-Library.Word"
begin

text \<open>
  The prelude of the development: the machine integer types, the little-endian
  byte codecs of Rust's \<open>to_le_bytes\<close> / \<open>from_le_bytes\<close>, saturating and wrapping
  increments, the two contracts (codec, event-driven machine) that several
  components implement, and generic list lemmas.
\<close>

unbundle bit_operations_syntax

section \<open>Machine integers\<close>

type_synonym u8 = "8 word"
type_synonym u16 = "16 word"
type_synonym u32 = "32 word"

named_theorems model_defs \<open>definitions of the model, unfolded by closed evaluations\<close>
named_theorems inv_intros \<open>operations preserve their component's invariant\<close>

text \<open>Rust's \<open>saturating_add(1)\<close> on an unsigned type.\<close>

definition sat_inc :: "'a::len word \<Rightarrow> 'a word" where
  "sat_inc w = (if w = - 1 then w else w + 1)"

lemma uint_plus_one: "w \<noteq> - 1 \<Longrightarrow> uint (w + 1) = uint (w :: 'a::len word) + 1"
proof -
  assume "w \<noteq> - 1"
  then have "w + 1 \<noteq> 0"
    by (metis add.commute add_eq_0_iff)
  then have "unat (w + 1) = unat w + 1"
    by (simp add: unatSuc add.commute)
  then show ?thesis
    by (metis of_nat_1 of_nat_add uint_nat)
qed

lemma sat_inc_mono: "uint w \<le> uint (sat_inc w)"
  by (simp add: sat_inc_def uint_plus_one)

section \<open>Little-endian bytes\<close>

definition u16_le :: "u16 \<Rightarrow> u8 list" where
  "u16_le w = [ucast w, ucast (drop_bit 8 w)]"

definition u16_of_le :: "u8 \<Rightarrow> u8 \<Rightarrow> u16" where
  "u16_of_le a b = ucast a OR push_bit 8 (ucast b)"

definition u32_le :: "u32 \<Rightarrow> u8 list" where
  "u32_le w = [ucast w, ucast (drop_bit 8 w), ucast (drop_bit 16 w), ucast (drop_bit 24 w)]"

definition u32_of_le :: "u8 \<Rightarrow> u8 \<Rightarrow> u8 \<Rightarrow> u8 \<Rightarrow> u32" where
  "u32_of_le a b c d =
     ucast a OR push_bit 8 (ucast b) OR push_bit 16 (ucast c) OR push_bit 24 (ucast d)"

lemma length_u16_le [simp]: "length (u16_le w) = 2"
  by (simp add: u16_le_def)

lemma length_u32_le [simp]: "length (u32_le w) = 4"
  by (simp add: u32_le_def)

lemma bit_u8_high [simp]: "8 \<le> n \<Longrightarrow> \<not> bit (a :: u8) n"
  using bit_imp_le_length [of a n] by auto

lemma u16_of_le_le [simp]: "u16_of_le (ucast w) (ucast (drop_bit 8 w)) = w"
  unfolding u16_of_le_def
  by (rule bit_word_eqI) (auto simp: bit_simps)

lemma u32_of_le_le [simp]:
  "u32_of_le (ucast w) (ucast (drop_bit 8 w)) (ucast (drop_bit 16 w)) (ucast (drop_bit 24 w)) = w"
  unfolding u32_of_le_def
proof (rule bit_word_eqI)
  fix n
  show "bit (ucast (ucast w :: u8) OR push_bit 8 (ucast (ucast (drop_bit 8 w) :: u8)) OR
      push_bit 16 (ucast (ucast (drop_bit 16 w) :: u8)) OR
      push_bit 24 (ucast (ucast (drop_bit 24 w) :: u8)) :: u32) n = bit w n"
    if "n < LENGTH(32)"
    using that
    by (cases "n < 8"; cases "n < 16"; cases "n < 24") (auto simp: bit_simps)
qed

lemma u16_le_of_le [simp]: "u16_le (u16_of_le a b) = [a, b]"
  unfolding u16_of_le_def u16_le_def
  by (auto intro!: bit_word_eqI simp: bit_simps)

lemma u32_le_of_le [simp]: "u32_le (u32_of_le a b c d) = [a, b, c, d]"
  unfolding u32_of_le_def u32_le_def
  by (auto intro!: bit_word_eqI simp: bit_simps)

section \<open>Contracts\<close>

text \<open>A wire or flash format: every valid value is read back from its bytes.\<close>

locale codec =
  fixes enc :: "'a \<Rightarrow> 'b list"
    and dec :: "'b list \<Rightarrow> 'a option"
    and valid :: "'a \<Rightarrow> bool"
  assumes dec_enc: "valid x \<Longrightarrow> dec (enc x) = Some x"
begin

lemma enc_inj: "valid x \<Longrightarrow> valid y \<Longrightarrow> enc x = enc y \<Longrightarrow> x = y"
  by (metis dec_enc option.inject)

lemma enc_inj_on: "inj_on enc {x. valid x}"
  by (auto intro: inj_onI enc_inj)

lemma dec_total: "valid x \<Longrightarrow> \<exists>y. dec (enc x) = Some y"
  by (simp add: dec_enc)

end

text \<open>
  A format of fixed length that also rejects every other length and is onto:
  what is read is exactly what was stored.
\<close>

locale fixed_codec = codec enc dec valid
  for enc :: "'a \<Rightarrow> 'b list" and dec :: "'b list \<Rightarrow> 'a option" and valid :: "'a \<Rightarrow> bool" +
  fixes len :: nat
  assumes enc_len: "valid x \<Longrightarrow> length (enc x) = len"
    and dec_len: "dec bs = Some x \<Longrightarrow> length bs = len"
    and dec_valid: "dec bs = Some x \<Longrightarrow> valid x"
    and dec_onto: "length bs = len \<Longrightarrow> \<exists>x. dec bs = Some x \<and> enc x = bs"
begin

lemma enc_dec: "dec bs = Some x \<Longrightarrow> enc x = bs"
  using dec_onto dec_len by fastforce

lemma dec_None_iff: "dec bs = None \<longleftrightarrow> length bs \<noteq> len"
  using dec_onto dec_len by (metis option.distinct(1) option.exhaust)

end

text \<open>
  A component driven by events: an initial state, a total step function, an
  invariant that the initial state has and each step on an admissible event keeps.
\<close>

primrec run :: "('s \<Rightarrow> 'e \<Rightarrow> 's) \<Rightarrow> 's \<Rightarrow> 'e list \<Rightarrow> 's" where
  "run step s [] = s"
| "run step s (e # es) = run step (step s e) es"

lemma run_append: "run step s (xs @ ys) = run step (run step s xs) ys"
  by (induction xs arbitrary: s) simp_all

lemma run_snoc: "run step s (xs @ [x]) = step (run step s xs) x"
  by (simp add: run_append)

text \<open>What comes to hold during a run comes to hold at one of its steps.\<close>

lemma run_cause:
  assumes "\<not> P s" "P (run step s es)"
  obtains es1 e es2 where "es = es1 @ e # es2" "\<not> P (run step s es1)" "P (step (run step s es1) e)"
  using assms
proof (induction es arbitrary: s thesis)
  case (Cons e es)
  show ?case
  proof (cases "P (step s e)")
    case True
    then show ?thesis using Cons.prems(1) [of "[]" e es] Cons.prems(2) by simp
  next
    case False
    from Cons.IH [OF _ this] Cons.prems(3) obtain es1 e' es2
      where "es = es1 @ e' # es2" "\<not> P (run step (step s e) es1)" "P (step (run step (step s e) es1) e')" by auto
    then show ?thesis using Cons.prems(1) [of "e # es1" e' es2] by simp
  qed
qed simp

section \<open>Calls that may fail\<close>

text \<open>Calls one after another, up to the first that fails; the calls made come with the result.\<close>

primrec try_calls ::
  "('c \<Rightarrow> 'e \<Rightarrow> ('t + unit) \<times> 'e) \<Rightarrow> 'c list \<Rightarrow> 'e \<Rightarrow> ('t + unit) \<times> 'c list \<times> 'e" where
  "try_calls f [] e = (Inr (), [], e)"
| "try_calls f (c # cs) e =
     (case f c e of
        (Inl t, e1) \<Rightarrow> (Inl t, [c], e1)
      | (Inr _, e1) \<Rightarrow> (case try_calls f cs e1 of (r, made, e2) \<Rightarrow> (r, c # made, e2)))"

text \<open>A failed run made the calls up to the one that failed; a run without one made them all.\<close>

lemma try_calls_spec:
  "try_calls f cs e = (r, made, e') \<Longrightarrow>
    (r = Inr () \<and> made = cs)
    \<or> (\<exists>rest t e1. cs = made @ rest \<and> made \<noteq> [] \<and> r = Inl t \<and> f (last made) e1 = (Inl t, e'))"
proof (induction cs arbitrary: e r made e')
  case (Cons c cs)
  obtain x e1 where x: "f c e = (x, e1)" by fastforce
  show ?case
  proof (cases x)
    case (Inl t)
    then show ?thesis using Cons.prems x by auto
  next
    case (Inr u)
    obtain r2 m2 e2 where r: "try_calls f cs e1 = (r2, m2, e2)" by (metis prod_cases3)
    then have "r = r2" "made = c # m2" "e' = e2" using Cons.prems x Inr by auto
    with Cons.IH [OF r] show ?thesis by auto
  qed
qed simp

section \<open>Machines\<close>

locale machine =
  fixes init :: 's
    and step :: "'s \<Rightarrow> 'e \<Rightarrow> 's"
    and ok :: "'e \<Rightarrow> bool"
    and inv :: "'s \<Rightarrow> bool"
  assumes inv_init: "inv init"
    and inv_step: "inv s \<Longrightarrow> ok e \<Longrightarrow> inv (step s e)"
begin

lemma inv_run_from: "inv s \<Longrightarrow> list_all ok es \<Longrightarrow> inv (run step s es)"
  by (induction es arbitrary: s) (auto intro: inv_step)

lemma inv_run: "list_all ok es \<Longrightarrow> inv (run step init es)"
  by (rule inv_run_from) (rule inv_init)

end

section \<open>Lists\<close>

lemma sum_list_update_add:
  "i < length xs \<Longrightarrow> sum_list (xs[i := x]) + xs ! i = sum_list xs + (x :: 'a::comm_monoid_add)"
  by (induction xs arbitrary: i) (auto simp: ac_simps split: nat.splits)

lemma foldl_plus_sum: "foldl (+) a xs = a + sum_list (xs :: 'a::monoid_add list)"
  by (induction xs arbitrary: a) (simp_all add: add.assoc)

lemma concat_len_const:
  "(\<And>x. x \<in> set xs \<Longrightarrow> length (f x) = k) \<Longrightarrow> length (concat (map f xs)) = k * length xs"
  by (induction xs) auto

lemma find_snoc: "find P (xs @ [x]) = (case find P xs of None \<Rightarrow> if P x then Some x else None | Some y \<Rightarrow> Some y)"
  by (induction xs) auto

lemma map_update_one:
  "k < n \<Longrightarrow> (\<And>j. j < n \<Longrightarrow> j \<noteq> k \<Longrightarrow> g j = f j) \<Longrightarrow> (map f [0..<n])[k := g k] = map g [0..<n]"
  by (intro nth_equalityI) (auto simp: nth_list_update)

lemma filter_upt_insert:
  "k < n \<Longrightarrow> \<not> P k \<Longrightarrow> length (filter (\<lambda>s. P s \<or> s = k) [0..<n]) = Suc (length (filter P [0..<n]))"
  by (induction n) (auto simp: less_Suc_eq intro!: arg_cong [where f = length] filter_cong)

lemma find_ex: "find P xs = None \<longleftrightarrow> \<not> list_ex P xs"
  by (auto simp: find_None_iff list_ex_iff)

lemma find_mem: "find P xs = Some y \<Longrightarrow> y \<in> set xs \<and> P y"
  by (auto simp: find_Some_iff)

end
