(* ===== verification/F32.thy ===== *)
theory F32
  imports W230_Prelude
begin

text \<open>
  Rust's \<open>f32\<close>: IEEE 754 binary32 with round-to-nearest, ties to even. A value is its
  32 bits. Every finite value is an integer multiple of \<open>2^-149\<close>, so arithmetic is
  exact integer arithmetic in that unit followed by one rounding, and the whole
  model evaluates. Operations whose result Rust leaves unspecified in the sign or
  payload of a NaN return the canonical quiet NaN.
\<close>

datatype f32 = F32 (to_bits: u32)

section \<open>Fields and values\<close>

definition f32_neg :: "f32 \<Rightarrow> bool" where
  "f32_neg x \<longleftrightarrow> 2 ^ 31 \<le> uint (to_bits x)"

text \<open>The 31 bits below the sign: biased exponent and fraction.\<close>

definition f32_code :: "f32 \<Rightarrow> int" where
  "f32_code x = uint (to_bits x) mod 2 ^ 31"

definition inf_code :: int where
  "inf_code = 255 * 2 ^ 23"

definition is_nan :: "f32 \<Rightarrow> bool" where
  "is_nan x \<longleftrightarrow> inf_code < f32_code x"

definition is_inf :: "f32 \<Rightarrow> bool" where
  "is_inf x \<longleftrightarrow> f32_code x = inf_code"

definition is_fin :: "f32 \<Rightarrow> bool" where
  "is_fin x \<longleftrightarrow> f32_code x < inf_code"

text \<open>The magnitude of a code in units of \<open>2^-149\<close>: subnormals below \<open>2^23\<close>.\<close>

definition mag :: "int \<Rightarrow> int" where
  "mag m = (if m < 2 ^ 23 then m else (2 ^ 23 + m mod 2 ^ 23) * 2 ^ (nat (m div 2 ^ 23) - 1))"

definition units :: "f32 \<Rightarrow> int" where
  "units x = (if f32_neg x then - mag (f32_code x) else mag (f32_code x))"

definition unit1 :: int where
  "unit1 = 2 ^ 149"

definition mk_f32 :: "bool \<Rightarrow> int \<Rightarrow> f32" where
  "mk_f32 s m = F32 (word_of_int ((if s then 2 ^ 31 else 0) + m))"

definition f32_nan :: f32 where
  "f32_nan = mk_f32 False (inf_code + 2 ^ 22)"

definition f32_inf :: "bool \<Rightarrow> f32" where
  "f32_inf s = mk_f32 s inf_code"

section \<open>Rounding\<close>

text \<open>\<open>n / d\<close> to the nearest integer, ties to even.\<close>

definition rhe :: "int \<Rightarrow> int \<Rightarrow> int" where
  "rhe n d = (let q = n div d; r = n mod d in
     if 2 * r < d then q else if d < 2 * r then q + 1
     else if even q then q else q + 1)"

text \<open>The least shift that leaves at most 24 significant bits.\<close>

function norm_exp :: "int \<Rightarrow> nat" where
  "norm_exp q = (if q < 2 ^ 24 then 0 else Suc (norm_exp (q div 2)))"
  by pat_completeness auto
termination
  by (relation "measure nat") auto

declare norm_exp.simps [simp del]

text \<open>The code of the non-negative quotient \<open>n / d\<close> (in units), infinity on overflow.\<close>

definition round_code :: "int \<Rightarrow> int \<Rightarrow> int" where
  "round_code n d = (let e = norm_exp (n div d)
     in min inf_code (int e * 2 ^ 23 + rhe n (d * 2 ^ e)))"

definition round_f32 :: "bool \<Rightarrow> int \<Rightarrow> int \<Rightarrow> f32" where
  "round_f32 s n d = mk_f32 s (round_code n d)"

section \<open>Operations\<close>

text \<open>A decimal literal: \<open>dec 14 2\<close> is the source's \<open>0.14\<close>.\<close>

definition dec :: "int \<Rightarrow> nat \<Rightarrow> f32" where
  "dec n k = round_f32 False (n * unit1) (10 ^ k)"

definition f32_of_int :: "int \<Rightarrow> f32" where
  "f32_of_int i = round_f32 (i < 0) (\<bar>i\<bar> * unit1) 1"

instantiation f32 :: "{zero,one,uminus,abs,plus,minus,times,inverse,ord}"
begin

definition zero_f32 :: f32 where "zero_f32 = mk_f32 False 0"

definition one_f32 :: f32 where "one_f32 = f32_of_int 1"

definition uminus_f32 :: "f32 \<Rightarrow> f32" where
  "uminus_f32 x = mk_f32 (\<not> f32_neg x) (f32_code x)"

definition abs_f32 :: "f32 \<Rightarrow> f32" where
  "abs_f32 x = mk_f32 False (f32_code x)"

definition plus_f32 :: "f32 \<Rightarrow> f32 \<Rightarrow> f32" where
  "plus_f32 x y =
     (if is_nan x \<or> is_nan y then f32_nan
      else if is_inf x then (if is_inf y \<and> f32_neg x \<noteq> f32_neg y then f32_nan else x)
      else if is_inf y then y
      else let u = units x + units y in
        if u = 0 then mk_f32 (f32_neg x \<and> f32_neg y) 0
        else round_f32 (u < 0) \<bar>u\<bar> 1)"

definition minus_f32 :: "f32 \<Rightarrow> f32 \<Rightarrow> f32" where
  "minus_f32 x y = x + (- y)"

definition times_f32 :: "f32 \<Rightarrow> f32 \<Rightarrow> f32" where
  "times_f32 x y = (let s = (f32_neg x \<noteq> f32_neg y) in
     if is_nan x \<or> is_nan y then f32_nan
     else if is_inf x \<or> is_inf y then
       (if f32_code x = 0 \<or> f32_code y = 0 then f32_nan else f32_inf s)
     else round_f32 s (mag (f32_code x) * mag (f32_code y)) unit1)"

definition divide_f32 :: "f32 \<Rightarrow> f32 \<Rightarrow> f32" where
  "divide_f32 x y = (let s = (f32_neg x \<noteq> f32_neg y) in
     if is_nan x \<or> is_nan y then f32_nan
     else if is_inf x then (if is_inf y then f32_nan else f32_inf s)
     else if is_inf y then mk_f32 s 0
     else if f32_code y = 0 then (if f32_code x = 0 then f32_nan else f32_inf s)
     else round_f32 s (mag (f32_code x) * unit1) (mag (f32_code y)))"

definition inverse_f32 :: "f32 \<Rightarrow> f32" where
  "inverse_f32 x = divide 1 x"

text \<open>
  Comparisons: false when either side is NaN; otherwise by sign and code, which orders
  by value because \<open>mag\<close> is monotone, and identifies the two zeros.
\<close>

definition less_f32 :: "f32 \<Rightarrow> f32 \<Rightarrow> bool" where
  "less_f32 x y \<longleftrightarrow> \<not> is_nan x \<and> \<not> is_nan y \<and>
     (if f32_neg x then - f32_code x else f32_code x)
       < (if f32_neg y then - f32_code y else f32_code y)"

definition less_eq_f32 :: "f32 \<Rightarrow> f32 \<Rightarrow> bool" where
  "less_eq_f32 x y \<longleftrightarrow> \<not> is_nan x \<and> \<not> is_nan y \<and>
     (if f32_neg x then - f32_code x else f32_code x)
       \<le> (if f32_neg y then - f32_code y else f32_code y)"

instance ..

end

definition key :: "f32 \<Rightarrow> int" where
  "key x = (if f32_neg x then - f32_code x else f32_code x)"

text \<open>\<open>f32::max\<close> ignores a NaN operand; \<open>f32::clamp\<close> panics (\<open>None\<close>) unless \<open>lo <= hi\<close>.\<close>

definition f32_max :: "f32 \<Rightarrow> f32 \<Rightarrow> f32" where
  "f32_max x y = (if is_nan x then y else if is_nan y then x else if x < y then y else x)"

definition f32_clamp :: "f32 \<Rightarrow> f32 \<Rightarrow> f32 \<Rightarrow> f32 option" where
  "f32_clamp x lo hi = (if lo \<le> hi
     then Some (let x1 = (if x < lo then lo else x) in if hi < x1 then hi else x1)
     else None)"

definition f32_floor :: "f32 \<Rightarrow> f32" where
  "f32_floor x = (if \<not> is_fin x then x else
     let k = units x div unit1 in
       if k = 0 then mk_f32 (f32_neg x) 0 else round_f32 (k < 0) (\<bar>k\<bar> * unit1) 1)"

text \<open>\<open>f32::round\<close>: half away from zero.\<close>

definition f32_round :: "f32 \<Rightarrow> f32" where
  "f32_round x = (if \<not> is_fin x then x else
     round_f32 (f32_neg x) ((mag (f32_code x) + 2 ^ 148) div unit1 * unit1) 1)"

text \<open>\<open>as uN\<close> saturates: NaN and negatives to 0, values past the maximum to the maximum.\<close>

definition f32_as_uint :: "int \<Rightarrow> f32 \<Rightarrow> int" where
  "f32_as_uint mx x = (if is_nan x \<or> f32_neg x then 0
     else if is_inf x then mx else min mx (mag (f32_code x) div unit1))"

lemmas f32_defs [model_defs] = f32_neg_def f32_code_def inf_code_def is_nan_def is_inf_def
  is_fin_def mag_def units_def unit1_def mk_f32_def f32_nan_def f32_inf_def rhe_def
  round_code_def round_f32_def dec_def f32_of_int_def zero_f32_def one_f32_def uminus_f32_def
  abs_f32_def plus_f32_def minus_f32_def times_f32_def divide_f32_def less_f32_def
  less_eq_f32_def f32_max_def f32_clamp_def f32_floor_def f32_round_def f32_as_uint_def

section \<open>Codes\<close>

lemma f32_code_bounds [simp]: "0 \<le> f32_code x" "f32_code x < 2147483648"
  by (simp_all add: f32_code_def)

lemma mod_top: "k \<le> t \<Longrightarrow> t < 2 * k \<Longrightarrow> t mod k = t - (k :: int)"
  using minus_mod_self2 [of t k] mod_pos_pos_trivial [of "t - k" k] by simp

lemma uint_mk: "0 \<le> m \<Longrightarrow> m < 2 ^ 31 \<Longrightarrow> uint (to_bits (mk_f32 s m)) = (if s then 2 ^ 31 else 0) + m"
  unfolding mk_f32_def f32.sel
  by (subst uint_word_of_int, rule mod_pos_pos_trivial) (auto split: if_splits)

lemma code_mk: "0 \<le> m \<Longrightarrow> m < 2 ^ 31 \<Longrightarrow> f32_code (mk_f32 s m) = m"
  by (auto simp: f32_code_def uint_mk)

lemma neg_mk: "0 \<le> m \<Longrightarrow> m < 2 ^ 31 \<Longrightarrow> f32_neg (mk_f32 s m) = s"
  by (auto simp: f32_neg_def uint_mk)

lemma mk_code_neg [simp]: "mk_f32 (f32_neg x) (f32_code x) = x"
proof (cases x)
  case (F32 w)
  have b: "0 \<le> uint w" "uint w < 2 ^ 32" using uint_bounded [of w] by simp_all
  have "(if 2 ^ 31 \<le> uint w then 2 ^ 31 else 0) + uint w mod 2 ^ 31 = uint w"
    using b mod_top [of "2 ^ 31" "uint w"] by (cases "2 ^ 31 \<le> uint w") simp_all
  then show ?thesis
    by (simp add: F32 mk_f32_def f32_neg_def f32_code_def del: of_int_add)
qed

lemma f32_eqI:
  assumes "f32_neg x = f32_neg y" "f32_code x = f32_code y"
  shows "x = y"
proof -
  have "x = mk_f32 (f32_neg x) (f32_code x)" by simp
  also have "\<dots> = mk_f32 (f32_neg y) (f32_code y)" by (simp only: assms)
  also have "\<dots> = y" by simp
  finally show ?thesis .
qed

lemma f32_cases3: "is_nan x \<or> is_inf x \<or> is_fin x"
  by (auto simp: is_nan_def is_inf_def is_fin_def)

lemma fin_not_nan [simp]: "is_fin x \<Longrightarrow> \<not> is_nan x" "is_fin x \<Longrightarrow> \<not> is_inf x"
  by (auto simp: is_nan_def is_inf_def is_fin_def)

lemma mag_nonneg [simp]: "0 \<le> m \<Longrightarrow> 0 \<le> mag m"
  by (simp add: mag_def)

text \<open>A code at or above \<open>2^23\<close> is an exponent and a 24-bit significand.\<close>

lemma mag_split:
  assumes "2 ^ 23 \<le> m"
  obtains e t where "m = int e * 2 ^ 23 + t" "2 ^ 23 \<le> t" "t < 2 ^ 24" "mag m = t * 2 ^ e"
proof -
  let ?q = "m div 2 ^ 23" and ?r = "m mod 2 ^ 23"
  have q1: "1 \<le> ?q" using assms by (simp add: zdiv_mono1 [of "2 ^ 23" m "2 ^ 23", simplified])
  have m: "m = ?q * 2 ^ 23 + ?r" by simp
  have r: "0 \<le> ?r" "?r < 2 ^ 23" by simp_all
  have "m = int (nat ?q - 1) * 2 ^ 23 + (2 ^ 23 + ?r)"
    using m q1 by (simp add: nat_diff_distrib of_nat_diff algebra_simps)
  moreover have "mag m = (2 ^ 23 + ?r) * 2 ^ (nat ?q - 1)"
    using assms by (simp add: mag_def)
  ultimately show thesis
    using r that [of "nat ?q - 1" "2 ^ 23 + ?r"] by simp
qed

lemma mag_normal:
  assumes "2 ^ 23 \<le> t" "t < 2 ^ 24"
  shows "mag (int e * 2 ^ 23 + t) = t * 2 ^ e"
proof -
  have r: "0 \<le> t - 2 ^ 23" "t - 2 ^ 23 < 2 ^ 23" using assms by simp_all
  have eq: "int e * 2 ^ 23 + t = (t - 2 ^ 23) + (int e + 1) * 2 ^ 23"
    by (simp add: algebra_simps)
  have "(int e * 2 ^ 23 + t) mod 2 ^ 23 = t - 2 ^ 23"
    unfolding eq mod_mult_self1 using r by (rule mod_pos_pos_trivial)
  moreover have "(int e * 2 ^ 23 + t) div 2 ^ 23 = int e + 1"
    unfolding eq using r by (subst div_mult_self1) (simp_all add: div_pos_pos_trivial)
  moreover have "\<not> int e * 2 ^ 23 + t < 2 ^ 23"
    using assms(1) by simp
  ultimately show ?thesis
    by (simp add: mag_def nat_add_distrib)
qed

section \<open>Rounding is monotone and exact on representable values\<close>

lemma norm_exp_div: "0 \<le> q \<Longrightarrow> q div 2 ^ norm_exp q < 2 ^ 24"
proof (induction q rule: norm_exp.induct)
  case (1 q)
  show ?case
  proof (cases "q < 2 ^ 24")
    case True
    then show ?thesis by (simp add: norm_exp.simps [of q])
  next
    case False
    with 1 have "q div 2 div 2 ^ norm_exp (q div 2) < 2 ^ 24" by simp
    then show ?thesis
      using False by (simp add: norm_exp.simps [of q] zdiv_zmult2_eq)
  qed
qed

lemma norm_exp_ge: "0 < norm_exp q \<Longrightarrow> 2 ^ 23 \<le> q div 2 ^ norm_exp q"
proof (induction q rule: norm_exp.induct)
  case (1 q)
  then have big: "\<not> q < 2 ^ 24"
    by (auto simp: norm_exp.simps [of q] split: if_splits)
  then have e: "norm_exp q = Suc (norm_exp (q div 2))"
    by (simp add: norm_exp.simps [of q])
  show ?case
  proof (cases "norm_exp (q div 2)")
    case 0
    then show ?thesis using big e by simp
  next
    case (Suc k)
    then have "2 ^ 23 \<le> q div 2 div 2 ^ norm_exp (q div 2)"
      using 1 big by simp
    then show ?thesis by (simp add: e zdiv_zmult2_eq)
  qed
qed

lemma norm_exp_mono: "q \<le> q' \<Longrightarrow> norm_exp q \<le> norm_exp q'"
proof (induction q arbitrary: q' rule: norm_exp.induct)
  case (1 q)
  show ?case
  proof (cases "q < 2 ^ 24")
    case True
    then show ?thesis by (simp add: norm_exp.simps [of q])
  next
    case False
    have "norm_exp (q div 2) \<le> norm_exp (q' div 2)"
      using False 1 by (simp add: zdiv_mono1)
    then show ?thesis
      using False 1(2) by (simp add: norm_exp.simps [of q] norm_exp.simps [of q'])
  qed
qed

lemma norm_exp_normal: "2 ^ 23 \<le> t \<Longrightarrow> t < 2 ^ 24 \<Longrightarrow> norm_exp (t * 2 ^ e) = e"
proof (induction e)
  case 0
  then show ?case by (simp add: norm_exp.simps [of t])
next
  case (Suc e)
  have "2 ^ 23 * 1 \<le> t * 2 ^ e"
    using Suc.prems by (intro mult_mono) auto
  then have "\<not> t * (2 * 2 ^ e) < 2 ^ 24" by simp
  moreover have "t * (2 * 2 ^ e) div 2 = t * 2 ^ e" by simp
  ultimately have "norm_exp (t * (2 * 2 ^ e)) = Suc (norm_exp (t * 2 ^ e))"
    by (subst norm_exp.simps) simp
  then show ?case using Suc by simp
qed

lemma rhe_bounds: "n div d \<le> rhe n d" "rhe n d \<le> n div d + 1"
  by (simp_all add: rhe_def Let_def)

lemma rhe_exact: "0 < d \<Longrightarrow> rhe (k * d) d = k"
  by (simp add: rhe_def)

lemma div_le_div_cross:
  fixes n1 n2 d1 d2 :: int
  assumes "0 < d1" "0 < d2" "n1 * d2 \<le> n2 * d1"
  shows "n1 div d1 \<le> n2 div d2"
proof -
  have "n1 div d1 * d1 \<le> n1"
    using assms pos_mod_sign [of d1 n1] minus_mod_eq_div_mult [of n1 d1] by linarith
  then have "(n1 div d1 * d1) * d2 \<le> n1 * d2" using assms by (simp add: mult_right_mono)
  also have "\<dots> \<le> n2 * d1" by (fact assms)
  finally have "(n1 div d1 * d2) * d1 \<le> n2 * d1" by (simp add: ac_simps)
  then have "n1 div d1 * d2 \<le> n2" using assms by simp
  then have "n1 div d1 * d2 div d2 \<le> n2 div d2" using assms by (intro zdiv_mono1) auto
  then show ?thesis using assms by simp
qed

lemma rhe_mono:
  assumes d: "0 < d1" "0 < d2" and le: "n1 * d2 \<le> n2 * d1"
  shows "rhe n1 d1 \<le> rhe n2 d2"
proof (cases "n1 div d1 < n2 div d2")
  case True
  then show ?thesis using rhe_bounds(2) [of n1 d1] rhe_bounds(1) [of n2 d2] by linarith
next
  case False
  then have q: "n1 div d1 = n2 div d2"
    using div_le_div_cross [OF d le] by simp
  define k r1 r2 where "k = n2 div d2" and "r1 = n1 mod d1" and "r2 = n2 mod d2"
  have "n1 = k * d1 + r1"
    unfolding k_def r1_def by (simp flip: q)
  moreover have "n2 = k * d2 + r2"
    unfolding k_def r2_def by simp
  ultimately have "(k * d1 + r1) * d2 \<le> (k * d2 + r2) * d1"
    using le by simp
  then have "r1 * d2 \<le> r2 * d1"
    by (simp add: algebra_simps)
  then have r: "n1 mod d1 * d2 \<le> n2 mod d2 * d1"
    unfolding r1_def r2_def .
  have lt: "d2 < 2 * (n2 mod d2)" if "d1 < 2 * (n1 mod d1)"
  proof -
    have "d1 * d2 < 2 * (n1 mod d1) * d2" using that d by simp
    also have "\<dots> \<le> 2 * (n2 mod d2) * d1" using r by simp
    finally have "d2 * d1 < 2 * (n2 mod d2) * d1" by (simp add: ac_simps)
    then show ?thesis using d by simp
  qed
  have le': "d2 \<le> 2 * (n2 mod d2)" if "d1 \<le> 2 * (n1 mod d1)"
  proof -
    have "d1 * d2 \<le> 2 * (n1 mod d1) * d2" using that d by simp
    also have "\<dots> \<le> 2 * (n2 mod d2) * d1" using r by simp
    finally have "d2 * d1 \<le> 2 * (n2 mod d2) * d1" by (simp add: ac_simps)
    then show ?thesis using d by simp
  qed
  show ?thesis
    using lt le' q by (auto simp: rhe_def Let_def)
qed

lemma round_code_sig:
  assumes "0 < d" "0 \<le> n"
  defines "e \<equiv> norm_exp (n div d)"
  shows "rhe n (d * 2 ^ e) \<le> 2 ^ 24" "0 < e \<Longrightarrow> 2 ^ 23 \<le> rhe n (d * 2 ^ e)" "0 \<le> rhe n (d * 2 ^ e)"
proof -
  have q: "n div (d * 2 ^ e) = n div d div 2 ^ e"
    using assms by (simp add: zdiv_zmult2_eq)
  have "n div d div 2 ^ e < 2 ^ 24"
    unfolding e_def using assms by (intro norm_exp_div) (simp add: pos_imp_zdiv_nonneg_iff)
  then show "rhe n (d * 2 ^ e) \<le> 2 ^ 24"
    using rhe_bounds(2) [of n "d * 2 ^ e"] q by linarith
  show "2 ^ 23 \<le> rhe n (d * 2 ^ e)" if "0 < e"
    using norm_exp_ge [of "n div d"] that rhe_bounds(1) [of n "d * 2 ^ e"] q
    unfolding e_def by linarith
  have "0 \<le> n div (d * 2 ^ e)" using assms by (simp add: pos_imp_zdiv_nonneg_iff)
  then show "0 \<le> rhe n (d * 2 ^ e)"
    using rhe_bounds(1) [of n "d * 2 ^ e"] by linarith
qed

lemma round_code_bounds: "0 < d \<Longrightarrow> 0 \<le> n \<Longrightarrow> 0 \<le> round_code n d \<and> round_code n d \<le> inf_code"
  using round_code_sig(3) [of d n] by (simp add: round_code_def Let_def inf_code_def)

lemma round_code_mono:
  assumes d: "0 < d1" "0 < d2" and n: "0 \<le> n1" and le: "n1 * d2 \<le> n2 * d1"
  shows "round_code n1 d1 \<le> round_code n2 d2"
proof -
  define e1 where "e1 = norm_exp (n1 div d1)"
  define e2 where "e2 = norm_exp (n2 div d2)"
  have n2: "0 \<le> n2" using assms by (metis mult_nonneg_nonneg order.strict_implies_order order_trans
      zero_le_mult_iff linorder_not_less)
  have e: "e1 \<le> e2"
    unfolding e1_def e2_def by (intro norm_exp_mono div_le_div_cross d le)
  have "int e1 * 2 ^ 23 + rhe n1 (d1 * 2 ^ e1) \<le> int e2 * 2 ^ 23 + rhe n2 (d2 * 2 ^ e2)"
  proof (cases "e1 = e2")
    case True
    have "n1 * (d2 * 2 ^ e2) \<le> n2 * (d1 * 2 ^ e2)"
      using le by (simp add: mult.assoc [symmetric])
    then have "rhe n1 (d1 * 2 ^ e2) \<le> rhe n2 (d2 * 2 ^ e2)"
      using d by (intro rhe_mono) auto
    with True show ?thesis by simp
  next
    case False
    then have lt: "e1 + 1 \<le> e2" using e by simp
    have "rhe n1 (d1 * 2 ^ e1) \<le> 2 ^ 24"
      unfolding e1_def by (rule round_code_sig(1)) (use d n in auto)
    moreover have "2 ^ 23 \<le> rhe n2 (d2 * 2 ^ e2)"
      unfolding e2_def by (rule round_code_sig(2)) (use d n2 lt in \<open>auto simp: e2_def\<close>)
    moreover have "(int e1 + 1) * 2 ^ 23 \<le> int e2 * 2 ^ 23" using lt by simp
    ultimately show ?thesis by (simp add: algebra_simps)
  qed
  then show ?thesis
    by (simp add: round_code_def Let_def e1_def e2_def min.coboundedI2 min_le_iff_disj)
qed

lemma round_code_mag:
  assumes "0 < d" "0 \<le> m" "m \<le> inf_code"
  shows "round_code (mag m * d) d = m"
proof (cases "m < 2 ^ 23")
  case True
  then show ?thesis
    using assms by (simp add: mag_def round_code_def norm_exp.simps [of m] rhe_exact Let_def)
next
  case False
  then obtain e t where m: "m = int e * 2 ^ 23 + t" "2 ^ 23 \<le> t" "t < 2 ^ 24" "mag m = t * 2 ^ e"
    using mag_split [of m] by (metis linorder_not_less)
  have "rhe (t * 2 ^ e * d) (d * 2 ^ e) = t"
    using rhe_exact [of "d * 2 ^ e" t] assms by (simp add: ac_simps)
  then show ?thesis
    using assms m by (simp add: round_code_def norm_exp_normal Let_def)
qed
section \<open>Order\<close>

lemma mag_0 [simp]: "mag 0 = 0"
  by (simp add: mag_def)

lemma mag_mono: "0 \<le> m \<Longrightarrow> m \<le> m' \<Longrightarrow> m' \<le> inf_code \<Longrightarrow> mag m \<le> mag m'"
  using round_code_mono [of 1 1 "mag m'" "mag m"] round_code_mag [of 1 m] round_code_mag [of 1 m']
  by fastforce

lemma mag_less_iff:
  assumes "0 \<le> m" "m \<le> inf_code" "0 \<le> m'" "m' \<le> inf_code"
  shows "mag m < mag m' \<longleftrightarrow> m < m'"
proof
  show "m < m'" if "mag m < mag m'"
    using that mag_mono [of m' m] assms by linarith
  show "mag m < mag m'" if "m < m'"
  proof (rule ccontr)
    assume "\<not> mag m < mag m'"
    then have "round_code (mag m') 1 \<le> round_code (mag m) 1"
      using assms by (intro round_code_mono) auto
    then show False
      using that assms round_code_mag [of 1 m] round_code_mag [of 1 m'] by simp
  qed
qed

lemma mag_pos_iff: "0 \<le> m \<Longrightarrow> m \<le> inf_code \<Longrightarrow> 0 < mag m \<longleftrightarrow> 0 < m"
  using mag_less_iff [of 0 m] by (simp add: inf_code_def)

lemma fin_codes: "is_fin x \<Longrightarrow> f32_code x \<le> inf_code"
  by (simp add: is_fin_def)

text \<open>The key of the nearest value to an exact number of units.\<close>

definition kround :: "int \<Rightarrow> int" where
  "kround u = (if u < 0 then - round_code (- u) 1 else round_code u 1)"

lemma kround_mono: "u \<le> v \<Longrightarrow> kround u \<le> kround v"
  using round_code_bounds [of 1 "- u"] round_code_bounds [of 1 v]
    round_code_mono [of 1 1 "- v" "- u"] round_code_mono [of 1 1 u v]
  by (auto simp: kround_def)

lemma units_mag: "\<bar>units x\<bar> = mag (f32_code x)"
  by (simp add: units_def)

lemma kround_units:
  assumes "is_fin x" shows "kround (units x) = key x"
proof -
  have rc: "round_code (mag (f32_code x)) 1 = f32_code x"
    using round_code_mag [of 1 "f32_code x"] assms by (simp add: is_fin_def)
  have "f32_code x = 0" if "mag (f32_code x) = 0"
    using that rc round_code_mag [of 1 0] by (simp add: inf_code_def)
  moreover have "0 \<le> mag (f32_code x)" by simp
  ultimately show ?thesis
    using rc unfolding kround_def units_def key_def by (auto simp del: mag_nonneg)
qed

lemma key_eq_0: "key x = 0 \<longleftrightarrow> f32_code x = 0"
  by (auto simp: key_def)

lemma less_key: "x < y \<longleftrightarrow> \<not> is_nan x \<and> \<not> is_nan y \<and> key x < key y"
  by (simp add: less_f32_def key_def)

lemma le_key: "x \<le> y \<longleftrightarrow> \<not> is_nan x \<and> \<not> is_nan y \<and> key x \<le> key y"
  by (simp add: less_eq_f32_def key_def)

lemma sign_mag_less:
  fixes a b ma mb :: int
  assumes "0 \<le> a" "0 \<le> b" "0 \<le> ma" "0 \<le> mb" "ma < mb \<longleftrightarrow> a < b" "mb < ma \<longleftrightarrow> b < a"
    "0 < ma \<longleftrightarrow> 0 < a" "0 < mb \<longleftrightarrow> 0 < b"
  shows "(if s then - a else a) < (if t then - b else b)
    \<longleftrightarrow> (if s then - ma else ma) < (if t then - mb else mb)"
  using assms by auto

lemma key_less_units:
  assumes "is_fin x" "is_fin y" shows "key x < key y \<longleftrightarrow> units x < units y"
  unfolding key_def units_def
  by (rule sign_mag_less)
    (use assms in \<open>simp_all add: mag_less_iff mag_pos_iff fin_codes\<close>)

lemma less_units: "is_fin x \<Longrightarrow> is_fin y \<Longrightarrow> x < y \<longleftrightarrow> units x < units y"
  by (simp add: less_key key_less_units)

lemma le_units: "is_fin x \<Longrightarrow> is_fin y \<Longrightarrow> x \<le> y \<longleftrightarrow> units x \<le> units y"
  using key_less_units [of y x] by (auto simp: le_key not_less [symmetric])

lemma f32_le_refl: "\<not> is_nan x \<Longrightarrow> x \<le> (x :: f32)"
  by (simp add: le_key)

lemma f32_le_trans: "x \<le> y \<Longrightarrow> y \<le> z \<Longrightarrow> x \<le> (z :: f32)"
  by (auto simp: le_key)

lemma f32_not_less: "\<not> is_nan x \<Longrightarrow> \<not> is_nan y \<Longrightarrow> \<not> x < y \<longleftrightarrow> y \<le> (x :: f32)"
  by (auto simp: le_key less_key)

lemma f32_less_imp_le: "x < y \<Longrightarrow> x \<le> (y :: f32)"
  by (auto simp: le_key less_key)

lemma f32_le_less_trans: "x \<le> y \<Longrightarrow> y < z \<Longrightarrow> x < (z :: f32)"
  by (auto simp: le_key less_key)

lemma f32_less_le_trans: "x < y \<Longrightarrow> y \<le> z \<Longrightarrow> x < (z :: f32)"
  by (auto simp: le_key less_key)

lemma f32_less_irrefl [simp]: "\<not> x < (x :: f32)"
  by (simp add: less_key)

lemma nan_compares_false: "is_nan x \<or> is_nan y \<Longrightarrow> \<not> x < (y :: f32) \<and> \<not> x \<le> y"
  by (auto simp: less_key le_key)

section \<open>Results of operations\<close>

lemma round_code_31: "0 < d \<Longrightarrow> 0 \<le> n \<Longrightarrow> 0 \<le> round_code n d \<and> round_code n d < 2 ^ 31"
  using round_code_bounds [of d n] by (simp add: inf_code_def)

lemma round_f32_code: "0 < d \<Longrightarrow> 0 \<le> n \<Longrightarrow> f32_code (round_f32 s n d) = round_code n d"
  using round_code_31 [of d n] by (simp add: round_f32_def code_mk)

lemma round_f32_neg: "0 < d \<Longrightarrow> 0 \<le> n \<Longrightarrow> f32_neg (round_f32 s n d) = s"
  using round_code_31 [of d n] by (simp add: round_f32_def neg_mk)

lemma round_f32_not_nan: "0 < d \<Longrightarrow> 0 \<le> n \<Longrightarrow> \<not> is_nan (round_f32 s n d)"
  using round_code_bounds [of d n] by (simp add: is_nan_def round_f32_code)

lemma round_f32_mag:
  assumes "is_fin x" shows "round_f32 s (mag (f32_code x)) 1 = mk_f32 s (f32_code x)"
  using round_code_mag [of 1 "f32_code x"] assms
  by (simp add: round_f32_def is_fin_def)

lemma fin_uminus [simp]: "f32_code (- x) = f32_code x" "f32_neg (- x) = (\<not> f32_neg x)"
  by (simp_all add: uminus_f32_def code_mk neg_mk)

lemma fin_abs [simp]: "f32_code \<bar>x\<bar> = f32_code x" "\<not> f32_neg \<bar>x :: f32\<bar>"
  by (simp_all add: abs_f32_def code_mk neg_mk)

lemma is_uminus [simp]: "is_fin (- x) = is_fin x" "is_nan (- x) = is_nan x" "is_inf (- x) = is_inf x"
  by (simp_all add: is_fin_def is_nan_def is_inf_def)

lemma is_abs [simp]: "is_fin \<bar>x\<bar> = is_fin x" "is_nan \<bar>x\<bar> = is_nan x" "is_inf \<bar>x\<bar> = is_inf x"
  by (simp_all add: is_fin_def is_nan_def is_inf_def)

lemma units_uminus [simp]: "units (- x) = - units x"
  by (simp add: units_def)

lemma plus_key:
  assumes "is_fin x" "is_fin y"
  shows "\<not> is_nan (x + y)" "key (x + y) = kround (units x + units y)"
proof -
  let ?u = "units x + units y"
  have z: "kround 0 = 0"
    using round_code_mag [of 1 0] by (simp add: kround_def inf_code_def)
  have "\<not> is_nan (x + y) \<and> key (x + y) = kround ?u"
  proof (cases "?u = 0")
    case True
    then show ?thesis
      using assms z by (simp add: plus_f32_def key_def) (simp add: is_nan_def code_mk inf_code_def)
  next
    case False
    then have "x + y = round_f32 (?u < 0) \<bar>?u\<bar> 1"
      using assms by (simp add: plus_f32_def Let_def)
    then show ?thesis
      by (auto simp: key_def kround_def round_f32_code round_f32_neg round_f32_not_nan)
  qed
  then show "\<not> is_nan (x + y)" "key (x + y) = kround ?u" by simp_all
qed

lemma plus_ge: "is_fin x \<Longrightarrow> is_fin y \<Longrightarrow> is_fin z \<Longrightarrow> units z \<le> units x + units y \<Longrightarrow> z \<le> x + y"
  using kround_mono [of "units z" "units x + units y"] by (simp add: le_key plus_key kround_units)

lemma plus_le: "is_fin x \<Longrightarrow> is_fin y \<Longrightarrow> is_fin z \<Longrightarrow> units x + units y \<le> units z \<Longrightarrow> x + y \<le> z"
  using kround_mono [of "units x + units y" "units z"] by (simp add: le_key plus_key kround_units)

lemma minus_ge: "is_fin x \<Longrightarrow> is_fin y \<Longrightarrow> is_fin z \<Longrightarrow> units z \<le> units x - units y \<Longrightarrow> z \<le> x - y"
  by (simp add: minus_f32_def plus_ge)

lemma minus_le: "is_fin x \<Longrightarrow> is_fin y \<Longrightarrow> is_fin z \<Longrightarrow> units x - units y \<le> units z \<Longrightarrow> x - y \<le> z"
  by (simp add: minus_f32_def plus_le)

lemma key_inf: "is_inf y \<Longrightarrow> is_fin x \<Longrightarrow> (f32_neg y \<longrightarrow> key y < key x) \<and> (\<not> f32_neg y \<longrightarrow> key x < key y)"
proof -
  assume a: "is_inf y" "is_fin x"
  have "0 \<le> f32_code x" by simp
  then show ?thesis
    using a unfolding key_def is_inf_def is_fin_def by (simp add: inf_code_def; linarith)
qed

lemma fin_between: "is_fin x \<Longrightarrow> is_fin z \<Longrightarrow> x \<le> y \<Longrightarrow> y \<le> z \<Longrightarrow> is_fin y"
  using key_inf [of y x] key_inf [of y z] f32_cases3 [of y] by (auto simp: le_key)
section \<open>Representable values\<close>

lemma norm_significand:
  fixes t :: int
  assumes "0 < t" "t < 2 ^ 24"
  shows "\<exists>k \<le> 23. 2 ^ 23 \<le> t * 2 ^ k \<and> t * 2 ^ k < 2 ^ 24"
proof -
  have "2 ^ (23 - j) \<le> t \<Longrightarrow> t < 2 ^ 24 \<Longrightarrow> j \<le> 23 \<Longrightarrow>
      \<exists>k \<le> j. 2 ^ 23 \<le> t * 2 ^ k \<and> t * 2 ^ k < 2 ^ 24" for j :: nat
  proof (induction j)
    case 0
    then show ?case by (intro exI [of _ 0]) simp
  next
    case (Suc j)
    show ?case
    proof (cases "2 ^ (23 - j) \<le> t")
      case True
      then show ?thesis using Suc by (meson Suc_leD le_SucI)
    next
      case False
      have p: "(2 :: int) ^ (23 - Suc j) * 2 ^ Suc j = 2 ^ 23"
        using Suc.prems(3) by (simp flip: power_add)
      have p': "(2 :: int) ^ (23 - j) * 2 ^ Suc j = 2 ^ 24"
        using Suc.prems(3) by (simp flip: power_add power_Suc)
      have "2 ^ (23 - Suc j) * 2 ^ Suc j \<le> t * 2 ^ Suc j"
        using Suc.prems by (intro mult_right_mono) auto
      moreover have "t * 2 ^ Suc j < 2 ^ (23 - j) * 2 ^ Suc j"
        using False by (intro mult_strict_right_mono) auto
      ultimately have "2 ^ 23 \<le> t * 2 ^ Suc j \<and> t * 2 ^ Suc j < 2 ^ 24"
        unfolding p p' by blast
      then show ?thesis by blast
    qed
  qed
  from this [of 23] assms show ?thesis by simp
qed

text \<open>Every \<open>t * 2^e\<close> with a 24-bit \<open>t\<close> and \<open>23 <= e <= 252\<close> is the magnitude of a code.\<close>

lemma representable:
  fixes t :: int
  assumes "0 \<le> t" "t \<le> 2 ^ 24" "23 \<le> e" "e \<le> 252"
  shows "\<exists>m. 0 \<le> m \<and> m < inf_code \<and> mag m = t * 2 ^ e"
proof -
  consider "t = 0" | "t = 2 ^ 24" | "0 < t" "t < 2 ^ 24" using assms by linarith
  then show ?thesis
  proof cases
    case 1
    then show ?thesis by (intro exI [of _ 0]) (simp add: inf_code_def)
  next
    case 2
    have "mag (int (Suc e) * 2 ^ 23 + 2 ^ 23) = 2 ^ 23 * 2 ^ Suc e"
      by (rule mag_normal) auto
    then show ?thesis using 2 assms
      by (intro exI [of _ "int (Suc e) * 2 ^ 23 + 2 ^ 23"]) (simp add: inf_code_def)
  next
    case 3
    from norm_significand [OF this] obtain k where k: "k \<le> 23" "2 ^ 23 \<le> t * 2 ^ k" "t * 2 ^ k < 2 ^ 24"
      by blast
    have "(2 :: int) ^ k * 2 ^ (e - k) = 2 ^ e"
      using k assms by (simp flip: power_add)
    then have "mag (int (e - k) * 2 ^ 23 + t * 2 ^ k) = t * 2 ^ e"
      using mag_normal [OF k(2,3), of "e - k"] by (simp add: mult.assoc)
    then show ?thesis using k assms
      by (intro exI [of _ "int (e - k) * 2 ^ 23 + t * 2 ^ k"]) (simp add: inf_code_def)
  qed
qed

lemma round_exact:
  assumes "0 \<le> m" "m < inf_code" "mag m * d = n" "0 < d"
  shows "is_fin (round_f32 s n d)" "units (round_f32 s n d) = (if s then - mag m else mag m)"
proof -
  have rc: "round_code n d = m"
    using assms round_code_mag [of d m] by simp
  have n: "0 \<le> n" using assms by auto
  show "is_fin (round_f32 s n d)" "units (round_f32 s n d) = (if s then - mag m else mag m)"
    using assms n rc by (simp_all add: is_fin_def units_def round_f32_code round_f32_neg)
qed

text \<open>Integers up to \<open>2^24\<close> convert exactly.\<close>

lemma int_representable:
  assumes "\<bar>i\<bar> \<le> 2 ^ 24"
  obtains m where "0 \<le> m" "m < inf_code" "mag m = \<bar>i\<bar> * unit1"
  using representable [of "\<bar>i\<bar>" 149] assms by (auto simp: unit1_def)

lemma f32_of_int_exact:
  assumes "\<bar>i\<bar> \<le> 2 ^ 24"
  shows "is_fin (f32_of_int i)" "units (f32_of_int i) = i * unit1"
proof -
  from int_representable [OF assms] obtain m where m: "0 \<le> m" "m < inf_code" "mag m = \<bar>i\<bar> * unit1" .
  note r = round_exact [OF m(1,2), of 1 "\<bar>i\<bar> * unit1" "i < 0"]
  show "is_fin (f32_of_int i)" using r(1) m(3) by (simp add: f32_of_int_def)
  show "units (f32_of_int i) = i * unit1" using r(2) m(3) by (simp add: f32_of_int_def)
qed

section \<open>Floor, conversion, scaling\<close>

lemma unit1_pos [simp]: "0 < unit1" "0 \<le> unit1"
  by (simp_all add: unit1_def)

lemma unit1_nonzero: "unit1 \<noteq> 0"
  by (simp add: unit1_def)

lemma mag_big_multiple:
  assumes "0 \<le> m" "2 ^ 24 * unit1 \<le> mag m"
  shows "mag m mod unit1 = 0"
proof -
  have "\<not> m < 2 ^ 23"
    using assms by (auto simp: mag_def unit1_def)
  then obtain e t where m: "t < 2 ^ 24" "2 ^ 23 \<le> t" "mag m = t * 2 ^ e"
    using mag_split [of m] by (metis linorder_not_less)
  have "149 \<le> e"
  proof (rule ccontr)
    assume "\<not> 149 \<le> e"
    then have "(2 :: int) ^ e \<le> 2 ^ 149" by (intro power_increasing) auto
    then have "t * 2 ^ e < 2 ^ 24 * 2 ^ 149" using m by (intro mult_less_le_imp_less) auto
    then show False using assms m by (simp add: unit1_def)
  qed
  then have "(2 :: int) ^ 149 dvd 2 ^ e" by (rule le_imp_power_dvd)
  then show ?thesis by (simp add: m unit1_def)
qed

lemma floor_representable:
  assumes "is_fin x"
  obtains m where "0 \<le> m" "m < inf_code" "mag m = \<bar>units x div unit1\<bar> * unit1"
proof (cases "mag (f32_code x) < 2 ^ 24 * unit1")
  case True
  then have u: "units x \<le> 2 ^ 24 * unit1" "(- (2 ^ 24)) * unit1 \<le> units x"
    using mag_nonneg [of "f32_code x"] by (auto simp: units_def simp del: mag_nonneg)
  have "units x div unit1 \<le> 2 ^ 24" "- (2 ^ 24) \<le> units x div unit1"
    using zdiv_mono1 [OF u(1) unit1_pos(1)] zdiv_mono1 [OF u(2) unit1_pos(1)]
    unfolding nonzero_mult_div_cancel_right [OF unit1_nonzero] .
  then show ?thesis using that int_representable [of "units x div unit1"] by (auto simp: abs_le_iff)
next
  case False
  then have "mag (f32_code x) mod unit1 = 0"
    by (intro mag_big_multiple) auto
  then have "unit1 dvd units x" by (auto simp: units_def)
  then have "\<bar>units x div unit1\<bar> * unit1 = mag (f32_code x)"
    using abs_mult [of "units x div unit1" unit1] by (simp add: units_mag [symmetric])
  then show ?thesis using that [of "f32_code x"] assms by (simp add: is_fin_def)
qed

lemma floor_spec:
  assumes "is_fin x"
  shows "is_fin (f32_floor x)" "units (f32_floor x) = units x div unit1 * unit1"
proof -
  let ?k = "units x div unit1"
  from floor_representable [OF assms] obtain m
    where m: "0 \<le> m" "m < inf_code" "mag m = \<bar>?k\<bar> * unit1" .
  note r = round_exact [OF m(1,2), of 1 "\<bar>?k\<bar> * unit1" "?k < 0"]
  have z: "is_fin (mk_f32 b 0)" "units (mk_f32 b 0) = 0" for b
    by (simp_all add: is_fin_def units_def code_mk inf_code_def)
  show "is_fin (f32_floor x)"
    using assms m(3) z r(1) by (auto simp: f32_floor_def Let_def)
  show "units (f32_floor x) = ?k * unit1"
    using assms m(3) z r(2) by (auto simp: f32_floor_def Let_def)
qed

lemma as_uint_bounds: "0 \<le> mx \<Longrightarrow> 0 \<le> f32_as_uint mx x \<and> f32_as_uint mx x \<le> mx"
  by (auto simp: f32_as_uint_def pos_imp_zdiv_nonneg_iff)

lemma as_uint_fin: "is_fin x \<Longrightarrow> 0 \<le> units x \<Longrightarrow> 0 \<le> mx \<Longrightarrow>
    f32_as_uint mx x = min mx (units x div unit1)"
  using mag_nonneg [of "f32_code x"]
  by (auto simp: f32_as_uint_def units_def simp del: mag_nonneg)

text \<open>A factor of magnitude at most one never increases the magnitude.\<close>

lemma times_shrinks:
  assumes "is_fin x" "is_fin y" "mag (f32_code y) \<le> unit1"
  shows "is_fin (x * y)" "mag (f32_code (x * y)) \<le> mag (f32_code x)"
    "f32_neg (x * y) = (f32_neg x \<noteq> f32_neg y)"
proof -
  let ?n = "mag (f32_code x) * mag (f32_code y)"
  have xy: "x * y = round_f32 (f32_neg x \<noteq> f32_neg y) ?n unit1"
    using assms by (simp add: times_f32_def Let_def)
  have "round_code ?n unit1 \<le> round_code (mag (f32_code x)) 1"
    using assms(3) by (intro round_code_mono) (auto intro: mult_left_mono)
  also have "\<dots> = f32_code x"
    using assms(1) round_code_mag [of 1 "f32_code x"] by (simp add: is_fin_def)
  finally have c: "f32_code (x * y) \<le> f32_code x"
    by (simp add: xy round_f32_code)
  then show "is_fin (x * y)" using assms(1) by (simp add: is_fin_def)
  show "mag (f32_code (x * y)) \<le> mag (f32_code x)"
    using c assms(1) by (intro mag_mono) (auto simp: is_fin_def)
  show "f32_neg (x * y) = (f32_neg x \<noteq> f32_neg y)"
    by (simp add: xy round_f32_neg)
qed

lemma div_not_nan:
  assumes "is_fin x" "is_fin y" "f32_code y \<noteq> 0"
  shows "\<not> is_nan (x / y)" "f32_neg (x / y) = (f32_neg x \<noteq> f32_neg y)"
proof -
  have "0 < mag (f32_code y)"
    using assms mag_pos_iff [of "f32_code y"] f32_code_bounds(1) [of y]
    by (auto simp: fin_codes simp del: f32_code_bounds)
  moreover have "x / y = round_f32 (f32_neg x \<noteq> f32_neg y) (mag (f32_code x) * unit1) (mag (f32_code y))"
    using assms by (simp add: divide_f32_def Let_def)
  ultimately show "\<not> is_nan (x / y)" "f32_neg (x / y) = (f32_neg x \<noteq> f32_neg y)"
    by (simp_all add: round_f32_not_nan round_f32_neg)
qed

section \<open>Clamping\<close>

lemma clamp_None_iff: "f32_clamp x lo hi = None \<longleftrightarrow> \<not> lo \<le> hi"
  by (simp add: f32_clamp_def)

lemma clamp_range: "f32_clamp x lo hi = Some y \<Longrightarrow> \<not> is_nan x \<Longrightarrow> lo \<le> y \<and> y \<le> hi"
  by (auto simp: f32_clamp_def Let_def le_key less_key split: if_splits)

lemma clamp_id: "lo \<le> x \<Longrightarrow> x \<le> hi \<Longrightarrow> f32_clamp x lo hi = Some x"
  by (auto simp: f32_clamp_def Let_def le_key less_key)

end
