(* ===== verification/F32_Eval.thy ===== *)
theory F32_Eval
  imports F32
begin

text \<open>
  Code equations for closed evaluation of the \<open>f32\<close> model: the same functions on
  significand and exponent, so that numerals stay below about 50 bits. Each is proved
  equal to its definition; nothing else uses this theory's functions.
\<close>

section \<open>Rounding of a scaled quotient\<close>

lemma round_code_cong:
  assumes "0 < d1" "0 < d2" "0 \<le> n1" "0 \<le> n2" "n1 * d2 = n2 * d1"
  shows "round_code n1 d1 = round_code n2 d2"
  by (rule order_antisym; rule round_code_mono) (use assms in auto)

lemma norm_exp_unique: "2 ^ 23 \<le> q div 2 ^ e \<Longrightarrow> q div 2 ^ e < 2 ^ 24 \<Longrightarrow> norm_exp q = e"
proof (induction e arbitrary: q)
  case 0
  then show ?case by (simp add: norm_exp.simps [of q])
next
  case (Suc e)
  have split: "q div 2 ^ Suc e = q div 2 div 2 ^ e" by (simp add: zdiv_zmult2_eq)
  then have "norm_exp (q div 2) = e" using Suc by simp
  moreover have "\<not> q < 2 ^ 24"
  proof
    assume "q < 2 ^ 24"
    then have "q div 2 ^ Suc e \<le> (2 ^ 24 - 1) div 2 ^ Suc e" by (intro zdiv_mono1) auto
    also have "\<dots> \<le> (2 ^ 24 - 1) div 2 ^ Suc 0"
      by (intro zdiv_mono2) (auto intro: power_increasing)
    finally show False using Suc.prems(1) by simp
  qed
  ultimately show ?case by (simp add: norm_exp.simps [of q])
qed

fun num_bits :: "num \<Rightarrow> int" where
  "num_bits num.One = 1"
| "num_bits (num.Bit0 n) = num_bits n + 1"
| "num_bits (num.Bit1 n) = num_bits n + 1"




text \<open>Only a guess for the shift: its result is checked before it is used.\<close>

definition int_bits :: "int \<Rightarrow> int" where
  "int_bits i = (if i \<le> 0 then 0 else num_bits (num_of_nat (nat i)))"

lemma int_bits_code [code]:
  "int_bits 0 = 0" "int_bits (Int.Pos n) = num_bits n" "int_bits (Int.Neg n) = 0"
  by (simp_all add: int_bits_def nat_of_num_numeral [symmetric] nat_of_num_inverse)

text \<open>The code of \<open>n * 2^k / d\<close>, tried at the shift \<open>s\<close>.\<close>

definition rc_at :: "int \<Rightarrow> int \<Rightarrow> int \<Rightarrow> int \<Rightarrow> int" where
  "rc_at n k d s =
     (let n' = (if 0 \<le> s then n * 2 ^ nat s else n);
          d' = (if 0 \<le> s then d else d * 2 ^ nat (- s));
          q = n' div d'
      in if 0 \<le> k - s \<and> 2 ^ 23 \<le> q \<and> q < 2 ^ 24
         then min inf_code ((k - s) * 2 ^ 23 + rhe n' d')
         else round_code (n * 2 ^ nat k) d)"

definition rc_fast :: "int \<Rightarrow> int \<Rightarrow> int \<Rightarrow> int" where
  "rc_fast n k d =
     (let s = 23 + int_bits d - int_bits n;
          lt = (if 0 \<le> s then n * 2 ^ nat s < d * 2 ^ 23 else n < d * 2 ^ nat (- s) * 2 ^ 23)
      in rc_at n k d (if lt then s + 1 else s))"

lemma round_code_normal:
  assumes "0 < d" "0 \<le> n" "2 ^ 23 \<le> n div d" "n div d < 2 ^ 24"
  shows "round_code (n * 2 ^ e) d = min inf_code (int e * 2 ^ 23 + rhe n d)"
proof -
  have "n * 2 ^ e div d div 2 ^ e = n * 2 ^ e div (d * 2 ^ e)"
    using assms(1) by (simp add: zdiv_zmult2_eq)
  also have "\<dots> = n div d" by simp
  finally have "norm_exp (n * 2 ^ e div d) = e"
    using assms by (intro norm_exp_unique) auto
  moreover have "rhe (n * 2 ^ e) (d * 2 ^ e) = rhe n d"
    using assms(1) by (intro order_antisym rhe_mono) auto
  ultimately show ?thesis by (simp add: round_code_def)
qed

lemma rc_at_correct:
  assumes "0 < d" "0 \<le> n" "0 \<le> k"
  shows "rc_at n k d s = round_code (n * 2 ^ nat k) d"
proof -
  define n' where "n' = (if 0 \<le> s then n * 2 ^ nat s else n)"
  define d' where "d' = (if 0 \<le> s then d else d * 2 ^ nat (- s))"
  have "min inf_code ((k - s) * 2 ^ 23 + rhe n' d') = round_code (n * 2 ^ nat k) d"
    if q: "0 \<le> k - s" "2 ^ 23 \<le> n' div d'" "n' div d' < 2 ^ 24"
  proof -
    let ?e = "nat (k - s)"
    have pos: "0 < d'" "0 \<le> n'" using assms by (auto simp: n'_def d'_def)
    have "n' * 2 ^ ?e * d = n * 2 ^ nat k * d'"
    proof (cases "0 \<le> s")
      case True
      then have "nat s + ?e = nat k" using q(1) by simp
      then have "(2 :: int) ^ nat s * 2 ^ ?e = 2 ^ nat k" by (simp flip: power_add)
      then show ?thesis using True by (simp add: n'_def d'_def ac_simps)
    next
      case False
      then have "nat k + nat (- s) = ?e" using assms(3) by simp
      then have "(2 :: int) ^ nat k * 2 ^ nat (- s) = 2 ^ ?e" by (simp flip: power_add)
      then show ?thesis using False by (simp add: n'_def d'_def ac_simps)
    qed
    then have "round_code (n' * 2 ^ ?e) d' = round_code (n * 2 ^ nat k) d"
      using pos assms by (intro round_code_cong) auto
    then show ?thesis
      using round_code_normal [OF pos q(2,3), of ?e] q(1) by simp
  qed
  then show ?thesis
    by (simp add: rc_at_def n'_def [symmetric] d'_def [symmetric] Let_def)
qed

lemma rc_fast_correct:
  "0 < d \<Longrightarrow> 0 \<le> n \<Longrightarrow> 0 \<le> k \<Longrightarrow> rc_fast n k d = round_code (n * 2 ^ nat k) d"
  by (simp add: rc_fast_def rc_at_correct Let_def)

section \<open>Significand and exponent of a code\<close>

definition sig :: "int \<Rightarrow> int" where
  "sig c = (if c < 2 ^ 23 then c else 2 ^ 23 + c mod 2 ^ 23)"

definition expo :: "int \<Rightarrow> int" where
  "expo c = (if c < 2 ^ 23 then 0 else c div 2 ^ 23 - 1)"

lemma mag_sig:
  assumes "0 \<le> c" shows "mag c = sig c * 2 ^ nat (expo c)" "0 \<le> sig c" "0 \<le> expo c"
proof -
  have "1 \<le> c div 2 ^ 23" if "\<not> c < 2 ^ 23"
    using that zdiv_mono1 [of "2 ^ 23" c "2 ^ 23"] by simp
  then show "mag c = sig c * 2 ^ nat (expo c)" "0 \<le> sig c" "0 \<le> expo c"
    using assms by (auto simp: mag_def sig_def expo_def nat_diff_distrib)
qed

section \<open>Code equations\<close>

definition mul_fast :: "int \<Rightarrow> int \<Rightarrow> int" where
  "mul_fast c c' = (let k = expo c + expo c' - 149; n = sig c * sig c' in
     if 0 \<le> k then rc_fast n k 1 else round_code n (2 ^ nat (- k)))"

definition div_fast :: "int \<Rightarrow> int \<Rightarrow> int" where
  "div_fast c c' = (let k = expo c + 149 - expo c' in
     if 0 \<le> k then rc_fast (sig c) k (sig c') else round_code (mag c * unit1) (mag c'))"

lemma pow_nat_add: "0 \<le> a \<Longrightarrow> 0 \<le> b \<Longrightarrow> (2 :: int) ^ nat (a + b) = 2 ^ nat a * 2 ^ nat b"
  by (simp add: nat_add_distrib power_add)

lemma rc_int: "0 \<le> n \<Longrightarrow> rc_fast n 149 d = round_code (n * unit1) d" if "0 < d"
  using that by (simp add: rc_fast_correct unit1_def)

lemma half_unit: "(2 ^ 148 + a * unit1) div unit1 = a" "0 \<le> (2 :: int) ^ 148"
  by (simp_all add: unit1_def)

lemma mul_fast_correct:
  assumes "0 \<le> c" "0 \<le> c'"
  shows "round_code (mag c * mag c') unit1 = mul_fast c c'"
proof -
  note m = mag_sig [OF assms(1)] mag_sig [OF assms(2)]
  let ?k = "expo c + expo c' - 149" and ?n = "sig c * sig c'"
  have mm: "mag c * mag c' = ?n * 2 ^ nat (expo c + expo c')"
    using m by (simp add: pow_nat_add ac_simps)
  show ?thesis
  proof (cases "0 \<le> ?k")
    case True
    have "(2 :: int) ^ nat (expo c + expo c') = 2 ^ nat ?k * unit1"
      using pow_nat_add [of ?k 149] True by (simp add: unit1_def)
    then have "mag c * mag c' = ?n * 2 ^ nat ?k * unit1"
      by (simp only: mm mult.assoc)
    then have "round_code (mag c * mag c') unit1 = round_code (?n * 2 ^ nat ?k) 1"
      using m(2,5) assms by (intro round_code_cong) auto
    then show ?thesis
      using True m by (simp add: mul_fast_def Let_def rc_fast_correct)
  next
    case False
    have "unit1 = 2 ^ nat (expo c + expo c') * 2 ^ nat (- ?k)"
      using pow_nat_add [of "expo c + expo c'" "- ?k"] False m by (simp add: unit1_def)
    then have "mag c * mag c' * 2 ^ nat (- ?k) = ?n * unit1"
      by (simp only: mm mult.assoc)
    then have "round_code (mag c * mag c') unit1 = round_code ?n (2 ^ nat (- ?k))"
      using m(2,5) assms by (intro round_code_cong) auto
    then show ?thesis
      using False by (simp add: mul_fast_def Let_def)
  qed
qed

lemma div_fast_correct:
  assumes "0 \<le> c" "0 < c'"
  shows "round_code (mag c * unit1) (mag c') = div_fast c c'"
proof -
  have c': "0 \<le> c'" using assms by simp
  note m = mag_sig [OF assms(1)] mag_sig [OF c']
  let ?k = "expo c + 149 - expo c'"
  have s: "0 < sig c'" using assms(2) by (auto simp: sig_def add_pos_nonneg)
  show ?thesis
  proof (cases "0 \<le> ?k")
    case True
    have p: "(2 :: int) ^ nat (expo c) * unit1 = 2 ^ nat ?k * 2 ^ nat (expo c')"
      using pow_nat_add [of "expo c" 149] pow_nat_add [of ?k "expo c'"] True m
      by (simp add: unit1_def)
    have "sig c * (2 ^ nat (expo c) * unit1) * sig c' = sig c * (2 ^ nat ?k * 2 ^ nat (expo c')) * sig c'"
      by (simp only: p)
    then have "round_code (mag c * unit1) (mag c') = round_code (sig c * 2 ^ nat ?k) (sig c')"
      using m s by (intro round_code_cong) (auto simp: ac_simps)
    then show ?thesis
      using True m s by (simp add: div_fast_def Let_def rc_fast_correct)
  next
    case False
    then show ?thesis by (simp add: div_fast_def Let_def)
  qed
qed

text \<open>An exact sum: both operands over the smaller exponent.\<close>

definition sgn_sig :: "f32 \<Rightarrow> int" where
  "sgn_sig x = (if f32_neg x then - sig (f32_code x) else sig (f32_code x))"

definition low_expo :: "f32 \<Rightarrow> f32 \<Rightarrow> int" where
  "low_expo x y = min (expo (f32_code x)) (expo (f32_code y))"

definition sum_sig :: "f32 \<Rightarrow> f32 \<Rightarrow> int" where
  "sum_sig x y = sgn_sig x * 2 ^ nat (expo (f32_code x) - low_expo x y)
     + sgn_sig y * 2 ^ nat (expo (f32_code y) - low_expo x y)"

lemma units_sig: "units x = sgn_sig x * 2 ^ nat (expo (f32_code x))"
  using mag_sig(1) [of "f32_code x"] by (simp add: units_def sgn_sig_def)

lemma sum_sig_units: "units x + units y = sum_sig x y * 2 ^ nat (low_expo x y)"
proof -
  have e: "0 \<le> low_expo x y" "low_expo x y \<le> expo (f32_code x)" "low_expo x y \<le> expo (f32_code y)"
    using mag_sig(3) [of "f32_code x"] mag_sig(3) [of "f32_code y"] by (simp_all add: low_expo_def)
  have "units z = sgn_sig z * 2 ^ nat (expo (f32_code z) - low_expo x y) * 2 ^ nat (low_expo x y)"
    if "low_expo x y \<le> expo (f32_code z)" for z
    using pow_nat_add [of "expo (f32_code z) - low_expo x y" "low_expo x y"] e(1) that
    by (simp add: units_sig)
  from this [OF e(2)] this [OF e(3)] show ?thesis
    by (simp add: sum_sig_def algebra_simps)
qed

lemma plus_f32_code [code]:
  "x + y = (if is_nan x \<or> is_nan y then f32_nan
      else if is_inf x then (if is_inf y \<and> f32_neg x \<noteq> f32_neg y then f32_nan else x)
      else if is_inf y then y
      else let u = sum_sig x y in
        if u = 0 then mk_f32 (f32_neg x \<and> f32_neg y) 0
        else mk_f32 (u < 0) (rc_fast \<bar>u\<bar> (low_expo x y) 1))"
proof -
  have e: "0 \<le> low_expo x y"
    using mag_sig(3) [of "f32_code x"] mag_sig(3) [of "f32_code y"] by (simp add: low_expo_def)
  show ?thesis
    using e by (simp add: plus_f32_def Let_def sum_sig_units round_f32_def rc_fast_correct
        mult_less_0_iff abs_mult)
qed

lemma times_f32_code [code]:
  "x * y = (let s = (f32_neg x \<noteq> f32_neg y) in
     if is_nan x \<or> is_nan y then f32_nan
     else if is_inf x \<or> is_inf y then
       (if f32_code x = 0 \<or> f32_code y = 0 then f32_nan else f32_inf s)
     else mk_f32 s (mul_fast (f32_code x) (f32_code y)))"
  by (simp add: times_f32_def Let_def round_f32_def mul_fast_correct)

lemma divide_f32_code [code]:
  "x / y = (let s = (f32_neg x \<noteq> f32_neg y) in
     if is_nan x \<or> is_nan y then f32_nan
     else if is_inf x then (if is_inf y then f32_nan else f32_inf s)
     else if is_inf y then mk_f32 s 0
     else if f32_code y = 0 then (if f32_code x = 0 then f32_nan else f32_inf s)
     else mk_f32 s (div_fast (f32_code x) (f32_code y)))"
proof -
  have "0 < f32_code y \<or> f32_code y = 0"
    using f32_code_bounds(1) [of y] by linarith
  then show ?thesis
    using div_fast_correct [of "f32_code x" "f32_code y"]
    by (auto simp: divide_f32_def Let_def round_f32_def)
qed

lemma dec_code [code]: "dec n k = mk_f32 False (if 0 \<le> n then rc_fast n 149 (10 ^ k)
    else round_code (n * unit1) (10 ^ k))"
  by (simp add: dec_def round_f32_def rc_int)

lemma f32_of_int_code [code]: "f32_of_int i = mk_f32 (i < 0) (rc_fast \<bar>i\<bar> 149 1)"
  by (simp add: f32_of_int_def round_f32_def rc_int)

text \<open>Whole part of a magnitude, and of a signed value.\<close>

definition unit_div :: "int \<Rightarrow> int \<Rightarrow> int" where
  "unit_div n e = (if e \<le> 149 then n div 2 ^ nat (149 - e) else n * 2 ^ nat (e - 149))"

lemma unit_div_correct:
  assumes "0 \<le> e" shows "n * 2 ^ nat e div unit1 = unit_div n e"
proof (cases "e \<le> 149")
  case True
  have "unit1 = 2 ^ nat e * 2 ^ nat (149 - e)"
    using pow_nat_add [of e "149 - e"] True assms by (simp add: unit1_def)
  then have "n * 2 ^ nat e div unit1 = 2 ^ nat e * n div (2 ^ nat e * 2 ^ nat (149 - e))"
    by (simp only: mult.commute)
  then show ?thesis using True by (simp add: unit_div_def)
next
  case False
  have "(2 :: int) ^ nat e = 2 ^ nat (e - 149) * unit1"
    using pow_nat_add [of "e - 149" 149] False by (simp add: unit1_def)
  then show ?thesis using False unit1_nonzero by (simp add: unit_div_def mult.assoc [symmetric])
qed

lemma f32_floor_code [code]:
  "f32_floor x = (if \<not> is_fin x then x else
     let k = unit_div (sgn_sig x) (expo (f32_code x)) in
       if k = 0 then mk_f32 (f32_neg x) 0 else mk_f32 (k < 0) (rc_fast \<bar>k\<bar> 149 1))"
  using mag_sig(3) [of "f32_code x"]
  by (simp add: f32_floor_def units_sig unit_div_correct round_f32_def rc_int Let_def)

lemma f32_as_uint_code [code]:
  "f32_as_uint mx x = (if is_nan x \<or> f32_neg x then 0
     else if is_inf x then mx else min mx (unit_div (sig (f32_code x)) (expo (f32_code x))))"
  using mag_sig [of "f32_code x"] by (simp add: f32_as_uint_def unit_div_correct)

definition round_div :: "int \<Rightarrow> int \<Rightarrow> int" where
  "round_div n e = (if e \<le> 148 then (n + 2 ^ nat (148 - e)) div 2 ^ nat (149 - e)
     else n * 2 ^ nat (e - 149))"

lemma round_div_correct:
  assumes "0 \<le> e" shows "(n * 2 ^ nat e + 2 ^ 148) div unit1 = round_div n e"
proof (cases "e \<le> 148")
  case True
  have u: "unit1 = 2 ^ nat e * 2 ^ nat (149 - e)"
    using pow_nat_add [of e "149 - e"] True assms by (simp add: unit1_def)
  have h: "(2 :: int) ^ 148 = 2 ^ nat e * 2 ^ nat (148 - e)"
    using pow_nat_add [of e "148 - e"] True assms by simp
  have "n * 2 ^ nat e + 2 ^ 148 = 2 ^ nat e * (n + 2 ^ nat (148 - e))"
    unfolding h by (simp add: algebra_simps)
  then show ?thesis using True by (simp add: round_div_def u)
next
  case False
  have "(2 :: int) ^ nat e = 2 ^ nat (e - 149) * unit1"
    using pow_nat_add [of "e - 149" 149] False by (simp add: unit1_def)
  then have "n * 2 ^ nat e + 2 ^ 148 = 2 ^ 148 + (n * 2 ^ nat (e - 149)) * unit1"
    by (simp only: mult.assoc add.commute)
  then show ?thesis
    using False half_unit(1) [of "n * 2 ^ nat (e - 149)"] by (simp only: round_div_def if_False)
qed

lemma f32_round_code [code]:
  "f32_round x = (if \<not> is_fin x then x else
     mk_f32 (f32_neg x) (rc_fast (round_div (sig (f32_code x)) (expo (f32_code x))) 149 1))"
proof -
  note m = mag_sig [of "f32_code x", OF f32_code_bounds(1)]
  have r: "(mag (f32_code x) + 2 ^ 148) div unit1 = round_div (sig (f32_code x)) (expo (f32_code x))"
    using round_div_correct [OF m(3)] m(1) by simp
  have "0 \<le> (mag (f32_code x) + 2 ^ 148) div unit1"
    by (simp add: pos_imp_zdiv_nonneg_iff)
  then show ?thesis
    unfolding f32_round_def round_f32_def r by (simp add: rc_int)
qed

end
