(* ===== verification/Gear.thy ===== *)
theory Gear
  imports F32_Eval
begin

text \<open>
  The gear estimator, \<open>core/src/gear.rs\<close>: the neutral switch, the optional gear
  register and the rpm/speed band classifier with its debounce, standstill decay and
  launch rule, and the time alignment of the rpm/speed pair. Log lines are left out.
\<close>

section \<open>Constants and data\<close>

definition NUM_GEARS :: nat where "NUM_GEARS = 6"
definition MIN_SPEED :: f32 where "MIN_SPEED = dec 30 1"
definition MIN_RPM :: f32 where "MIN_RPM = dec 6000 1"
definition DEBOUNCE_N :: u8 where "DEBOUNCE_N = 3"
definition DEBOUNCE_CONFIDENT :: u8 where "DEBOUNCE_CONFIDENT = 2"
definition BAND_TOL :: f32 where "BAND_TOL = dec 14 2"
definition CONFIDENT_TOL :: f32 where "CONFIDENT_TOL = dec 5 2"
definition STANDSTILL_SPEED :: f32 where "STANDSTILL_SPEED = dec 10 1"
definition STANDSTILL_FORGET :: u8 where "STANDSTILL_FORGET = 8"
definition LAUNCH_MAX_SPEED :: f32 where "LAUNCH_MAX_SPEED = dec 120 1"
definition LAUNCH_MIN_RPM :: f32 where "LAUNCH_MIN_RPM = dec 11000 1"

definition FACTORY_BANDS :: "f32 list" where
  "FACTORY_BANDS = [dec 1969 1, dec 1357 1, dec 1021 1, dec 828 1, dec 683 1, dec 559 1]"

lemmas gear_consts [model_defs] = NUM_GEARS_def MIN_SPEED_def MIN_RPM_def DEBOUNCE_N_def
  DEBOUNCE_CONFIDENT_def BAND_TOL_def CONFIDENT_TOL_def STANDSTILL_SPEED_def
  STANDSTILL_FORGET_def LAUNCH_MAX_SPEED_def LAUNCH_MIN_RPM_def FACTORY_BANDS_def

datatype gear = Unknown | Neutral | G u8

record gear_inputs =
  rpm :: "f32 option"
  speed :: "f32 option"
  gear_reg :: "u8 option"
  neutral_switch :: bool
  clutch_pulled :: bool

definition default_inputs :: gear_inputs where
  "default_inputs = \<lparr>rpm = None, speed = None, gear_reg = None,
     neutral_switch = False, clutch_pulled = False\<rparr>"

text \<open>\<open>bands\<close>: the array of six ratios and how many of them are valid.\<close>

record estimator =
  bands :: "(f32 list \<times> nat) option"
  cur_gear :: gear
  candidate :: gear
  candidate_confident :: bool
  stable :: u8
  standstill :: u8

definition new_estimator :: estimator where
  "new_estimator = \<lparr>bands = None, cur_gear = Unknown, candidate = Unknown,
     candidate_confident = False, stable = 0, standstill = 0\<rparr>"

section \<open>Operations\<close>

text \<open>\<open>set_bands\<close> asserts \<open>1 <= count <= NUM_GEARS\<close>; \<open>None\<close> is the panic.\<close>

definition set_bands :: "estimator \<Rightarrow> f32 list \<Rightarrow> nat \<Rightarrow> estimator option" where
  "set_bands e bs count =
     (if 1 \<le> count \<and> count \<le> NUM_GEARS then Some (e\<lparr>bands := Some (bs, count)\<rparr>) else None)"

definition clear_bands :: "estimator \<Rightarrow> estimator" where
  "clear_bands e = e\<lparr>bands := None\<rparr>"

definition get_bands :: "estimator \<Rightarrow> f32 list option" where
  "get_bands e = map_option (\<lambda>(b, c). take c b) (bands e)"

text \<open>The loop over the bands: the first index with the least relative error.\<close>

fun nearest_band :: "f32 \<Rightarrow> f32 list \<Rightarrow> nat \<Rightarrow> (nat \<times> f32) option \<Rightarrow> (nat \<times> f32) option" where
  "nearest_band ratio [] i best = best"
| "nearest_band ratio (c # cs) i best =
     (let err = \<bar>ratio - c\<bar> / c in
      nearest_band ratio cs (Suc i)
        (if (case best of None \<Rightarrow> True | Some (_, be) \<Rightarrow> err < be) then Some (i, err) else best))"

definition launch :: "f32 list \<Rightarrow> f32 \<Rightarrow> f32 \<Rightarrow> f32 \<Rightarrow> bool" where
  "launch bs r s ratio \<longleftrightarrow> s \<le> LAUNCH_MAX_SPEED \<and> LAUNCH_MIN_RPM \<le> r
     \<and> bs ! 0 * (1 - BAND_TOL) \<le> ratio"

definition classify :: "estimator \<Rightarrow> f32 option \<Rightarrow> f32 option \<Rightarrow> gear \<times> bool" where
  "classify e rpm_o speed_o =
     (case bands e of
        None \<Rightarrow> (Unknown, False)
      | Some (bs, count) \<Rightarrow>
          (case (rpm_o, speed_o) of
             (Some r, Some s) \<Rightarrow>
               if MIN_RPM \<le> r \<and> MIN_SPEED \<le> s then
                 let ratio = r / s;
                     fallback = (if launch bs r s ratio then (G 1, False) else (Unknown, False))
                 in case nearest_band ratio (take count bs) 0 None of
                      Some (i, err) \<Rightarrow>
                        if err \<le> BAND_TOL then (G (of_nat i + 1), err \<le> CONFIDENT_TOL) else fallback
                    | None \<Rightarrow> fallback
               else (Unknown, False)
           | _ \<Rightarrow> (Unknown, False)))"

text \<open>
  \<open>update\<close> in its steps: the switch path, leaving neutral, the standstill decay, the raw
  classification of this sample, the debounce.
\<close>

definition switch_neutral :: "estimator \<Rightarrow> estimator" where
  "switch_neutral e = e\<lparr>cur_gear := Neutral, candidate := Neutral, stable := DEBOUNCE_N,
     standstill := 0\<rparr>"

definition leave_neutral :: "estimator \<Rightarrow> estimator" where
  "leave_neutral e = (if cur_gear e = Neutral
     then e\<lparr>cur_gear := Unknown, candidate := Unknown, stable := 1\<rparr> else e)"

definition standstill_decay :: "f32 option \<Rightarrow> estimator \<Rightarrow> estimator" where
  "standstill_decay sp e =
     (case sp of
        Some s \<Rightarrow>
          if s < STANDSTILL_SPEED \<and> cur_gear e \<noteq> Unknown then
            let e1 = e\<lparr>standstill := sat_inc (standstill e)\<rparr> in
            if STANDSTILL_FORGET \<le> standstill e1
            then e1\<lparr>cur_gear := Unknown, candidate := Unknown, standstill := 0\<rparr> else e1
          else e\<lparr>standstill := 0\<rparr>
      | None \<Rightarrow> e)"

definition raw_gear :: "estimator \<Rightarrow> gear_inputs \<Rightarrow> gear \<times> bool" where
  "raw_gear e inp =
     (case (case gear_reg inp of Some g \<Rightarrow> if unat g \<le> NUM_GEARS then Some g else None
            | None \<Rightarrow> None) of
        Some g \<Rightarrow> if g = 0 then (Neutral, True) else (G g, True)
      | None \<Rightarrow> if clutch_pulled inp then (Unknown, False)
                else classify e (rpm inp) (speed inp))"

definition debounce :: "gear \<Rightarrow> bool \<Rightarrow> estimator \<Rightarrow> estimator" where
  "debounce raw confident e =
     (let e1 = (if raw = candidate e
                then e\<lparr>stable := sat_inc (stable e), candidate_confident := confident\<rparr>
                else e\<lparr>candidate := raw, candidate_confident := confident, stable := 1\<rparr>);
          needed = (if candidate_confident e1 then DEBOUNCE_CONFIDENT else DEBOUNCE_N)
      in if needed \<le> stable e1 \<and> candidate e1 \<noteq> Unknown
         then e1\<lparr>cur_gear := candidate e1\<rparr> else e1)"

definition update :: "estimator \<Rightarrow> gear_inputs \<Rightarrow> estimator \<times> gear" where
  "update e inp =
     (if neutral_switch inp then (switch_neutral e, Neutral)
      else let e2 = standstill_decay (speed inp) (leave_neutral e);
               (raw, confident) = raw_gear e2 inp;
               e3 = debounce raw confident e2
           in (e3, cur_gear e3))"

text \<open>\<open>clamp\<close> panics (\<open>None\<close>) when its bounds are not ordered.\<close>

definition time_align_rpm :: "f32 \<Rightarrow> f32 \<Rightarrow> f32 \<Rightarrow> f32 \<Rightarrow> f32 option" where
  "time_align_rpm rpm_now rpm_prev dt_ms lead_ms =
     (if \<not> (dec 10 1 \<le> dt_ms \<and> dt_ms \<le> dec 20000 1) \<or> lead_ms \<le> 0 then Some rpm_now
      else let slope = (rpm_now - rpm_prev) / dt_ms;
               corrected = rpm_now + slope * lead_ms;
               limit = rpm_now * dec 10 2
           in f32_clamp corrected (rpm_now - limit) (rpm_now + limit))"

lemmas gear_defs [model_defs] = set_bands_def clear_bands_def get_bands_def launch_def classify_def
  switch_neutral_def leave_neutral_def standstill_decay_def raw_gear_def debounce_def
  update_def time_align_rpm_def new_estimator_def default_inputs_def

section \<open>The nearest band\<close>

definition rel_err :: "f32 \<Rightarrow> f32 \<Rightarrow> f32" where
  "rel_err ratio c = \<bar>ratio - c\<bar> / c"

text \<open>The best of a prefix: an index into it, its error, and no earlier error is smaller.\<close>

definition best_of :: "f32 \<Rightarrow> f32 list \<Rightarrow> (nat \<times> f32) option \<Rightarrow> bool" where
  "best_of ratio cs b \<longleftrightarrow> (case b of
     None \<Rightarrow> cs = []
   | Some (i, err) \<Rightarrow> i < length cs \<and> err = rel_err ratio (cs ! i)
       \<and> (\<forall>j < length cs. \<not> rel_err ratio (cs ! j) < err))"

lemma best_of_step:
  assumes "best_of ratio cs best"
  shows "best_of ratio (cs @ [c])
    (if (case best of None \<Rightarrow> True | Some (_, be) \<Rightarrow> rel_err ratio c < be)
     then Some (length cs, rel_err ratio c) else best)"
  using assms
  by (auto simp: best_of_def nth_append less_Suc_eq less_key split: option.splits prod.splits)

lemma nearest_band_best:
  "best_of ratio pre best \<Longrightarrow> best_of ratio (pre @ cs) (nearest_band ratio cs (length pre) best)"
proof (induction cs arbitrary: pre best)
  case Nil
  then show ?case by simp
next
  case (Cons c cs)
  let ?b = "if (case best of None \<Rightarrow> True | Some (_, be) \<Rightarrow> rel_err ratio c < be)
     then Some (length pre, rel_err ratio c) else best"
  have "best_of ratio ((pre @ [c]) @ cs) (nearest_band ratio cs (length (pre @ [c])) ?b)"
    by (intro Cons.IH best_of_step Cons.prems)
  moreover have "nearest_band ratio (c # cs) (length pre) best
      = nearest_band ratio cs (length (pre @ [c])) ?b"
    by (auto simp: rel_err_def Let_def split: option.splits)
  ultimately show ?case by simp
qed

lemma nearest_band_spec: "best_of ratio cs (nearest_band ratio cs 0 None)"
  using nearest_band_best [of ratio "[]" None cs] by (simp add: best_of_def)

section \<open>The classifier\<close>

fun valid_gear :: "gear \<Rightarrow> bool" where
  "valid_gear (G n) = (1 \<le> unat n \<and> unat n \<le> NUM_GEARS)"
| "valid_gear _ = True"

text \<open>Why the classifier may answer gear \<open>g\<close>: the nearest valid band, or a launch.\<close>

definition in_band :: "f32 list \<Rightarrow> nat \<Rightarrow> f32 \<Rightarrow> nat \<Rightarrow> bool" where
  "in_band bs count ratio i \<longleftrightarrow> i < count \<and> rel_err ratio (bs ! i) \<le> BAND_TOL
     \<and> (\<forall>j < count. \<not> rel_err ratio (bs ! j) < rel_err ratio (bs ! i))"

lemma classify_cases:
  assumes "classify e ro so = (g, conf)" "g \<noteq> Unknown" "bands e = Some (bs, count)"
    "count \<le> length bs"
  obtains r s where "ro = Some r" "so = Some s" "MIN_RPM \<le> r" "MIN_SPEED \<le> s"
    "(\<exists>i. in_band bs count (r / s) i \<and> g = G (of_nat i + 1)
        \<and> conf = (rel_err (r / s) (bs ! i) \<le> CONFIDENT_TOL))
     \<or> launch bs r s (r / s) \<and> g = G 1 \<and> \<not> conf"
proof -
  from assms obtain r s where rs: "ro = Some r" "so = Some s" "MIN_RPM \<le> r" "MIN_SPEED \<le> s"
    by (auto simp: classify_def split: option.splits if_splits)
  let ?fb = "if launch bs r s (r / s) then (G 1, False) else (Unknown, False)"
  let ?nb = "nearest_band (r / s) (take count bs) 0 None"
  have eq: "(case ?nb of Some (i, err) \<Rightarrow>
      if err \<le> BAND_TOL then (G (of_nat i + 1), err \<le> CONFIDENT_TOL) else ?fb
      | None \<Rightarrow> ?fb) = (g, conf)"
    using assms(1,3) rs by (simp add: classify_def Let_def)
  have fb: "launch bs r s (r / s) \<and> g = G 1 \<and> \<not> conf" if "?fb = (g, conf)"
    using that assms(2) by (simp split: if_splits)
  have best: "best_of (r / s) (take count bs) ?nb"
    by (rule nearest_band_spec)
  show thesis
  proof (cases ?nb)
    case None
    then show thesis using eq fb by (intro that [OF rs]) simp
  next
    case (Some ie)
    obtain i err where nb: "?nb = Some (i, err)" using Some by (cases ie) auto
    show thesis
    proof (cases "err \<le> BAND_TOL")
      case True
      then have "in_band bs count (r / s) i" "err = rel_err (r / s) (bs ! i)"
        using best assms(4) unfolding nb best_of_def in_band_def by auto
      moreover have "g = G (of_nat i + 1)" "conf = (err \<le> CONFIDENT_TOL)"
        using eq True unfolding nb by simp_all
      ultimately show thesis by (intro that [OF rs]) blast
    next
      case False
      then show thesis using eq fb unfolding nb by (intro that [OF rs]) simp
    qed
  qed
qed

lemma classify_no_bands: "bands e = None \<Longrightarrow> classify e ro so = (Unknown, False)"
  by (simp add: classify_def)

lemma in_band_digit: "in_band bs count ratio i \<Longrightarrow> count \<le> NUM_GEARS \<Longrightarrow> unat (of_nat i + 1 :: u8) = Suc i"
  by (auto simp: in_band_def NUM_GEARS_def unat_word_ariths unat_of_nat)

section \<open>Well-formed estimators\<close>

definition bands_ok :: "estimator \<Rightarrow> bool" where
  "bands_ok e \<longleftrightarrow> (case bands e of None \<Rightarrow> True
     | Some (bs, c) \<Rightarrow> length bs = NUM_GEARS \<and> 1 \<le> c \<and> c \<le> NUM_GEARS)"

definition est_inv :: "estimator \<Rightarrow> bool" where
  "est_inv e \<longleftrightarrow> bands_ok e \<and> valid_gear (cur_gear e) \<and> valid_gear (candidate e)
     \<and> standstill e < STANDSTILL_FORGET"

lemma classify_valid: "bands_ok e \<Longrightarrow> classify e ro so = (g, conf) \<Longrightarrow> valid_gear g"
proof (cases "bands e")
  case None
  then show "classify e ro so = (g, conf) \<Longrightarrow> valid_gear g" by (auto simp: classify_no_bands)
next
  case (Some bc)
  assume a: "bands_ok e" "classify e ro so = (g, conf)"
  obtain bs count where b: "bands e = Some (bs, count)" using Some by (cases bc) auto
  then have c: "count \<le> length bs" "count \<le> NUM_GEARS" using a(1) by (auto simp: bands_ok_def)
  show "valid_gear g"
  proof (cases "g = Unknown")
    case False
    show ?thesis
    proof (rule classify_cases [OF a(2) False b c(1)], elim disjE exE conjE)
      fix r s i
      assume i: "in_band bs count (r / s) i" and g: "g = G (of_nat i + 1)"
      from in_band_digit [OF i c(2)] i c(2) show "valid_gear g"
        by (simp add: g in_band_def)
    qed (simp add: NUM_GEARS_def)
  qed simp
qed

lemma raw_gear_valid: "bands_ok e \<Longrightarrow> raw_gear e inp = (g, conf) \<Longrightarrow> valid_gear g"
  by (auto simp: raw_gear_def classify_valid unat_eq_zero Suc_le_eq unat_gt_0
      split: option.splits if_splits)

text \<open>What each step of \<open>update\<close> leaves alone.\<close>

lemma step_bands [simp]:
  "bands (switch_neutral e) = bands e" "bands (leave_neutral e) = bands e"
  "bands (standstill_decay sp e) = bands e" "bands (debounce raw conf e) = bands e"
  by (simp_all add: switch_neutral_def leave_neutral_def standstill_decay_def debounce_def Let_def
      split: option.split)

lemma update_bands [simp]: "bands (fst (update e inp)) = bands e"
  by (simp add: update_def Let_def split: prod.split)

lemma est_inv_steps [inv_intros]:
  "est_inv e \<Longrightarrow> est_inv (switch_neutral e)" "est_inv e \<Longrightarrow> est_inv (leave_neutral e)"
  "est_inv e \<Longrightarrow> est_inv (standstill_decay sp e)"
  "est_inv e \<Longrightarrow> valid_gear raw \<Longrightarrow> est_inv (debounce raw conf e)"
  by (auto simp: est_inv_def bands_ok_def switch_neutral_def leave_neutral_def not_le
      STANDSTILL_FORGET_def standstill_decay_def debounce_def Let_def split: option.split)

lemma est_inv_update [inv_intros]:
  assumes "est_inv e" shows "est_inv (fst (update e inp))"
proof (cases "neutral_switch inp")
  case False
  let ?e2 = "standstill_decay (speed inp) (leave_neutral e)"
  obtain raw conf where r: "raw_gear ?e2 inp = (raw, conf)" by fastforce
  have i: "est_inv ?e2" using assms by (intro inv_intros)
  then have "valid_gear raw" using r raw_gear_valid by (auto simp: est_inv_def)
  then show ?thesis using False i r by (simp add: update_def Let_def inv_intros)
qed (use assms in \<open>simp add: update_def inv_intros\<close>)

section \<open>The estimator as an event-driven machine\<close>

datatype est_event = Sample gear_inputs | SetBands "f32 list" nat | ClearBands

text \<open>\<open>set_bands\<close> is only reached with the count its assertion accepts; else it panics.\<close>

definition est_step :: "estimator \<Rightarrow> est_event \<Rightarrow> estimator" where
  "est_step e ev = (case ev of
     Sample inp \<Rightarrow> fst (update e inp)
   | SetBands bs c \<Rightarrow> (case set_bands e bs c of Some e' \<Rightarrow> e' | None \<Rightarrow> e)
   | ClearBands \<Rightarrow> clear_bands e)"

definition est_event_ok :: "est_event \<Rightarrow> bool" where
  "est_event_ok ev = (case ev of SetBands bs c \<Rightarrow> length bs = NUM_GEARS | _ \<Rightarrow> True)"

interpretation est: machine new_estimator est_step est_event_ok est_inv
proof unfold_locales
  show "est_inv new_estimator"
    by (simp add: est_inv_def bands_ok_def new_estimator_def STANDSTILL_FORGET_def)
  show "est_inv (est_step e ev)" if "est_inv e" "est_event_ok ev" for e ev
    using that est_inv_update [of e]
    by (auto simp: est_step_def est_event_ok_def set_bands_def clear_bands_def est_inv_def
        bands_ok_def split: est_event.splits)
qed

section \<open>Debounce\<close>

text \<open>
  What \<open>update\<close> classified one sample as: the switch, or the raw gear with its confidence,
  seen in the state the earlier steps of \<open>update\<close> leave.
\<close>

definition sample_raw :: "estimator \<Rightarrow> gear_inputs \<Rightarrow> gear \<times> bool" where
  "sample_raw e inp = (if neutral_switch inp then (Neutral, True)
     else raw_gear (standstill_decay (speed inp) (leave_neutral e)) inp)"

fun raws :: "estimator \<Rightarrow> gear_inputs list \<Rightarrow> (gear \<times> bool) list" where
  "raws e [] = []"
| "raws e (i # is) = sample_raw e i # raws (fst (update e i)) is"

definition est_run :: "estimator \<Rightarrow> gear_inputs list \<Rightarrow> estimator" where
  "est_run = run (\<lambda>e i. fst (update e i))"

lemma est_run_simps [simp]:
  "est_run e [] = e" "est_run e (i # is) = est_run (fst (update e i)) is"
  "est_run e (is @ js) = est_run (est_run e is) js"
  by (simp_all add: est_run_def run_append)

lemma raws_append [simp]: "raws e (is @ js) = raws e is @ raws (est_run e is) js"
  by (induction "is" arbitrary: e) simp_all

definition streak :: "gear \<Rightarrow> gear list \<Rightarrow> nat" where
  "streak g gs = length (takeWhile (\<lambda>x. x = g) (rev gs))"

lemma streak_snoc [simp]: "streak g (gs @ [x]) = (if x = g then Suc (streak g gs) else 0)"
  by (simp add: streak_def)

lemma unat_sat_inc: "unat (sat_inc w) \<le> Suc (unat w)"
  by (auto simp: sat_inc_def unat_word_ariths mod_Suc le_Suc_eq split: if_splits)

lemma debounce_stable:
  "unat (stable (debounce raw conf e)) \<le> (if raw = candidate e then Suc (unat (stable e)) else 1)"
  "candidate (debounce raw conf e) = raw" "candidate_confident (debounce raw conf e) = conf"
  using unat_sat_inc [of "stable e"] by (auto simp: debounce_def Let_def)

lemma candidate_before:
  "candidate (standstill_decay sp (leave_neutral e)) = G n \<Longrightarrow>
    candidate e = G n \<and> stable (standstill_decay sp (leave_neutral e)) = stable e"
  by (auto simp: standstill_decay_def leave_neutral_def Let_def split: option.splits if_splits)

lemma update_not_switch:
  assumes "\<not> neutral_switch inp" "sample_raw e inp = (raw, conf)"
  shows "update e inp = (debounce raw conf (standstill_decay (speed inp) (leave_neutral e)),
    cur_gear (debounce raw conf (standstill_decay (speed inp) (leave_neutral e))))"
  using assms by (simp add: update_def sample_raw_def Let_def)

lemma update_switch: "neutral_switch inp \<Longrightarrow> update e inp = (switch_neutral e, Neutral)"
  by (simp add: update_def)

text \<open>The stability counter never runs ahead of the run of equal classifications.\<close>

lemma stable_le_streak:
  assumes "stable e = 0"
  shows "candidate (est_run e is) = G n \<Longrightarrow>
    unat (stable (est_run e is)) \<le> streak (G n) (map fst (raws e is))"
proof (induction "is" rule: rev_induct)
  case Nil
  then show ?case using assms by simp
next
  case (snoc i js)
  let ?e = "est_run e js"
  let ?e2 = "standstill_decay (speed i) (leave_neutral ?e)"
  obtain raw conf where r: "sample_raw ?e i = (raw, conf)" by fastforce
  show ?case
  proof (cases "neutral_switch i")
    case True
    then show ?thesis using snoc.prems by (simp add: update_switch switch_neutral_def)
  next
    case False
    note u = update_not_switch [OF False r]
    from snoc.prems have raw: "raw = G n" by (simp add: u debounce_stable)
    show ?thesis
    proof (cases "candidate ?e2 = G n")
      case True
      then show ?thesis
        using snoc.IH candidate_before [OF True] debounce_stable(1) [of raw conf ?e2] raw r
        by (simp add: u)
    next
      case False
      then show ?thesis
        using debounce_stable(1) [of raw conf ?e2] raw r by (simp add: u)
    qed
  qed
qed

text \<open>A digit appears only by a commit of the debounce.\<close>

lemma commit_cases:
  assumes "snd (update e i) = G n" "cur_gear e \<noteq> G n"
  shows "\<not> neutral_switch i \<and> candidate (fst (update e i)) = G n \<and>
    (if snd (sample_raw e i) then DEBOUNCE_CONFIDENT else DEBOUNCE_N) \<le> stable (fst (update e i))"
proof -
  have ns: "\<not> neutral_switch i" using assms(1) by (auto simp: update_switch)
  obtain raw conf where r: "sample_raw e i = (raw, conf)" by fastforce
  let ?e2 = "standstill_decay (speed i) (leave_neutral e)"
  have "cur_gear ?e2 \<noteq> G n"
    using assms(2)
    by (auto simp: standstill_decay_def leave_neutral_def Let_def split: option.splits)
  moreover have "cur_gear (debounce raw conf ?e2) = G n"
    using assms(1) by (simp add: update_not_switch [OF ns r])
  ultimately show ?thesis
    using ns r by (auto simp: update_not_switch [OF ns r] debounce_def Let_def split: if_splits)
qed

section \<open>Standstill\<close>

definition standing :: "gear_inputs \<Rightarrow> bool" where
  "standing i \<longleftrightarrow> \<not> neutral_switch i \<and> gear_reg i = None
     \<and> (case speed i of Some s \<Rightarrow> s < STANDSTILL_SPEED | None \<Rightarrow> False)"

lemma standstill_below_min: "s < STANDSTILL_SPEED \<Longrightarrow> \<not> MIN_SPEED \<le> s"
proof
  assume "s < STANDSTILL_SPEED" "MIN_SPEED \<le> s"
  then have "MIN_SPEED < STANDSTILL_SPEED" by (rule f32_le_less_trans [rotated])
  moreover have "\<not> MIN_SPEED < STANDSTILL_SPEED" by code_simp
  ultimately show False by contradiction
qed

lemma standing_raw: "standing i \<Longrightarrow> fst (sample_raw e i) = Unknown"
  by (auto simp: standing_def sample_raw_def raw_gear_def classify_def standstill_below_min
      split: option.splits)

lemma debounce_unknown: "cur_gear (debounce Unknown conf e) = cur_gear e"
  "standstill (debounce raw conf e) = standstill e"
  by (auto simp: debounce_def Let_def)

lemma standing_update:
  assumes "standing i"
  shows "cur_gear (fst (update e i)) = cur_gear (standstill_decay (speed i) (leave_neutral e))"
    "standstill (fst (update e i)) = standstill (standstill_decay (speed i) (leave_neutral e))"
    "snd (update e i) = cur_gear (fst (update e i))"
proof -
  obtain conf where r: "sample_raw e i = (Unknown, conf)"
    using standing_raw [OF assms, of e] by (cases "sample_raw e i") auto
  have ns: "\<not> neutral_switch i" using assms by (simp add: standing_def)
  show "cur_gear (fst (update e i)) = cur_gear (standstill_decay (speed i) (leave_neutral e))"
    "standstill (fst (update e i)) = standstill (standstill_decay (speed i) (leave_neutral e))"
    "snd (update e i) = cur_gear (fst (update e i))"
    by (simp_all add: update_not_switch [OF ns r] debounce_unknown)
qed

lemma unat_max_u8 [simp]: "unat (- 1 :: u8) = 255"
  by (simp add: unsigned_minus_1_eq_mask mask_eq_exp_minus_1)

lemma standing_step:
  assumes "standing i" "cur_gear e = G n" "unat (standstill e) = k" "k < 8"
  shows "cur_gear (fst (update e i)) = (if Suc k < 8 then G n else Unknown)"
    "Suc k < 8 \<Longrightarrow> unat (standstill (fst (update e i))) = Suc k"
proof -
  have st: "standstill e \<noteq> - 1" "unat (sat_inc (standstill e)) = Suc k"
    using assms(3,4) by (auto simp: sat_inc_def unat_word_ariths)
  then have le: "STANDSTILL_FORGET \<le> sat_inc (standstill e) \<longleftrightarrow> \<not> Suc k < 8"
    by (auto simp: STANDSTILL_FORGET_def word_le_nat_alt)
  obtain s where s: "speed i = Some s" "s < STANDSTILL_SPEED"
    using assms(1) by (auto simp: standing_def split: option.splits)
  show "cur_gear (fst (update e i)) = (if Suc k < 8 then G n else Unknown)"
    "Suc k < 8 \<Longrightarrow> unat (standstill (fst (update e i))) = Suc k"
    using s assms(2) st le
    by (simp_all add: standing_update [OF assms(1)] standstill_decay_def leave_neutral_def Let_def)
qed

lemma standing_unknown: "standing i \<Longrightarrow> cur_gear e = Unknown \<Longrightarrow> cur_gear (fst (update e i)) = Unknown"
  by (auto simp: standing_update standstill_decay_def leave_neutral_def Let_def split: option.splits)

lemma standing_run_unknown:
  "list_all standing is \<Longrightarrow> cur_gear e = Unknown \<Longrightarrow> cur_gear (est_run e is) = Unknown"
  by (induction "is" arbitrary: e) (simp_all add: standing_unknown)

lemma standing_run:
  assumes "list_all standing is" "cur_gear e = G n" "unat (standstill e) < 8"
  shows "cur_gear (est_run e is) =
    (if unat (standstill e) + length is < 8 then G n else Unknown)"
  using assms
proof (induction "is" arbitrary: e)
  case Nil
  then show ?case by simp
next
  case (Cons i js)
  have i: "standing i" "list_all standing js" using Cons.prems by simp_all
  note st = standing_step [OF i(1) Cons.prems(2) refl Cons.prems(3)]
  show ?case
  proof (cases "Suc (unat (standstill e)) < 8")
    case True
    then show ?thesis using Cons.IH [OF i(2)] st by simp
  next
    case False
    then show ?thesis using standing_run_unknown [OF i(2)] st(1) by simp
  qed
qed

section \<open>Time alignment\<close>

lemma plus_not_nan: "is_fin x \<Longrightarrow> \<not> is_nan y \<Longrightarrow> \<not> is_nan (x + y)"
  using f32_cases3 [of y] plus_key(1) [of x y] by (auto simp: plus_f32_def)

lemma inf_not_nan [simp]: "\<not> is_nan (f32_inf s)" "f32_code (f32_inf s) = inf_code"
  by (simp_all add: f32_inf_def is_nan_def code_mk inf_code_def)

lemma times_not_nan:
  assumes "\<not> is_nan x" "is_fin y" "f32_code y \<noteq> 0"
  shows "\<not> is_nan (x * y)"
  using assms by (auto simp: times_f32_def Let_def round_f32_not_nan is_inf_def is_fin_def inf_code_def)

lemma divide_not_nan:
  assumes "\<not> is_nan x" "is_fin y" "f32_code y \<noteq> 0"
  shows "\<not> is_nan (x / y)"
  using assms f32_cases3 [of x] div_not_nan(1) [of x y] by (auto simp: divide_f32_def Let_def)

lemma pos_code: "\<not> x \<le> 0 \<Longrightarrow> is_fin x \<Longrightarrow> f32_code x \<noteq> 0"
  by (auto simp: le_key zero_f32_def key_def code_mk neg_mk is_nan_def inf_code_def split: if_splits)

lemma ge_one_code: "dec 10 1 \<le> x \<Longrightarrow> f32_code x \<noteq> 0"
proof
  assume "dec 10 1 \<le> x" "f32_code x = 0"
  moreover have "0 < key (dec 10 1)" by code_simp
  ultimately show False by (simp add: le_key key_def split: if_splits)
qed

lemma le_max_fin: "dec 10 1 \<le> x \<Longrightarrow> x \<le> dec 20000 1 \<Longrightarrow> is_fin x"
proof -
  have "is_fin (dec 10 1)" "is_fin (dec 20000 1)" by code_simp+
  then show "dec 10 1 \<le> x \<Longrightarrow> x \<le> dec 20000 1 \<Longrightarrow> is_fin x" by (rule fin_between)
qed

lemma nonneg_sign: "0 \<le> x \<Longrightarrow> f32_neg x \<Longrightarrow> f32_code x = 0"
  using f32_code_bounds(1) [of x]
  by (simp add: le_key key_def zero_f32_def code_mk neg_mk del: f32_code_bounds)

text \<open>The clamp window around a non-negative reading is ordered and contains the reading.\<close>

lemma align_window:
  assumes "is_fin r" "0 \<le> r"
  defines "l \<equiv> r * dec 10 2"
  shows "r - l \<le> r" "r \<le> r + l"
proof -
  have ten: "is_fin (dec 10 2)" "mag (f32_code (dec 10 2)) \<le> unit1" "\<not> f32_neg (dec 10 2)"
    by code_simp+
  note t = times_shrinks [OF assms(1) ten(1,2)]
  have "0 \<le> units l"
  proof (cases "f32_neg r")
    case True
    then have "mag (f32_code l) \<le> 0" using nonneg_sign [OF assms(2)] t(2) by (simp add: l_def)
    moreover have "0 \<le> mag (f32_code l)" by simp
    ultimately show ?thesis by (simp add: units_def)
  next
    case False
    then show ?thesis using t(3) ten(3) by (simp add: units_def l_def)
  qed
  then show "r - l \<le> r" "r \<le> r + l"
    using assms(1) t(1) by (auto intro: minus_le plus_ge simp: l_def)
qed

section \<open>Properties\<close>

text \<open>
  C11. A digit that newly appears was classified, sample after sample without a gap, at
  least twice when its last classification was confident and three times when not.
\<close>

theorem digit_needs_consecutive_samples:
  assumes "stable e = 0"
    and "snd (update (est_run e is) i) = G n" and "cur_gear (est_run e is) \<noteq> G n"
  shows "(if snd (sample_raw (est_run e is) i) then 2 else 3)
    \<le> streak (G n) (map fst (raws e (is @ [i])))"
proof -
  let ?e' = "fst (update (est_run e is) i)"
  note c = commit_cases [OF assms(2,3)]
  have "unat (stable ?e') \<le> streak (G n) (map fst (raws e (is @ [i])))"
    using stable_le_streak [OF assms(1), of "is @ [i]" n] c by simp
  moreover have "(if snd (sample_raw (est_run e is) i) then 2 else 3) \<le> unat (stable ?e')"
    using c by (auto simp: DEBOUNCE_CONFIDENT_def DEBOUNCE_N_def word_le_nat_alt split: if_splits)
  ultimately show ?thesis by linarith
qed

definition wit_est :: estimator where
  "wit_est = new_estimator\<lparr>bands := Some (FACTORY_BANDS, 1)\<rparr>"

definition wit_ride :: gear_inputs where
  "wit_ride = default_inputs\<lparr>rpm := Some (f32_of_int 3938), speed := Some (f32_of_int 20)\<rparr>"

theorem digit_needs_consecutive_samples_witness:
  "stable wit_est = 0 \<and> snd (update (est_run wit_est [wit_ride]) wit_ride) = G 1
   \<and> cur_gear (est_run wit_est [wit_ride]) \<noteq> G 1
   \<and> (if snd (sample_raw (est_run wit_est [wit_ride]) wit_ride) then 2 else 3)
      \<le> streak (G 1) (map fst (raws wit_est ([wit_ride] @ [wit_ride])))"
proof -
  have h: "stable wit_est = 0" "snd (update (est_run wit_est [wit_ride]) wit_ride) = G 1"
    "cur_gear (est_run wit_est [wit_ride]) \<noteq> G 1"
    by code_simp+
  from h digit_needs_consecutive_samples [OF h] show ?thesis by blast
qed

text \<open>
  C12. The classifier answers a digit only for the nearest calibrated band, within 14% of
  its centre (confident exactly when within 5%), or first gear on the launch signature;
  and only from rpm at least 600 and speed at least 3 km/h.
\<close>

theorem classify_sound:
  assumes "bands e = Some (bs, count)" "count \<le> length bs" "classify e ro so = (G n, conf)"
  shows "\<exists>r s. ro = Some r \<and> so = Some s \<and> MIN_RPM \<le> r \<and> MIN_SPEED \<le> s \<and>
    ((\<exists>i. in_band bs count (r / s) i \<and> n = of_nat i + 1
        \<and> conf = (rel_err (r / s) (bs ! i) \<le> CONFIDENT_TOL))
     \<or> launch bs r s (r / s) \<and> n = 1 \<and> \<not> conf)"
  by (rule classify_cases [OF assms(3) _ assms(1,2)]) auto

theorem classify_sound_witness:
  "classify wit_est (Some (f32_of_int 3938)) (Some (f32_of_int 20)) = (G 1, True)
   \<and> (\<exists>r s. Some (f32_of_int 3938) = Some r \<and> Some (f32_of_int 20) = Some s
      \<and> MIN_RPM \<le> r \<and> MIN_SPEED \<le> s \<and>
      ((\<exists>i. in_band FACTORY_BANDS 1 (r / s) i \<and> (1 :: u8) = of_nat i + 1
         \<and> True = (rel_err (r / s) (FACTORY_BANDS ! i) \<le> CONFIDENT_TOL))
       \<or> launch FACTORY_BANDS r s (r / s) \<and> (1 :: u8) = 1 \<and> \<not> True))"
proof -
  have h: "bands wit_est = Some (FACTORY_BANDS, 1)" "1 \<le> length FACTORY_BANDS"
    by (simp_all add: wit_est_def FACTORY_BANDS_def)
  have c: "classify wit_est (Some (f32_of_int 3938)) (Some (f32_of_int 20)) = (G 1, True)"
    by code_simp
  from c classify_sound [OF h c] show ?thesis by blast
qed

text \<open>
  C13. Whatever samples, band installations and wipes the estimator has gone through, the
  gear it shows next is the dash, N, or one of the six digits, and its band slice is in
  range.
\<close>

theorem estimator_always_valid:
  assumes "list_all est_event_ok evs"
  shows "valid_gear (snd (update (run est_step new_estimator evs) inp))
    \<and> bands_ok (run est_step new_estimator evs)"
proof -
  have i: "est_inv (run est_step new_estimator evs)" by (rule est.inv_run [OF assms])
  have "snd (update e inp) = cur_gear (fst (update e inp))" for e
    by (simp add: update_def switch_neutral_def Let_def split: prod.split)
  with est_inv_update [OF i, of inp] i show ?thesis by (simp add: est_inv_def)
qed

theorem estimator_always_valid_witness:
  "list_all est_event_ok [SetBands FACTORY_BANDS 6, Sample wit_ride, ClearBands]
   \<and> valid_gear (snd (update (run est_step new_estimator
        [SetBands FACTORY_BANDS 6, Sample wit_ride, ClearBands]) wit_ride))
   \<and> bands_ok (run est_step new_estimator [SetBands FACTORY_BANDS 6, Sample wit_ride, ClearBands])"
proof -
  have h: "list_all est_event_ok [SetBands FACTORY_BANDS 6, Sample wit_ride, ClearBands]"
    by (simp add: est_event_ok_def FACTORY_BANDS_def NUM_GEARS_def)
  from h estimator_always_valid [OF h] show ?thesis by blast
qed

lemma classify_not_neutral: "classify e ro so = (g, conf) \<Longrightarrow> g \<noteq> Neutral"
  by (auto simp: classify_def Let_def split: option.splits prod.splits if_splits)

lemma raw_neutral: "raw_gear e i = (Neutral, conf) \<longleftrightarrow> gear_reg i = Some 0 \<and> conf"
  using classify_not_neutral [of e "rpm i" "speed i"]
  by (auto simp: raw_gear_def NUM_GEARS_def split: option.splits if_splits)

text \<open>
  C14. N is shown exactly when the switch is closed at this sample, or a gear register that
  reads 0 is committed by the debounce at this sample: a stale N is impossible.
\<close>

theorem neutral_iff_switch_or_register:
  "snd (update e inp) = Neutral \<longleftrightarrow> neutral_switch inp \<or>
     (gear_reg inp = Some 0 \<and> DEBOUNCE_CONFIDENT \<le> stable (fst (update e inp)))"
proof (cases "neutral_switch inp")
  case False
  let ?e2 = "standstill_decay (speed inp) (leave_neutral e)"
  obtain raw conf where r: "sample_raw e inp = (raw, conf)" by fastforce
  then have raw: "raw = Neutral \<and> conf \<longleftrightarrow> gear_reg inp = Some 0" "raw = Neutral \<longrightarrow> conf"
    using False raw_neutral [of ?e2 inp] by (auto simp: sample_raw_def)
  have "cur_gear ?e2 \<noteq> Neutral"
    by (auto simp: standstill_decay_def leave_neutral_def Let_def split: option.splits)
  then have "cur_gear (debounce raw conf ?e2) = Neutral \<longleftrightarrow>
      raw = Neutral \<and> DEBOUNCE_CONFIDENT \<le> stable (debounce raw conf ?e2)"
    using raw by (auto simp: debounce_def Let_def)
  with raw show ?thesis by (auto simp: update_not_switch [OF False r] False)
qed (simp add: update_switch)

text \<open>
  C15. Standing still: a held digit survives exactly the samples up to the eighth and then
  decays to the dash, and stays the dash while the bike stands.
\<close>

theorem standstill_decays_at_eight:
  assumes "est_inv e" and "cur_gear e = G n" and "list_all standing is"
  shows "cur_gear (est_run e is) =
    (if unat (standstill e) + length is < 8 then G n else Unknown)"
proof -
  have "unat (standstill e) < 8"
    using assms(1) by (simp add: est_inv_def STANDSTILL_FORGET_def word_less_nat_alt)
  then show ?thesis by (rule standing_run [OF assms(3,2)])
qed

definition wit_stop :: gear_inputs where
  "wit_stop = default_inputs\<lparr>rpm := Some (f32_of_int 1300), speed := Some 0, clutch_pulled := True\<rparr>"

theorem standstill_decays_at_eight_witness:
  "est_inv (wit_est\<lparr>cur_gear := G 4\<rparr>) \<and> cur_gear (wit_est\<lparr>cur_gear := G 4\<rparr>) = G 4
   \<and> list_all standing (replicate 8 wit_stop)
   \<and> cur_gear (est_run (wit_est\<lparr>cur_gear := G 4\<rparr>) (replicate 8 wit_stop)) = Unknown"
proof -
  let ?e = "wit_est\<lparr>cur_gear := G 4\<rparr>"
  have h: "est_inv ?e" "cur_gear ?e = G 4"
    by (simp_all add: est_inv_def bands_ok_def wit_est_def new_estimator_def NUM_GEARS_def
        FACTORY_BANDS_def STANDSTILL_FORGET_def)
  have st: "list_all standing (replicate 8 wit_stop)" by code_simp
  have "unat (standstill ?e) = 0" by (simp add: wit_est_def new_estimator_def)
  with h st standstill_decays_at_eight [OF h st] show ?thesis by simp
qed

text \<open>
  The shown gear changes for four reasons only: the switch closes, the switch opens,
  the eighth standstill sample, or a commit of this sample's own classification, which is
  never Unknown: coasting or a sample outside every band never blanks a digit.
\<close>

lemma gear_change_causes:
  assumes "snd (update e i) \<noteq> cur_gear e"
  shows "neutral_switch i \<or> cur_gear e = Neutral
    \<or> (\<exists>s. speed i = Some s \<and> s < STANDSTILL_SPEED \<and> STANDSTILL_FORGET \<le> sat_inc (standstill e))
    \<or> (snd (update e i) = fst (sample_raw e i) \<and> fst (sample_raw e i) \<noteq> Unknown
        \<and> (if snd (sample_raw e i) then DEBOUNCE_CONFIDENT else DEBOUNCE_N)
            \<le> stable (fst (update e i)))"
proof (cases "neutral_switch i \<or> cur_gear e = Neutral")
  case False
  then have ns: "\<not> neutral_switch i" and ln: "leave_neutral e = e"
    by (simp_all add: leave_neutral_def)
  obtain raw conf where r: "sample_raw e i = (raw, conf)" by fastforce
  note u = update_not_switch [OF ns r, unfolded ln]
  have "cur_gear (standstill_decay (speed i) e) \<noteq> cur_gear e \<longrightarrow>
      (\<exists>s. speed i = Some s \<and> s < STANDSTILL_SPEED \<and> STANDSTILL_FORGET \<le> sat_inc (standstill e))"
    by (auto simp: standstill_decay_def Let_def split: option.splits)
  moreover have "cur_gear (debounce raw conf e') \<noteq> cur_gear e' \<longrightarrow>
      cur_gear (debounce raw conf e') = raw \<and> raw \<noteq> Unknown
        \<and> (if conf then DEBOUNCE_CONFIDENT else DEBOUNCE_N) \<le> stable (debounce raw conf e')" for e'
    by (auto simp: debounce_def Let_def)
  ultimately show ?thesis using assms by (auto simp: u r)
qed blast

definition wit_mid :: estimator where
  "wit_mid = wit_est\<lparr>candidate := G 1, stable := 1\<rparr>"

lemma gear_change_causes_witness:
  "snd (update wit_mid wit_ride) \<noteq> cur_gear wit_mid \<and> \<not> neutral_switch wit_ride
   \<and> cur_gear wit_mid \<noteq> Neutral \<and> snd (update wit_mid wit_ride) = fst (sample_raw wit_mid wit_ride)"
proof -
  have h: "snd (update wit_mid wit_ride) \<noteq> cur_gear wit_mid" by code_simp
  have "\<not> neutral_switch wit_ride" "cur_gear wit_mid \<noteq> Neutral"
    "\<not> STANDSTILL_FORGET \<le> sat_inc (standstill wit_mid)"
    by code_simp+
  with gear_change_causes [OF h] h show ?thesis by blast
qed

text \<open>
  C38. Time alignment of a finite, non-negative rpm reading never panics in its clamp and
  moves the reading by at most ten percent either way.
\<close>

theorem time_align_total_and_bounded:
  assumes "is_fin r" "0 \<le> r" "is_fin prev" "is_fin dt" "is_fin lead"
  shows "\<exists>y. time_align_rpm r prev dt lead = Some y
    \<and> r - r * dec 10 2 \<le> y \<and> y \<le> r + r * dec 10 2"
proof (cases "\<not> (dec 10 1 \<le> dt \<and> dt \<le> dec 20000 1) \<or> lead \<le> 0")
  case True
  then have "time_align_rpm r prev dt lead = Some r" by (simp add: time_align_rpm_def)
  then show ?thesis using align_window [OF assms(1,2)] by blast
next
  case False
  let ?c = "r + (r - prev) / dt * lead" and ?l = "r * dec 10 2"
  have "\<not> is_nan (r - prev)" using assms by (simp add: minus_f32_def plus_not_nan)
  then have "\<not> is_nan ((r - prev) / dt * lead)"
    using False assms ge_one_code pos_code by (intro times_not_nan divide_not_nan) auto
  then have nn: "\<not> is_nan ?c" using assms by (intro plus_not_nan)
  have "r - ?l \<le> r + ?l" using align_window [OF assms(1,2)] by (rule f32_le_trans)
  then obtain y where y: "f32_clamp ?c (r - ?l) (r + ?l) = Some y"
    by (auto simp: f32_clamp_def)
  have "time_align_rpm r prev dt lead = f32_clamp ?c (r - ?l) (r + ?l)"
    using False by (simp add: time_align_rpm_def Let_def)
  with clamp_range [OF y nn] y show ?thesis by simp
qed

theorem time_align_total_and_bounded_witness:
  "is_fin (f32_of_int 1100) \<and> 0 \<le> f32_of_int 1100 \<and> is_fin (f32_of_int 1000)
   \<and> is_fin (f32_of_int 350) \<and> is_fin (f32_of_int 130)
   \<and> (\<exists>y. time_align_rpm (f32_of_int 1100) (f32_of_int 1000) (f32_of_int 350) (f32_of_int 130) = Some y
     \<and> f32_of_int 1100 - f32_of_int 1100 * dec 10 2 \<le> y
     \<and> y \<le> f32_of_int 1100 + f32_of_int 1100 * dec 10 2)"
proof -
  have h: "is_fin (f32_of_int 1100)" "0 \<le> f32_of_int 1100" "is_fin (f32_of_int 1000)"
    "is_fin (f32_of_int 350)" "is_fin (f32_of_int 130)"
    by code_simp+
  from h time_align_total_and_bounded [OF h] show ?thesis by blast
qed

end
