(* ===== verification/F32_Bounds.thy ===== *)
theory F32_Bounds
  imports F32_Eval
begin

text \<open>
  Magnitude bounds by powers of two: an operation on bounded finite operands is finite, so
  a computation whose operands are bounded integers never meets an infinity or a NaN.
\<close>

definition bounded :: "nat \<Rightarrow> f32 \<Rightarrow> bool" where
  "bounded e x \<longleftrightarrow> is_fin x \<and> \<bar>units x\<bar> \<le> 2 ^ e"

lemma bounded_fin: "bounded e x \<Longrightarrow> is_fin x"
  by (simp add: bounded_def)

lemma bounded_mono: "bounded e x \<Longrightarrow> e \<le> e' \<Longrightarrow> bounded e' x"
  unfolding bounded_def using power_increasing [of e e' "2 :: int"] by (auto intro: order_trans)

lemma round_bounded:
  assumes "0 < d" "0 \<le> n" "n \<le> 2 ^ e * d" "23 \<le> e" "e \<le> 252"
  shows "bounded e (round_f32 s n d)"
proof -
  obtain m where m: "0 \<le> m" "m < inf_code" "mag m = 2 ^ e"
    using representable [of 1 e] assms(4,5) by fastforce
  have "round_code n d \<le> round_code (mag m) 1"
    using assms m by (intro round_code_mono) auto
  then have le: "round_code n d \<le> m" using round_code_mag [of 1 m] m by simp
  have b: "0 \<le> round_code n d" using round_code_bounds [OF assms(1,2)] by simp
  then have "mag (round_code n d) \<le> mag m" using le m by (intro mag_mono) auto
  moreover have "is_fin (round_f32 s n d)"
    using le m b assms by (simp add: is_fin_def round_f32_code)
  ultimately show ?thesis
    using assms m by (simp add: bounded_def units_mag round_f32_code)
qed

lemma zero_bounded: "bounded e (mk_f32 s 0)"
  by (simp add: bounded_def is_fin_def units_def code_mk inf_code_def)

lemma plus_bounded:
  assumes "bounded e x" "bounded e y" "23 \<le> e" "e \<le> 251"
  shows "bounded (Suc e) (x + y)"
proof -
  have "\<bar>units x + units y\<bar> \<le> 2 ^ Suc e" using assms(1,2) by (auto simp: bounded_def)
  then have "bounded (Suc e) (round_f32 s \<bar>units x + units y\<bar> 1)" for s
    using assms by (intro round_bounded) auto
  then show ?thesis
    using assms(1,2) zero_bounded [of "Suc e"]
    by (simp add: plus_f32_def Let_def bounded_fin del: power_Suc)
qed

lemma uminus_bounded: "bounded e x \<Longrightarrow> bounded e (- x)"
  by (simp add: bounded_def)

lemma minus_bounded:
  "bounded e x \<Longrightarrow> bounded e y \<Longrightarrow> 23 \<le> e \<Longrightarrow> e \<le> 251 \<Longrightarrow> bounded (Suc e) (x - y)"
  by (simp add: minus_f32_def plus_bounded uminus_bounded)

lemma times_bounded:
  assumes "bounded a x" "bounded b y" "a + b = e + 149" "23 \<le> e" "e \<le> 252"
  shows "bounded e (x * y)"
proof -
  have "mag (f32_code x) * mag (f32_code y) \<le> 2 ^ a * 2 ^ b"
    using assms(1,2) by (intro mult_mono) (auto simp: bounded_def units_mag)
  also have "\<dots> = 2 ^ e * unit1" by (simp only: unit1_def power_add [symmetric] assms(3))
  finally show ?thesis
    using assms bounded_fin by (auto simp: times_f32_def Let_def intro!: round_bounded)
qed

text \<open>A divisor of magnitude at least one.\<close>

lemma divide_bounded:
  assumes "bounded e x" "is_fin y" "unit1 \<le> \<bar>units y\<bar>" "23 \<le> e" "e \<le> 252"
  shows "bounded e (x / y)"
proof -
  have y: "unit1 \<le> mag (f32_code y)" using assms(3) by (simp add: units_mag)
  then have "f32_code y \<noteq> 0" using unit1_pos(1) by (metis mag_0 not_less)
  moreover have "bounded e (round_f32 s (mag (f32_code x) * unit1) (mag (f32_code y)))" for s
  proof (rule round_bounded [OF _ _ _ assms(4,5)])
    show "mag (f32_code x) * unit1 \<le> 2 ^ e * mag (f32_code y)"
      using assms(1) y by (intro mult_mono) (auto simp: bounded_def units_mag)
    show "0 < mag (f32_code y)" using y unit1_pos(1) by linarith
  qed simp
  ultimately show ?thesis using assms(1,2) by (simp add: divide_f32_def Let_def bounded_def)
qed

lemma of_int_bounded:
  assumes "\<bar>i\<bar> \<le> 2 ^ k" "k \<le> 100"
  shows "bounded (k + 149) (f32_of_int i)"
proof -
  have "\<bar>i\<bar> * unit1 \<le> 2 ^ k * unit1" using assms(1) by (intro mult_right_mono) auto
  also have "\<dots> = 2 ^ (k + 149)" by (simp add: unit1_def power_add)
  finally show ?thesis
    unfolding f32_of_int_def using assms(2) by (intro round_bounded) auto
qed

lemma bounded_not_nan [simp]: "bounded e x \<Longrightarrow> \<not> is_nan x"
  by (simp add: bounded_def)

end
