(* ===== verification/Learn.thy ===== *)
theory Learn
  imports Gear F32_Bounds
begin

text \<open>
  Self-learning calibration, \<open>core/src/learn.rs\<close>: the decimating histogram of rpm/speed
  ratios, its flash blob, the peak detector, and the refinement of reference bands by the
  peaks. Log lines are left out; the private constants \<open>MIN_RPM\<close> and \<open>MIN_SPEED\<close> of the
  file carry the prefix \<open>LEARN_\<close>.
\<close>

section \<open>Constants and data\<close>

definition RATIO_MIN :: f32 where "RATIO_MIN = dec 200 1"
definition BINS :: nat where "BINS = 300"
definition BLOB_LEN :: nat where "BLOB_LEN = 4 + BINS * 2"
definition LEARN_MIN_RPM :: f32 where "LEARN_MIN_RPM = dec 12000 1"
definition LEARN_MIN_SPEED :: f32 where "LEARN_MIN_SPEED = dec 100 1"
definition MIN_PEAK_MASS :: u32 where "MIN_PEAK_MASS = 15"
definition PEAK_SEPARATION :: f32 where "PEAK_SEPARATION = dec 6 2"
definition ANCHOR_TOL :: f32 where "ANCHOR_TOL = dec 10 2"
definition MIN_PEAKS :: nat where "MIN_PEAKS = 2"

lemmas learn_consts [model_defs] = RATIO_MIN_def BINS_def BLOB_LEN_def LEARN_MIN_RPM_def
  LEARN_MIN_SPEED_def MIN_PEAK_MASS_def PEAK_SEPARATION_def ANCHOR_TOL_def MIN_PEAKS_def

datatype sample_outcome = Accepted | ClutchPulled | InNeutral | RpmLow | SpeedLow | OutOfRange | BinFull

record ratio_histogram =
  h_counts :: "u16 list"
  h_samples :: u32

definition new_hist :: ratio_histogram where
  "new_hist = \<lparr>h_counts = replicate BINS 0, h_samples = 0\<rparr>"

definition clear_hist :: "ratio_histogram \<Rightarrow> ratio_histogram" where
  "clear_hist h = h\<lparr>h_counts := replicate BINS 0, h_samples := 0\<rparr>"

section \<open>Sampling\<close>

definition in_bins :: "f32 \<Rightarrow> bool" where
  "in_bins b \<longleftrightarrow> 0 \<le> b \<and> b < f32_of_int (int BINS)"

definition bin_of :: "f32 \<Rightarrow> f32 \<Rightarrow> f32" where
  "bin_of r s = f32_floor (r / s - RATIO_MIN)"

definition add_sample ::
  "ratio_histogram \<Rightarrow> f32 \<Rightarrow> f32 \<Rightarrow> bool \<Rightarrow> bool \<Rightarrow> ratio_histogram \<times> sample_outcome" where
  "add_sample h r s clutch neutral =
     (if clutch then (h, ClutchPulled)
      else if neutral then (h, InNeutral)
      else if r < LEARN_MIN_RPM then (h, RpmLow)
      else if s < LEARN_MIN_SPEED then (h, SpeedLow)
      else let bin = bin_of r s in
        if \<not> in_bins bin then (h, OutOfRange)
        else let b = nat (f32_as_uint (2 ^ 32 - 1) bin) in
          if h_counts h ! b < - 1
          then (h\<lparr>h_counts := (h_counts h)[b := h_counts h ! b + 1],
                  h_samples := sat_inc (h_samples h)\<rparr>, Accepted)
          else (h, BinFull))"

definition debug_mark :: "ratio_histogram \<Rightarrow> ratio_histogram \<times> bool" where
  "debug_mark h =
     (if 5 \<le> h_counts h ! 0 then (h, False)
      else (h\<lparr>h_counts := (h_counts h)[0 := h_counts h ! 0 + 1],
              h_samples := sat_inc (h_samples h)\<rparr>, True))"

section \<open>The flash blob\<close>

definition to_blob :: "ratio_histogram \<Rightarrow> u8 list" where
  "to_blob h = u32_le (h_samples h) @ concat (map u16_le (h_counts h))"

fun u16_chunks :: "u8 list \<Rightarrow> u16 list" where
  "u16_chunks (a # b # bs) = u16_of_le a b # u16_chunks bs"
| "u16_chunks _ = []"

definition from_blob :: "u8 list \<Rightarrow> ratio_histogram option" where
  "from_blob bs =
     (if length bs \<noteq> BLOB_LEN then None
      else Some \<lparr>h_counts = u16_chunks (drop 4 bs),
                 h_samples = u32_of_le (bs ! 0) (bs ! 1) (bs ! 2) (bs ! 3)\<rparr>)"

section \<open>Peaks and bands\<close>

definition nonempty :: "ratio_histogram \<Rightarrow> (f32 \<times> u16) list" where
  "nonempty h = map (\<lambda>(i, c). (RATIO_MIN + f32_of_int (int i) + dec 5 1, c))
     (filter (\<lambda>(_, c). 0 < c) (enumerate 0 (h_counts h)))"

definition h_at :: "ratio_histogram \<Rightarrow> int \<Rightarrow> u32" where
  "h_at h j = (if 0 \<le> j \<and> j < int BINS then ucast (h_counts h ! nat j) else 0)"

definition smooth :: "ratio_histogram \<Rightarrow> int \<Rightarrow> u32" where
  "smooth h j = h_at h (j - 1) + 2 * h_at h j + h_at h (j + 1)"

definition mass_at :: "ratio_histogram \<Rightarrow> int \<Rightarrow> u32" where
  "mass_at h i = h_at h (i - 1) + h_at h i + h_at h (i + 1)"

definition is_peak :: "ratio_histogram \<Rightarrow> int \<Rightarrow> bool" where
  "is_peak h i \<longleftrightarrow> 0 < smooth h i \<and> smooth h (i - 1) \<le> smooth h i \<and> smooth h (i + 1) < smooth h i
     \<and> MIN_PEAK_MASS \<le> mass_at h i"

definition centroid :: "ratio_histogram \<Rightarrow> int \<Rightarrow> f32" where
  "centroid h i =
     (let num = f32_of_int (uint (h_at h (i - 1))) * f32_of_int (i - 1)
              + f32_of_int (uint (h_at h i)) * f32_of_int i
              + f32_of_int (uint (h_at h (i + 1))) * f32_of_int (i + 1)
      in RATIO_MIN + num / f32_of_int (uint (mass_at h i)) + dec 5 1)"

definition raw_peaks :: "ratio_histogram \<Rightarrow> (f32 \<times> u32) list" where
  "raw_peaks h = map (\<lambda>i. (centroid h i, mass_at h i)) (filter (is_peak h) [0..int BINS - 1])"

definition far :: "f32 \<Rightarrow> f32 \<Rightarrow> bool" where
  "far r ar \<longleftrightarrow> PEAK_SEPARATION < \<bar>r - ar\<bar> / f32_max ar r"

fun accept_peaks :: "(f32 \<times> u32) list \<Rightarrow> (f32 \<times> u32) list \<Rightarrow> (f32 \<times> u32) list" where
  "accept_peaks acc [] = acc"
| "accept_peaks acc ((r, m) # ps) =
     accept_peaks (if list_all (\<lambda>(ar, _). far r ar) acc then acc @ [(r, m)] else acc) ps"

definition peaks :: "ratio_histogram \<Rightarrow> (f32 \<times> u32) list" where
  "peaks h = accept_peaks [] (sort_key (\<lambda>p. - uint (snd p)) (raw_peaks h))"

text \<open>\<open>min_by\<close> over the relative errors keeps the first minimum; its unwrapped
  \<open>partial_cmp\<close> panics (\<open>None\<close>) on a NaN.\<close>

fun nearest_ref :: "f32 \<Rightarrow> f32 list \<Rightarrow> nat \<Rightarrow> nat \<times> f32 \<Rightarrow> (nat \<times> f32) option" where
  "nearest_ref r [] i best = Some best"
| "nearest_ref r (c # cs) i best =
     (let err = \<bar>r - c\<bar> / c in
      if is_nan err \<or> is_nan (snd best) then None
      else nearest_ref r cs (Suc i) (if err < snd best then (i, err) else best))"

definition anchor :: "f32 list \<Rightarrow> f32 \<Rightarrow> (nat \<times> f32) option" where
  "anchor refs r = (case refs of [] \<Rightarrow> None | c # cs \<Rightarrow> nearest_ref r cs 1 (0, \<bar>r - c\<bar> / c))"

text \<open>The loop state: the bands, the mass matched per gear, the number of gears learned.\<close>

fun refine :: "f32 list \<Rightarrow> (f32 \<times> u32) list \<Rightarrow> f32 list \<times> u32 list \<times> nat
    \<Rightarrow> (f32 list \<times> u32 list \<times> nat) option" where
  "refine refs [] st = Some st"
| "refine refs ((r, m) # ps) (bs, matched, learned) =
     (case anchor refs r of
        None \<Rightarrow> None
      | Some (slot, err) \<Rightarrow>
          refine refs ps
            (if ANCHOR_TOL < err then (bs, matched, learned)
             else if matched ! slot < m
               then (bs[slot := r], matched[slot := m],
                     if matched ! slot = 0 then Suc learned else learned)
               else (bs, matched, learned)))"

text \<open>The outer option is the panic, the inner one the code's own.\<close>

definition derive_bands :: "ratio_histogram \<Rightarrow> f32 list \<Rightarrow> (f32 list \<times> nat) option option" where
  "derive_bands h refs =
     (case refine refs (peaks h) (refs, replicate NUM_GEARS 0, 0) of
        None \<Rightarrow> None
      | Some (bs, _, learned) \<Rightarrow> Some (if learned < MIN_PEAKS then None else Some (bs, learned)))"

lemmas learn_defs [model_defs] = new_hist_def clear_hist_def in_bins_def bin_of_def add_sample_def
  debug_mark_def to_blob_def from_blob_def nonempty_def h_at_def smooth_def mass_at_def is_peak_def
  centroid_def raw_peaks_def far_def peaks_def anchor_def derive_bands_def

section \<open>The histogram invariant\<close>

datatype hist_event = AddSample f32 f32 bool bool | Mark | ClearHist

fun hist_step :: "ratio_histogram \<Rightarrow> hist_event \<Rightarrow> ratio_histogram" where
  "hist_step h (AddSample r s c n) = fst (add_sample h r s c n)"
| "hist_step h Mark = fst (debug_mark h)"
| "hist_step h ClearHist = clear_hist h"

definition hist_inv :: "ratio_histogram \<Rightarrow> bool" where
  "hist_inv h \<longleftrightarrow> length (h_counts h) = BINS
     \<and> uint (h_samples h) = sum_list (map uint (h_counts h))"

lemma counts_bound: "sum_list (map uint (xs :: u16 list)) \<le> 65535 * int (length xs)"
proof (induction xs)
  case (Cons x xs)
  then show ?case using uint_lt2p [of x] by simp
qed simp

lemma bump_inv:
  assumes "hist_inv h" "b < BINS" "h_counts h ! b \<noteq> - 1"
  shows "hist_inv (h\<lparr>h_counts := (h_counts h)[b := h_counts h ! b + 1],
                  h_samples := sat_inc (h_samples h)\<rparr>)"
proof -
  have l: "length (h_counts h) = 300" using assms(1) by (simp add: hist_inv_def BINS_def)
  have "uint (h_samples h) \<le> 65535 * 300"
    using assms(1) counts_bound [of "h_counts h"] l by (simp add: hist_inv_def)
  moreover have "uint (- 1 :: u32) = 4294967295" by code_simp
  ultimately have "h_samples h \<noteq> - 1" by auto
  then have s: "uint (sat_inc (h_samples h)) = uint (h_samples h) + 1"
    by (simp add: sat_inc_def uint_plus_one)
  have "sum_list (map uint ((h_counts h)[b := h_counts h ! b + 1])) = sum_list (map uint (h_counts h)) + 1"
    using sum_list_update_add [of b "map uint (h_counts h)" "uint (h_counts h ! b) + 1"] assms l
    by (simp add: map_update uint_plus_one BINS_def)
  with s l assms(1) show ?thesis by (simp add: hist_inv_def BINS_def)
qed

lemma in_bins_index:
  assumes "in_bins b"
  shows "is_fin b" "0 \<le> units b" "units b < 300 * unit1"
    "f32_as_uint (2 ^ 32 - 1) b = units b div unit1" "units b div unit1 < 300"
proof -
  have c: "is_fin 0" "units 0 = 0" "is_fin (f32_of_int 300)" "units (f32_of_int 300) = 300 * unit1"
    by code_simp+
  have b: "0 \<le> b" "b < f32_of_int 300" using assms by (simp_all add: in_bins_def BINS_def)
  show f: "is_fin b" using fin_between [OF c(1,3) b(1) f32_less_imp_le [OF b(2)]] .
  show u: "0 \<le> units b" "units b < 300 * unit1"
    using le_units [OF c(1) f] less_units [OF f c(3)] b c by simp_all
  have "units b div unit1 \<le> (300 * unit1 - 1) div unit1" using u(2) by (intro zdiv_mono1) auto
  moreover have "(300 * unit1 - 1) div unit1 = 299" by code_simp
  ultimately show d: "units b div unit1 < 300" by simp
  show "f32_as_uint (2 ^ 32 - 1) b = units b div unit1"
    using as_uint_fin [OF f u(1)] d by simp
qed

lemma add_sample_cases:
  assumes "add_sample h r s c n = (h', out)"
  obtains (same) "h' = h" "out \<noteq> Accepted"
  | (hit) b where "b = nat (units (bin_of r s) div unit1)" "b < BINS" "in_bins (bin_of r s)"
      "h_counts h ! b \<noteq> - 1" "out = Accepted"
      "h' = h\<lparr>h_counts := (h_counts h)[b := h_counts h ! b + 1], h_samples := sat_inc (h_samples h)\<rparr>"
      "\<not> c" "\<not> n" "\<not> r < LEARN_MIN_RPM" "\<not> s < LEARN_MIN_SPEED"
proof (cases "out = Accepted")
  case True
  then have i: "in_bins (bin_of r s)"
    using assms by (auto simp: add_sample_def Let_def split: if_splits)
  note ix = in_bins_index [OF i]
  show ?thesis
  proof (rule hit)
    show "nat (units (bin_of r s) div unit1) < BINS" using ix(5) by (simp add: BINS_def)
    show "h_counts h ! nat (units (bin_of r s) div unit1) \<noteq> - 1"
      "h' = h\<lparr>h_counts := (h_counts h)[nat (units (bin_of r s) div unit1) :=
          h_counts h ! nat (units (bin_of r s) div unit1) + 1], h_samples := sat_inc (h_samples h)\<rparr>"
      "\<not> c" "\<not> n" "\<not> r < LEARN_MIN_RPM" "\<not> s < LEARN_MIN_SPEED"
      using assms True by (auto simp: add_sample_def Let_def ix(4) [simplified] split: if_splits)
  qed (use i True in auto)
next
  case False
  then show ?thesis using assms same by (auto simp: add_sample_def Let_def split: if_splits)
qed

lemma hist_inv_new [inv_intros]: "hist_inv new_hist"
  by (simp add: hist_inv_def new_hist_def BINS_def sum_list_replicate)

lemma hist_inv_step [inv_intros]: "hist_inv h \<Longrightarrow> hist_inv (hist_step h e)"
proof (cases e)
  case (AddSample r s c n)
  assume h: "hist_inv h"
  obtain h' out where a: "add_sample h r s c n = (h', out)" by fastforce
  show ?thesis using add_sample_cases [OF a] bump_inv [OF h] h AddSample a by fastforce
next
  case Mark
  assume h: "hist_inv h"
  show ?thesis
  proof -
    have "(5 :: u16) \<le> - 1" by code_simp
    then have "\<not> 5 \<le> h_counts h ! 0 \<Longrightarrow> h_counts h ! 0 \<noteq> - 1" by metis
    then show ?thesis
      using bump_inv [OF h, of 0] h Mark by (simp add: debug_mark_def BINS_def)
  qed
next
  case ClearHist
  then show ?thesis by (simp add: clear_hist_def hist_inv_def BINS_def sum_list_replicate)
qed

interpretation hist_m: machine new_hist hist_step "\<lambda>_. True" hist_inv
  by unfold_locales (auto intro: inv_intros)

section \<open>The blob is a fixed-length codec\<close>

lemma u16_chunks_concat: "u16_chunks (concat (map u16_le ws)) = ws"
  by (induction ws) (simp_all add: u16_le_def)

lemma chunks_concat: "even (length bs) \<Longrightarrow> concat (map u16_le (u16_chunks bs)) = bs
    \<and> length (u16_chunks bs) = length bs div 2"
  by (induction bs rule: u16_chunks.induct) auto

lemma concat_u16_len [simp]: "length (concat (map u16_le ws)) = 2 * length ws"
  by (rule concat_len_const) simp

lemma split4: "4 \<le> length bs \<Longrightarrow> [bs ! 0, bs ! 1, bs ! 2, bs ! 3] @ drop 4 bs = bs"
  by (auto simp: numeral_eq_Suc Suc_le_length_iff)

interpretation hist_blob: fixed_codec to_blob from_blob "\<lambda>h. length (h_counts h) = BINS" BLOB_LEN
proof
  fix h :: ratio_histogram and bs :: "u8 list"
  show "from_blob (to_blob h) = Some h" if "length (h_counts h) = BINS"
  proof -
    have "length (to_blob h) = BLOB_LEN" using that by (simp add: to_blob_def BLOB_LEN_def)
    moreover have "u32_of_le (to_blob h ! 0) (to_blob h ! 1) (to_blob h ! 2) (to_blob h ! 3) = h_samples h"
      by (simp add: to_blob_def u32_le_def)
    ultimately show ?thesis by (simp add: from_blob_def to_blob_def u16_chunks_concat)
  qed
  show "length (to_blob h) = BLOB_LEN" if "length (h_counts h) = BINS"
    using that by (simp add: to_blob_def BLOB_LEN_def)
  show "length bs = BLOB_LEN" if "from_blob bs = Some h"
    using that by (simp add: from_blob_def split: if_splits)
  show "length (h_counts h) = BINS" if "from_blob bs = Some h"
    using that chunks_concat [of "drop 4 bs"]
    by (auto simp: from_blob_def BLOB_LEN_def BINS_def split: if_splits)
  show "\<exists>h. from_blob bs = Some h \<and> to_blob h = bs" if "length bs = BLOB_LEN"
  proof -
    have l: "length bs = 604" using that by (simp add: BLOB_LEN_def BINS_def)
    then have "[bs ! 0, bs ! 1, bs ! 2, bs ! 3] @ drop 4 bs = bs" by (intro split4) simp
    moreover have "concat (map u16_le (u16_chunks (drop 4 bs))) = drop 4 bs"
      using l chunks_concat [of "drop 4 bs"] by simp
    ultimately show ?thesis using that by (simp add: from_blob_def to_blob_def)
  qed
qed

section \<open>The peak selection\<close>

abbreviation stronger :: "f32 \<times> u32 \<Rightarrow> f32 \<times> u32 \<Rightarrow> bool" where
  "stronger a b \<equiv> snd b \<le> snd a"

abbreviation clear_of :: "f32 \<times> u32 \<Rightarrow> f32 \<times> u32 \<Rightarrow> bool" where
  "clear_of a b \<equiv> far (fst b) (fst a)"

lemma accept_far:
  "sorted_wrt clear_of acc \<Longrightarrow> sorted_wrt clear_of (accept_peaks acc ps)"
  by (induction acc ps rule: accept_peaks.induct)
    (auto simp: sorted_wrt_append list_all_iff case_prod_beta)

lemma accept_sorted:
  "sorted_wrt stronger (acc @ ps) \<Longrightarrow> sorted_wrt stronger (accept_peaks acc ps)"
  by (induction acc ps rule: accept_peaks.induct) (auto simp: sorted_wrt_append)

lemma accept_set: "set acc \<subseteq> set (accept_peaks acc ps) \<and> set (accept_peaks acc ps) \<subseteq> set acc \<union> set ps"
  by (induction acc ps rule: accept_peaks.induct) auto

lemma accept_complete:
  assumes "sorted_wrt stronger (acc @ ps)" "p \<in> set ps" "p \<notin> set (accept_peaks acc ps)"
  shows "\<exists>a\<in>set (accept_peaks acc ps). \<not> clear_of a p \<and> stronger a p"
  using assms
proof (induction acc ps rule: accept_peaks.induct)
  case (2 acc r m ps)
  let ?acc = "if list_all (\<lambda>(ar, _). far r ar) acc then acc @ [(r, m)] else acc"
  have s: "sorted_wrt stronger (?acc @ ps)" using 2(2) by (auto simp: sorted_wrt_append)
  show ?case
  proof (cases "p = (r, m)")
    case True
    then have "\<not> list_all (\<lambda>(ar, _). far r ar) acc"
      using 2(4) accept_set [of ?acc ps] by (auto split: if_splits)
    then obtain a where "a \<in> set acc" "\<not> far r (fst a)" by (auto simp: list_all_iff)
    moreover from this have "stronger a p" using 2(2) True by (auto simp: sorted_wrt_append)
    moreover have "a \<in> set (accept_peaks acc ((r, m) # ps))"
      using accept_set [of acc "(r, m) # ps"] \<open>a \<in> set acc\<close> by blast
    ultimately show ?thesis using True by auto
  next
    case False
    with 2(1) [OF s] 2(3,4) show ?thesis by simp
  qed
qed simp

lemma sorted_raw: "sorted_wrt stronger (sort_key (\<lambda>p. - uint (snd p)) (ps :: (f32 \<times> u32) list))"
proof -
  have "sorted (map (\<lambda>p. - uint (snd p)) (sort_key (\<lambda>p. - uint (snd p)) ps))" by simp
  then show ?thesis by (simp add: sorted_map word_le_def)
qed

lemma peaks_sorted: "sorted_wrt stronger (peaks h)"
  unfolding peaks_def by (rule accept_sorted) (simp add: sorted_raw)

lemma peaks_far: "sorted_wrt clear_of (peaks h)"
  unfolding peaks_def by (rule accept_far) simp

lemma peak_raw: "p \<in> set (peaks h) \<Longrightarrow>
    \<exists>i. 0 \<le> i \<and> i < int BINS \<and> is_peak h i \<and> p = (centroid h i, mass_at h i)"
  using accept_set [of "[]" "sort_key (\<lambda>p. - uint (snd p)) (raw_peaks h)"]
  by (auto simp: peaks_def raw_peaks_def)

lemma peak_mass: "p \<in> set (peaks h) \<Longrightarrow> MIN_PEAK_MASS \<le> snd p"
  using peak_raw [of p h] by (auto simp: is_peak_def)

section \<open>No panic on the factory bands\<close>

lemma h_at_bound: "uint (h_at h j) \<le> 65535"
proof -
  have "uint (x :: u16) \<le> 65535" for x using uint_lt2p [of x] by simp
  then show ?thesis by (simp add: h_at_def uint_up_ucast is_up)
qed

lemma mass_bound: "uint (mass_at h i) = uint (h_at h (i - 1)) + uint (h_at h i) + uint (h_at h (i + 1))"
  using h_at_bound [of h "i - 1"] h_at_bound [of h i] h_at_bound [of h "i + 1"]
  by (simp add: mass_at_def uint_word_ariths)

lemma centroid_bounded:
  assumes "0 \<le> i" "i < int BINS" "is_peak h i"
  shows "bounded 178 (centroid h i)"
proof -
  let ?m = "uint (mass_at h i)"
  have m: "15 \<le> ?m" "?m \<le> 2 ^ 24"
    using assms(3) mass_bound [of h i] h_at_bound [of h "i - 1"] h_at_bound [of h i] h_at_bound [of h "i + 1"]
    by (simp_all add: is_peak_def MIN_PEAK_MASS_def word_le_def)
  have t: "bounded 174 (f32_of_int (uint (h_at h j)) * f32_of_int j)" if "\<bar>j\<bar> \<le> 300" for j
  proof (rule times_bounded)
    show "bounded (16 + 149) (f32_of_int (uint (h_at h j)))"
      using h_at_bound [of h j] by (intro of_int_bounded) auto
    show "bounded (9 + 149) (f32_of_int j)" using that by (intro of_int_bounded) auto
  qed simp_all
  have "is_fin (f32_of_int ?m)" "unit1 \<le> \<bar>units (f32_of_int ?m)\<bar>"
    using f32_of_int_exact [of ?m] m by (simp_all add: unit1_def)
  moreover have "bounded 176 (f32_of_int (uint (h_at h (i - 1))) * f32_of_int (i - 1)
      + f32_of_int (uint (h_at h i)) * f32_of_int i
      + f32_of_int (uint (h_at h (i + 1))) * f32_of_int (i + 1))"
    using assms(1,2) plus_bounded [OF plus_bounded [OF t t] bounded_mono [OF t]] by (simp add: BINS_def)
  ultimately have q: "bounded 176 ((f32_of_int (uint (h_at h (i - 1))) * f32_of_int (i - 1)
      + f32_of_int (uint (h_at h i)) * f32_of_int i
      + f32_of_int (uint (h_at h (i + 1))) * f32_of_int (i + 1)) / f32_of_int ?m)"
    by (intro divide_bounded) auto
  have "bounded 176 RATIO_MIN" "bounded 177 (dec 5 1)" by code_simp+
  then show ?thesis
    using plus_bounded [OF plus_bounded [OF _ q]] by (simp add: centroid_def Let_def)
qed

definition good_ref :: "f32 \<Rightarrow> bool" where
  "good_ref c \<longleftrightarrow> bounded 178 c \<and> unit1 \<le> \<bar>units c\<bar>"

lemma rel_err_not_nan: "bounded 178 r \<Longrightarrow> good_ref c \<Longrightarrow> \<not> is_nan (\<bar>r - c\<bar> / c)"
proof -
  assume "bounded 178 r" "good_ref c"
  then have "bounded 179 (r - c)" "is_fin c" "unit1 \<le> \<bar>units c\<bar>"
    using minus_bounded [of 178 r c] by (auto simp: good_ref_def bounded_fin)
  then have "bounded 179 \<bar>r - c\<bar>" by (simp add: bounded_def units_mag)
  then show ?thesis using divide_bounded [of 179 "\<bar>r - c\<bar>" c] \<open>is_fin c\<close> \<open>unit1 \<le> _\<close> by simp
qed

lemma nearest_ref_total:
  "bounded 178 r \<Longrightarrow> list_all good_ref cs \<Longrightarrow> \<not> is_nan (snd best) \<Longrightarrow> \<exists>x. nearest_ref r cs i best = Some x"
  by (induction r cs i best rule: nearest_ref.induct) (auto simp: Let_def rel_err_not_nan)

lemma anchor_total:
  "bounded 178 r \<Longrightarrow> list_all good_ref refs \<Longrightarrow> refs \<noteq> [] \<Longrightarrow> \<exists>s e. anchor refs r = Some (s, e)"
  using nearest_ref_total [of r "tl refs"] rel_err_not_nan [of r "hd refs"]
  by (cases refs) (auto simp: anchor_def)

lemma factory_good: "list_all good_ref FACTORY_BANDS" "length FACTORY_BANDS = NUM_GEARS" "FACTORY_BANDS \<noteq> []"
  by code_simp+

section \<open>The nearest reference\<close>

text \<open>The best of a prefix: its own error, and no smaller one before it.\<close>

definition best_ref :: "f32 \<Rightarrow> f32 list \<Rightarrow> nat \<times> f32 \<Rightarrow> bool" where
  "best_ref r cs b \<longleftrightarrow> fst b < length cs \<and> snd b = rel_err r (cs ! fst b)
     \<and> (\<forall>j<length cs. \<not> rel_err r (cs ! j) < snd b)"

lemma best_ref_snoc:
  assumes "best_ref r cs b" "\<not> is_nan (rel_err r c)" "\<not> is_nan (snd b)"
  shows "best_ref r (cs @ [c]) (if rel_err r c < snd b then (length cs, rel_err r c) else b)"
  using assms
  by (auto simp: best_ref_def nth_append less_Suc_eq intro: f32_less_le_trans
      dest: f32_le_less_trans [OF f32_less_imp_le] split: if_splits)

lemma nearest_ref_spec:
  assumes "best_ref r pre best" "nearest_ref r cs (length pre) best = Some x"
  shows "best_ref r (pre @ cs) x"
  using assms
proof (induction cs arbitrary: pre best)
  case (Cons c cs)
  let ?b = "if rel_err r c < snd best then (length pre, rel_err r c) else best"
  have n: "\<not> is_nan (rel_err r c)" "\<not> is_nan (snd best)"
    "nearest_ref r cs (length (pre @ [c])) ?b = Some x"
    using Cons.prems(2) by (auto simp: Let_def rel_err_def split: if_splits)
  from Cons.IH [OF best_ref_snoc [OF Cons.prems(1) n(1,2)] n(3)] show ?case by simp
qed simp

lemma anchor_spec: "anchor refs r = Some x \<Longrightarrow> best_ref r refs x"
  using nearest_ref_spec [of r "[hd refs]" "(0, rel_err r (hd refs))" "tl refs" x]
  by (cases refs) (auto simp: anchor_def best_ref_def rel_err_def)

section \<open>The refinement of the bands\<close>

text \<open>The reference: a gear takes the ratio of the first peak anchored at it.\<close>

definition anchored :: "f32 list \<Rightarrow> nat \<Rightarrow> f32 \<times> u32 \<Rightarrow> bool" where
  "anchored refs slot p \<longleftrightarrow>
     (case anchor refs (fst p) of Some (s, err) \<Rightarrow> s = slot \<and> \<not> ANCHOR_TOL < err | None \<Rightarrow> False)"

definition learned_ratio :: "f32 list \<Rightarrow> (f32 \<times> u32) list \<Rightarrow> nat \<Rightarrow> f32" where
  "learned_ratio refs ps slot =
     (case find (anchored refs slot) ps of Some p \<Rightarrow> fst p | None \<Rightarrow> refs ! slot)"

definition learned_gears :: "f32 list \<Rightarrow> (f32 \<times> u32) list \<Rightarrow> nat list" where
  "learned_gears refs ps = filter (\<lambda>s. list_ex (anchored refs s) ps) [0..<length refs]"

definition bands_spec :: "f32 list \<Rightarrow> (f32 \<times> u32) list \<Rightarrow> (f32 list \<times> nat) option" where
  "bands_spec refs ps =
     (let n = length (learned_gears refs ps) in
      if n < MIN_PEAKS then None else Some (map (learned_ratio refs ps) [0..<length refs], n))"

definition matched_mass :: "f32 list \<Rightarrow> (f32 \<times> u32) list \<Rightarrow> nat \<Rightarrow> u32" where
  "matched_mass refs ps slot = (case find (anchored refs slot) ps of Some p \<Rightarrow> snd p | None \<Rightarrow> 0)"

definition refine_state :: "f32 list \<Rightarrow> (f32 \<times> u32) list \<Rightarrow> f32 list \<times> u32 list \<times> nat" where
  "refine_state refs qs = (map (learned_ratio refs qs) [0..<length refs],
     map (matched_mass refs qs) [0..<length refs], length (learned_gears refs qs))"

text \<open>One iteration of the loop, on a peak no stronger than those before it.\<close>

lemma refine_step:
  assumes a: "anchor refs r = Some (slot, err)" and m: "0 < m"
    and s: "\<And>q. q \<in> set qs \<Longrightarrow> m \<le> snd q"
  shows "(let (bs, matched, learned) = refine_state refs qs in
      if ANCHOR_TOL < err then (bs, matched, learned)
      else if matched ! slot < m
        then (bs[slot := r], matched[slot := m], if matched ! slot = 0 then Suc learned else learned)
        else (bs, matched, learned)) = refine_state refs (qs @ [(r, m)])"
proof -
  have slot: "slot < length refs" using anchor_spec [OF a] by (simp add: best_ref_def)
  have anc: "anchored refs j (r, m) \<longleftrightarrow> j = slot \<and> \<not> ANCHOR_TOL < err" for j
    by (auto simp: anchored_def a)
  show ?thesis
  proof (cases "ANCHOR_TOL < err \<or> list_ex (anchored refs slot) qs")
    case True
    then have old: "find (anchored refs j) (qs @ [(r, m)]) = find (anchored refs j) qs" for j
      using find_ex [of "anchored refs slot" qs] by (auto simp: find_snoc anc split: option.split)
    have "learned_gears refs (qs @ [(r, m)]) = learned_gears refs qs"
      using old find_ex unfolding learned_gears_def by metis
    then have st: "refine_state refs (qs @ [(r, m)]) = refine_state refs qs"
      by (simp add: refine_state_def learned_ratio_def [abs_def] matched_mass_def [abs_def] old)
    have "\<not> matched_mass refs qs slot < m" if "\<not> ANCHOR_TOL < err"
    proof -
      from True that find_ex [of "anchored refs slot" qs] obtain q
        where q: "find (anchored refs slot) qs = Some q" by auto
      then have "q \<in> set qs" by (auto simp: find_Some_iff)
      then show ?thesis using s q by (simp add: matched_mass_def not_less)
    qed
    then show ?thesis using slot by (simp add: st) (simp add: refine_state_def)
  next
    case False
    then have none: "find (anchored refs slot) qs = None" by (simp add: find_ex)
    have other: "find (anchored refs j) (qs @ [(r, m)])
        = (if j = slot then Some (r, m) else find (anchored refs j) qs)" for j
      using False none by (auto simp: find_snoc anc split: option.split)
    have lg: "length (learned_gears refs (qs @ [(r, m)])) = Suc (length (learned_gears refs qs))"
      using filter_upt_insert [OF slot, of "\<lambda>s. list_ex (anchored refs s) qs"] False
      by (simp add: learned_gears_def anc)
    have "(map (learned_ratio refs qs) [0..<length refs])[slot := r]
        = map (learned_ratio refs (qs @ [(r, m)])) [0..<length refs]"
      using map_update_one [OF slot, of "learned_ratio refs (qs @ [(r, m)])" "learned_ratio refs qs"]
      by (simp add: learned_ratio_def other)
    moreover have "(map (matched_mass refs qs) [0..<length refs])[slot := m]
        = map (matched_mass refs (qs @ [(r, m)])) [0..<length refs]"
      using map_update_one [OF slot, of "matched_mass refs (qs @ [(r, m)])" "matched_mass refs qs"]
      by (simp add: matched_mass_def other)
    moreover have "matched_mass refs qs slot = 0" by (simp add: matched_mass_def none)
    ultimately show ?thesis using False slot m lg by (simp add: refine_state_def)
  qed
qed

lemma refine_spec:
  assumes "sorted_wrt stronger (qs @ ps)" "\<And>p. p \<in> set ps \<Longrightarrow> 0 < snd p"
    "\<And>p. p \<in> set ps \<Longrightarrow> \<exists>s e. anchor refs (fst p) = Some (s, e)"
  shows "refine refs ps (refine_state refs qs) = Some (refine_state refs (qs @ ps))"
  using assms
proof (induction ps arbitrary: qs)
  case (Cons p ps)
  obtain r m where p: "p = (r, m)" by fastforce
  from Cons.prems(3) [of p] p obtain s e where a: "anchor refs r = Some (s, e)" by auto
  have pos: "0 < m" and weak: "\<And>q. q \<in> set qs \<Longrightarrow> m \<le> snd q"
    using Cons.prems(1) Cons.prems(2) [of p] p by (auto simp: sorted_wrt_append)
  note st = refine_step [of refs r s e m qs, OF a pos weak]
  obtain bs matched learned where q: "refine_state refs qs = (bs, matched, learned)"
    by (cases "refine_state refs qs")
  have "refine refs (p # ps) (refine_state refs qs) = refine refs ps (refine_state refs (qs @ [(r, m)]))"
    using st by (simp add: p a q)
  also have "\<dots> = Some (refine_state refs ((qs @ [(r, m)]) @ ps))"
    using Cons.prems by (intro Cons.IH) (auto simp: p sorted_wrt_append)
  finally show ?case by (simp add: p)
qed simp

lemma refine_state_Nil: "refine_state refs [] = (refs, replicate (length refs) 0, 0)"
  by (simp add: refine_state_def learned_ratio_def [abs_def] matched_mass_def [abs_def]
      learned_gears_def map_nth map_replicate_const)

lemma mass_pos: "MIN_PEAK_MASS \<le> m \<Longrightarrow> 0 < m"
  by (simp add: MIN_PEAK_MASS_def word_le_def word_less_def)

lemma derive_spec:
  assumes "list_all good_ref refs" "length refs = NUM_GEARS"
  shows "derive_bands h refs = Some (bands_spec refs (peaks h))"
proof -
  have a: "\<exists>s e. anchor refs (fst p) = Some (s, e)" if "p \<in> set (peaks h)" for p
    using peak_raw [OF that] assms centroid_bounded
    by (intro anchor_total) (auto simp: NUM_GEARS_def)
  have "refine refs (peaks h) (refine_state refs []) = Some (refine_state refs ([] @ peaks h))"
    using peaks_sorted [of h] a mass_pos peak_mass by (intro refine_spec) auto
  then show ?thesis
    by (simp add: derive_bands_def refine_state_Nil assms(2) bands_spec_def)
      (simp add: refine_state_def Let_def assms(2))
qed

section \<open>Properties\<close>

text \<open>
  C16. Band derivation on the factory bands never panics and is the reference on every histogram:
  a gear with a peak anchored at it takes the strongest such peak, every other gear keeps its
  factory value, and there is a result exactly when at least two gears have one.
\<close>

theorem derive_bands_refines:
  "derive_bands h FACTORY_BANDS = Some (bands_spec FACTORY_BANDS (peaks h))"
  using factory_good by (intro derive_spec)

text \<open>
  A refined band stays with its gear: each of the six bands handed out is the factory
  value, or a detected peak whose nearest factory band is that gear's, within ten percent.
\<close>

lemma derived_band_stays_with_gear:
  assumes "derive_bands h FACTORY_BANDS = Some (Some (bs, n))" and "g < NUM_GEARS"
  shows "2 \<le> n \<and> n \<le> NUM_GEARS \<and> length bs = NUM_GEARS \<and>
    (bs ! g = FACTORY_BANDS ! g \<or>
     (\<exists>m. (bs ! g, m) \<in> set (peaks h) \<and> \<not> ANCHOR_TOL < rel_err (bs ! g) (FACTORY_BANDS ! g)
        \<and> (\<forall>j<NUM_GEARS. \<not> rel_err (bs ! g) (FACTORY_BANDS ! j) < rel_err (bs ! g) (FACTORY_BANDS ! g))))"
proof -
  note l = factory_good(2)
  have s: "bands_spec FACTORY_BANDS (peaks h) = Some (bs, n)"
    using assms(1) derive_spec [OF factory_good(1,2)] by simp
  then have n: "n = length (learned_gears FACTORY_BANDS (peaks h))" "2 \<le> n"
    and bs: "bs = map (learned_ratio FACTORY_BANDS (peaks h)) [0..<NUM_GEARS]"
    by (auto simp: bands_spec_def Let_def MIN_PEAKS_def l split: if_splits)
  have "n \<le> NUM_GEARS"
    unfolding n(1) learned_gears_def l using length_filter_le [of _ "[0..<NUM_GEARS]"] by simp
  moreover have "bs ! g = learned_ratio FACTORY_BANDS (peaks h) g" using assms(2) by (simp add: bs)
  moreover have "learned_ratio FACTORY_BANDS (peaks h) g = FACTORY_BANDS ! g \<or>
     (\<exists>p\<in>set (peaks h). learned_ratio FACTORY_BANDS (peaks h) g = fst p \<and> anchored FACTORY_BANDS g p)"
    by (cases "find (anchored FACTORY_BANDS g) (peaks h)") (auto simp: learned_ratio_def dest: find_mem)
  moreover have "\<not> ANCHOR_TOL < rel_err (fst p) (FACTORY_BANDS ! g)
      \<and> (\<forall>j<NUM_GEARS. \<not> rel_err (fst p) (FACTORY_BANDS ! j) < rel_err (fst p) (FACTORY_BANDS ! g))"
    if "anchored FACTORY_BANDS g p" for p
    using that anchor_spec [of FACTORY_BANDS "fst p"]
    by (auto simp: anchored_def best_ref_def l split: option.splits)
  moreover have "length bs = NUM_GEARS" by (simp add: bs)
  ultimately show ?thesis using n(2) by (metis prod.collapse)
qed

definition wit_hist :: ratio_histogram where
  "wit_hist = \<lparr>h_counts = (replicate BINS 0)[0 := 5, 40 := 30, 63 := 20], h_samples = 55\<rparr>"

lemma wit_h_at: "h_at wit_hist j = (if j = 0 then 5 else if j = 40 then 30 else if j = 63 then 20 else 0)"
  by (auto simp: h_at_def wit_hist_def BINS_def nth_list_update)

lemma wit_is_peak: "is_peak wit_hist i \<longleftrightarrow> i = 40 \<or> i = 63"
proof (cases "i \<in> set [- 1, 0, 1, 39, 40, 41, 62, 63, 64]")
  case True
  then show ?thesis
    by (auto simp: is_peak_def smooth_def mass_at_def wit_h_at MIN_PEAK_MASS_def)
next
  case False
  then have "smooth wit_hist i = 0" by (auto simp: smooth_def wit_h_at)
  then show ?thesis using False by (auto simp: is_peak_def)
qed

lemma wit_raw: "raw_peaks wit_hist = [(centroid wit_hist 40, 30), (centroid wit_hist 63, 20)]"
proof -
  have "[0..int BINS - 1] = [0..39] @ [40] @ [41..62] @ [63] @ [64..299]" by code_simp
  moreover have "filter (is_peak wit_hist) [0..39] = []" "filter (is_peak wit_hist) [41..62] = []"
    "filter (is_peak wit_hist) [64..299] = []"
    by (auto simp: filter_empty_conv wit_is_peak)
  ultimately show ?thesis
    by (simp only: raw_peaks_def filter_append) (simp add: wit_is_peak mass_at_def wit_h_at)
qed

definition wit_c40 :: f32 where
  "wit_c40 = RATIO_MIN + (0 * f32_of_int 39 + f32_of_int 30 * f32_of_int 40 + 0 * f32_of_int 41)
     / f32_of_int 30 + dec 5 1"

definition wit_c63 :: f32 where
  "wit_c63 = RATIO_MIN + (0 * f32_of_int 62 + f32_of_int 20 * f32_of_int 63 + 0 * f32_of_int 64)
     / f32_of_int 20 + dec 5 1"

lemma wit_centroids: "centroid wit_hist 40 = wit_c40" "centroid wit_hist 63 = wit_c63"
proof -
  have "f32_of_int 0 = 0" by code_simp
  then show "centroid wit_hist 40 = wit_c40" "centroid wit_hist 63 = wit_c63"
    by (simp_all add: centroid_def Let_def wit_h_at mass_at_def wit_c40_def wit_c63_def)
qed

lemma wit_peaks: "peaks wit_hist = [(wit_c40, 30), (wit_c63, 20)]"
proof -
  have "accept_peaks [] (sort_key (\<lambda>p. - uint (snd p)) [(wit_c40, 30 :: u32), (wit_c63, 20)])
      = [(wit_c40, 30), (wit_c63, 20)]"
    by code_simp
  then show ?thesis by (simp only: peaks_def wit_raw wit_centroids)
qed

definition wit_bands :: "f32 list" where
  "wit_bands = FACTORY_BANDS[5 := wit_c40, 3 := wit_c63]"

lemma wit_derived: "derive_bands wit_hist FACTORY_BANDS = Some (Some (wit_bands, 2))"
proof -
  have "refine FACTORY_BANDS [(wit_c40, 30), (wit_c63, 20)] (FACTORY_BANDS, replicate NUM_GEARS 0, 0)
      = Some (wit_bands, [0, 0, 0, 20, 0, 30], 2)"
    by code_simp
  then show ?thesis by (simp add: derive_bands_def wit_peaks MIN_PEAKS_def)
qed

lemma derived_band_stays_with_gear_witness:
  "derive_bands wit_hist FACTORY_BANDS = Some (Some (wit_bands, 2)) \<and> length wit_bands = NUM_GEARS
   \<and> (wit_bands ! 3 = FACTORY_BANDS ! 3 \<or> (\<exists>m. (wit_bands ! 3, m) \<in> set (peaks wit_hist)))"
proof -
  have g: "3 < NUM_GEARS" by code_simp
  show ?thesis using wit_derived derived_band_stays_with_gear [OF wit_derived g] by blast
qed

lemma peaks_characterised_facts:
  "sorted_wrt (\<lambda>a b. snd b \<le> snd a \<and> far (fst b) (fst a)) (peaks h)"
  "p \<in> set (peaks h) \<Longrightarrow> \<exists>i. 0 \<le> i \<and> i < int BINS \<and> is_peak h i \<and> p = (centroid h i, mass_at h i)"
  "0 \<le> i \<Longrightarrow> i < int BINS \<Longrightarrow> is_peak h i \<Longrightarrow>
     (\<exists>a\<in>set (peaks h). mass_at h i \<le> snd a
        \<and> (a = (centroid h i, mass_at h i) \<or> \<not> far (centroid h i) (fst a)))"
proof -
  have "sorted_wrt (\<lambda>a b. P a b \<and> Q a b) xs" if "sorted_wrt P xs" "sorted_wrt Q xs"
    for P Q :: "f32 \<times> u32 \<Rightarrow> f32 \<times> u32 \<Rightarrow> bool" and xs
    using that by (induction xs) auto
  then show "sorted_wrt (\<lambda>a b. snd b \<le> snd a \<and> far (fst b) (fst a)) (peaks h)"
    using peaks_sorted [of h] peaks_far [of h] by blast
  show "p \<in> set (peaks h) \<Longrightarrow> \<exists>i. 0 \<le> i \<and> i < int BINS \<and> is_peak h i \<and> p = (centroid h i, mass_at h i)"
    by (rule peak_raw)
  let ?ps = "sort_key (\<lambda>p. - uint (snd p)) (raw_peaks h)"
  assume "0 \<le> i" "i < int BINS" "is_peak h i"
  then have "(centroid h i, mass_at h i) \<in> set ?ps" by (auto simp: raw_peaks_def)
  then show "\<exists>a\<in>set (peaks h). mass_at h i \<le> snd a
        \<and> (a = (centroid h i, mass_at h i) \<or> \<not> far (centroid h i) (fst a))"
  proof (cases "(centroid h i, mass_at h i) \<in> set (peaks h)")
    case True
    then show ?thesis by (intro bexI [of _ "(centroid h i, mass_at h i)"]) simp_all
  next
    case False
    with \<open>(centroid h i, mass_at h i) \<in> set ?ps\<close> show ?thesis
      using accept_complete [of "[]" ?ps "(centroid h i, mass_at h i)"] sorted_raw [of "raw_peaks h"]
      unfolding peaks_def append_Nil fst_conv snd_conv by blast
  qed
qed

text \<open>
  C31. The detected peaks: every one is a smoothed local maximum with at least 15 samples in
  its three bins; they come strongest first and pairwise separated; and every such maximum is
  either among them or too close to one at least as strong.
\<close>

theorem peaks_characterised:
  "sorted_wrt (\<lambda>a b. snd b \<le> snd a \<and> far (fst b) (fst a)) (peaks h)
   \<and> (\<forall>p\<in>set (peaks h). \<exists>i. 0 \<le> i \<and> i < int BINS \<and> is_peak h i \<and> p = (centroid h i, mass_at h i))
   \<and> (\<forall>i. 0 \<le> i \<and> i < int BINS \<and> is_peak h i \<longrightarrow>
        (\<exists>a\<in>set (peaks h). mass_at h i \<le> snd a
           \<and> (a = (centroid h i, mass_at h i) \<or> \<not> far (centroid h i) (fst a))))"
  using peaks_characterised_facts(1) [of h] peaks_characterised_facts(2) [of _ h]
    peaks_characterised_facts(3) [of _ h] by blast

theorem peaks_characterised_witness:
  "is_peak wit_hist 40 \<and> (\<exists>a\<in>set (peaks wit_hist). 30 \<le> snd a)"
proof -
  have h: "(0 :: int) \<le> 40" "40 < int BINS" "is_peak wit_hist 40" and m: "mass_at wit_hist 40 = 30"
    by code_simp+
  have "\<exists>a\<in>set (peaks wit_hist). mass_at wit_hist 40 \<le> snd a"
    using peaks_characterised [where h = wit_hist] h by blast
  then show ?thesis using h(3) unfolding m by blast
qed

text \<open>
  Sampling: an accepted sample came with the clutch out, in gear, at rpm and speed not
  below the floors; it increments exactly the bin whose unit interval above ratio 20 holds the
  quotient, which was not full; any other outcome leaves the histogram as it was.
\<close>

lemma accepted_sample_hits_its_bin:
  assumes "add_sample h r s clutch neutral = (h', out)"
  shows "(out \<noteq> Accepted \<longrightarrow> h' = h) \<and>
    (out = Accepted \<longrightarrow> \<not> clutch \<and> \<not> neutral \<and> \<not> r < LEARN_MIN_RPM \<and> \<not> s < LEARN_MIN_SPEED \<and>
      (\<exists>b<BINS. h_counts h' = (h_counts h)[b := h_counts h ! b + 1] \<and> h_counts h ! b \<noteq> - 1
         \<and> int b * unit1 \<le> units (r / s - RATIO_MIN)
         \<and> units (r / s - RATIO_MIN) < (int b + 1) * unit1))"
  using assms
proof (cases rule: add_sample_cases)
  case (hit b)
  let ?q = "r / s - RATIO_MIN"
  have f: "is_fin ?q"
  proof (rule ccontr)
    assume n: "\<not> is_fin ?q"
    then have "bin_of r s = ?q" by (simp add: bin_of_def f32_floor_def)
    with n in_bins_index(1) [OF hit(3)] show False by simp
  qed
  have u: "units (bin_of r s) div unit1 = units ?q div unit1" "0 \<le> units ?q div unit1"
    using floor_spec [OF f] in_bins_index(2) [OF hit(3)] unit1_pos(1)
    by (simp_all add: bin_of_def zero_le_mult_iff)
  have "units ?q div unit1 * unit1 \<le> units ?q" "units ?q < (units ?q div unit1 + 1) * unit1"
    using div_mult_mod_eq [of "units ?q" unit1] pos_mod_bound [OF unit1_pos(1), of "units ?q"]
      pos_mod_sign [OF unit1_pos(1), of "units ?q"]
    unfolding distrib_right mult_1 by linarith+
  moreover have "int b = units ?q div unit1" using hit(1) u by simp
  ultimately show ?thesis using hit by auto
qed simp

lemma accepted_sample_hits_its_bin_witness:
  "add_sample new_hist (f32_of_int 2410) (f32_of_int 20) False False
     = (\<lparr>h_counts = (replicate BINS 0)[100 := 1], h_samples = 1\<rparr>, Accepted)
   \<and> (\<exists>b<BINS. (replicate BINS (0 :: u16))[100 := 1] = (replicate BINS 0)[b := replicate BINS 0 ! b + 1]
       \<and> units (f32_of_int 2410 / f32_of_int 20 - RATIO_MIN) < (int b + 1) * unit1)"
proof -
  have h: "add_sample new_hist (f32_of_int 2410) (f32_of_int 20) False False
     = (\<lparr>h_counts = (replicate BINS 0)[100 := 1], h_samples = 1\<rparr>, Accepted)"
    by code_simp
  note a = accepted_sample_hits_its_bin [OF h]
  have "h_counts new_hist = replicate BINS 0" by (simp add: new_hist_def)
  with h a show ?thesis by auto
qed

text \<open>
  Whatever samples, markers and wipes the histogram goes through, it keeps its 300 bins
  and its sample count is exactly the sum of them: no counter ever wraps or saturates.
\<close>

lemma samples_count_the_bins:
  "length (h_counts (run hist_step new_hist evs)) = BINS
   \<and> uint (h_samples (run hist_step new_hist evs))
       = sum_list (map uint (h_counts (run hist_step new_hist evs)))"
  using hist_m.inv_run [of evs] by (simp add: hist_inv_def list_all_iff)

lemma hist_blob_roundtrip_facts:
  "length (h_counts h) = BINS \<Longrightarrow> from_blob (to_blob h) = Some h"
  "from_blob bs = Some h' \<Longrightarrow> to_blob h' = bs"
  "from_blob bs = None \<longleftrightarrow> length bs \<noteq> 604"
  using hist_blob.dec_enc hist_blob.enc_dec hist_blob.dec_None_iff
  by (simp_all add: BLOB_LEN_def BINS_def)

text \<open>
  The flash blob is 604 bytes and loses nothing: a histogram read back from its blob is
  itself, bytes that load are the blob of what they load to, and bytes fail to load exactly
  when their length differs.
\<close>

lemma hist_blob_roundtrip:
  "(length (h_counts h) = BINS \<longrightarrow> from_blob (to_blob h) = Some h)
   \<and> (from_blob bs = Some h' \<longrightarrow> to_blob h' = bs)
   \<and> (from_blob bs = None \<longleftrightarrow> length bs \<noteq> 604)"
  using hist_blob_roundtrip_facts(1) [of h] hist_blob_roundtrip_facts(2) [of bs h']
    hist_blob_roundtrip_facts(3) [of bs] by blast

lemma hist_blob_roundtrip_witness:
  "from_blob (to_blob wit_hist) = Some wit_hist"
proof -
  have h: "length (h_counts wit_hist) = BINS" by (simp add: wit_hist_def)
  then show ?thesis using hist_blob_roundtrip [where h = wit_hist] by blast
qed

lemma mark_low:
  assumes "h_counts h = c # replicate 299 0" "uint c \<le> 5"
  shows "\<exists>c'. h_counts (fst (debug_mark h)) = c' # replicate 299 0 \<and> uint c' \<le> 5"
proof (cases "5 \<le> c")
  case False
  then have "uint c < 5" by (simp add: word_le_def)
  moreover have "\<not> uint (- 1 :: u16) < 5" by code_simp
  ultimately have "uint c < 5" "c \<noteq> - 1" by metis+
  then have "uint (c + 1) \<le> 5" by (simp add: uint_plus_one)
  then show ?thesis using False assms(1) by (simp add: debug_mark_def)
qed (use assms in \<open>simp add: debug_mark_def\<close>)

lemma marks_low: "\<exists>c. h_counts (run hist_step new_hist (replicate n Mark)) = c # replicate 299 0 \<and> uint c \<le> 5"
proof (induction n)
  case 0
  have "replicate 300 (0 :: u16) = 0 # replicate 299 0" by (simp add: numeral_eq_Suc)
  then show ?case by (simp add: new_hist_def BINS_def)
next
  case (Suc n)
  have "replicate (Suc n) Mark = replicate n Mark @ [Mark]" by (simp add: replicate_append_same)
  then show ?case using Suc mark_low by (metis hist_step.simps(2) run_snoc)
qed

text \<open>
  The diagnostic marker cannot calibrate anything: however often it is bumped on an empty
  histogram, no peak is detected and no bands are derived.
\<close>

lemma marker_never_peaks:
  "peaks (run hist_step new_hist (replicate n Mark)) = []
   \<and> derive_bands (run hist_step new_hist (replicate n Mark)) FACTORY_BANDS = Some None"
proof -
  let ?h = "run hist_step new_hist (replicate n Mark)"
  obtain c where c: "h_counts ?h = c # replicate 299 0" "uint c \<le> 5" using marks_low by blast
  have h: "uint (h_at ?h j) \<le> (if j = 0 then 5 else 0)" for j
    using c(2) by (auto simp: h_at_def c(1) BINS_def nth_Cons' uint_up_ucast is_up)
  have "uint (mass_at ?h i) \<le> 5" for i
    using h [of "i - 1"] h [of i] h [of "i + 1"] by (auto simp: mass_bound split: if_splits)
  then have "\<not> 15 \<le> uint (mass_at ?h i)" for i
    using \<open>\<And>i. uint (mass_at ?h i) \<le> 5\<close> [of i] by linarith
  then have "\<not> is_peak ?h i" for i
    by (simp add: is_peak_def MIN_PEAK_MASS_def word_le_def)
  then have "peaks ?h = []" by (simp add: peaks_def raw_peaks_def)
  moreover from this have "derive_bands ?h FACTORY_BANDS = Some None"
    by (simp add: derive_bands_def MIN_PEAKS_def)
  ultimately show ?thesis by simp
qed

end
