(* ===== verification/Rust_Str.thy ===== *)
theory Rust_Str
  imports F32_Eval "HOL-Library.Sublist"
begin

text \<open>
  Rust's \<open>String\<close> and \<open>str\<close> as lists of 8-bit characters, the bytes of their UTF-8 encoding:
  validity, character boundaries, \<open>trim\<close>, \<open>split\<close>, integer parsing, and the \<open>Display\<close>
  formats of integers and floats used by the sources.
\<close>

section \<open>Bytes\<close>

abbreviation code :: "char \<Rightarrow> nat" where "code c \<equiv> of_char c"

definition bytes_of :: "string \<Rightarrow> u8 list" where
  "bytes_of s = map (\<lambda>c. of_nat (code c)) s"

definition str_of :: "u8 list \<Rightarrow> string" where
  "str_of bs = map (\<lambda>b. char_of (unat b)) bs"

lemma code_lt [simp]: "code c < 256"
  using nat_of_char_less_256 by blast

lemma unat_code [simp]: "unat (of_nat (code c) :: u8) = code c"
  by (simp add: unat_of_nat)

lemma str_of_bytes [simp]: "str_of (bytes_of s) = s"
  by (simp add: str_of_def bytes_of_def comp_def)

lemma unat_lt2p_8: "unat (b :: u8) < 256"
proof -
  have "unat b < 2 ^ LENGTH(8)" by (rule unsigned_less)
  then show ?thesis by simp
qed

lemma bytes_of_str [simp]: "bytes_of (str_of bs) = bs"
proof -
  have "unat (b :: u8) mod 256 = unat b" for b
    using unat_lt2p_8 [of b] by simp
  then show ?thesis by (simp add: str_of_def bytes_of_def comp_def)
qed

lemma length_bytes [simp]: "length (bytes_of s) = length s" "length (str_of bs) = length bs"
  by (simp_all add: bytes_of_def str_of_def)

section \<open>UTF-8\<close>

definition within :: "nat \<Rightarrow> nat \<Rightarrow> char \<Rightarrow> bool" where
  "within a b c \<longleftrightarrow> a \<le> code c \<and> code c \<le> b"

definition cont :: "char \<Rightarrow> bool" where "cont c = within 0x80 0xBF c"

definition second_of_3 :: "char \<Rightarrow> char \<Rightarrow> bool" where
  "second_of_3 a b = (if code a = 0xE0 then within 0xA0 0xBF b
     else if code a = 0xED then within 0x80 0x9F b else cont b)"

definition second_of_4 :: "char \<Rightarrow> char \<Rightarrow> bool" where
  "second_of_4 a b = (if code a = 0xF0 then within 0x90 0xBF b
     else if code a = 0xF4 then within 0x80 0x8F b else cont b)"

fun utf8_valid :: "string \<Rightarrow> bool" where
  "utf8_valid [] = True"
| "utf8_valid (a # s) =
     (if code a \<le> 0x7F then utf8_valid s
      else if within 0xC2 0xDF a then (case s of b # s' \<Rightarrow> cont b \<and> utf8_valid s' | _ \<Rightarrow> False)
      else if within 0xE0 0xEF a then
        (case s of b # c # s' \<Rightarrow> second_of_3 a b \<and> cont c \<and> utf8_valid s' | _ \<Rightarrow> False)
      else if within 0xF0 0xF4 a then
        (case s of b # c # d # s' \<Rightarrow> second_of_4 a b \<and> cont c \<and> cont d \<and> utf8_valid s' | _ \<Rightarrow> False)
      else False)"

definition from_utf8 :: "u8 list \<Rightarrow> string option" where
  "from_utf8 bs = (if utf8_valid (str_of bs) then Some (str_of bs) else None)"

text \<open>
  The length of the bad sequence at the head of a text that begins with no whole character;
  \<open>None\<close> for one that ends too early.
\<close>

fun bad_sequence :: "string \<Rightarrow> nat option" where
  "bad_sequence [] = None"
| "bad_sequence (a # s) =
     (if within 0xC2 0xDF a then (case s of [] \<Rightarrow> None | _ \<Rightarrow> Some 1)
      else if within 0xE0 0xEF a then
        (case s of [] \<Rightarrow> None | b # s' \<Rightarrow> if \<not> second_of_3 a b then Some 1
          else (case s' of [] \<Rightarrow> None | _ \<Rightarrow> Some 2))
      else if within 0xF0 0xF4 a then
        (case s of [] \<Rightarrow> None | b # s' \<Rightarrow> if \<not> second_of_4 a b then Some 1
          else (case s' of [] \<Rightarrow> None | c # s'' \<Rightarrow> if \<not> cont c then Some 2
            else (case s'' of [] \<Rightarrow> None | _ \<Rightarrow> Some 3)))
      else Some 1)"

text \<open>\<open>String::from_utf8_lossy\<close>: each bad sequence becomes the replacement character.\<close>

definition replacement :: string where "replacement = [CHR 0xEF, CHR 0xBF, CHR 0xBD]"

definition char_len :: "string \<Rightarrow> nat option" where
  "char_len s = find (\<lambda>n. n \<le> length s \<and> utf8_valid (take n s)) [1..<5]"

lemma char_len_Some: "char_len s = Some n \<Longrightarrow> 1 \<le> n \<and> n \<le> length s \<and> utf8_valid (take n s)"
  by (auto simp: char_len_def find_Some_iff less_Suc_eq numeral_eq_Suc nth_Cons' split: if_splits)

lemma bad_sequence_pos: "bad_sequence s = Some l \<Longrightarrow> 1 \<le> l"
  by (cases s) (auto split: if_splits list.splits)

function lossy :: "string \<Rightarrow> string" where
  "lossy s =
     (if s = [] then []
      else case char_len s of
        Some n \<Rightarrow> take n s @ lossy (drop n s)
      | None \<Rightarrow> replacement @ (case bad_sequence s of Some l \<Rightarrow> lossy (drop l s) | None \<Rightarrow> []))"
  by pat_completeness auto
termination by (relation "measure length") (auto dest!: char_len_Some bad_sequence_pos)

declare lossy.simps [simp del]

text \<open>\<open>str::is_char_boundary\<close>.\<close>

definition is_char_boundary :: "string \<Rightarrow> nat \<Rightarrow> bool" where
  "is_char_boundary s i \<longleftrightarrow> i = 0 \<or> i = length s \<or> (i < length s \<and> \<not> cont (s ! i))"

lemma second_cont: "second_of_3 a b \<Longrightarrow> cont b" "second_of_4 a b \<Longrightarrow> cont b"
  by (auto simp: second_of_3_def second_of_4_def cont_def within_def split: if_splits)

lemma lead_not_cont:
  "code a \<le> 0x7F \<Longrightarrow> \<not> cont a" "within 0xC2 0xDF a \<Longrightarrow> \<not> cont a"
  "within 0xE0 0xEF a \<Longrightarrow> \<not> cont a" "within 0xF0 0xF4 a \<Longrightarrow> \<not> cont a"
  by (auto simp: cont_def within_def)

lemma utf8_cons_cases:
  assumes "utf8_valid (a # s)"
  obtains xs s' where "a # s = a # xs @ s'" "length xs \<le> 3" "list_all cont xs" "\<not> cont a"
    "utf8_valid s'" "\<And>t. utf8_valid t \<Longrightarrow> utf8_valid (a # xs @ t)"
    "\<And>t. utf8_valid (a # xs @ t) \<Longrightarrow> utf8_valid t"
proof -
  consider "code a \<le> 0x7F"
    | "\<not> code a \<le> 0x7F" "within 0xC2 0xDF a"
    | "\<not> code a \<le> 0x7F" "\<not> within 0xC2 0xDF a" "within 0xE0 0xEF a"
    | "\<not> code a \<le> 0x7F" "\<not> within 0xC2 0xDF a" "\<not> within 0xE0 0xEF a" "within 0xF0 0xF4 a"
    using assms by (auto split: if_splits)
  then show thesis
  proof cases
    case 1
    show thesis
      by (rule that [of "[]" s]) (use 1 assms lead_not_cont(1) in auto)
  next
    case 2
    then obtain b s' where s: "s = b # s'" "cont b" "utf8_valid s'"
      using assms by (auto split: list.splits)
    show thesis
      by (rule that [of "[b]" s']) (use 2 s lead_not_cont(2) in auto)
  next
    case 3
    then obtain b c s' where s: "s = b # c # s'" "second_of_3 a b" "cont c" "utf8_valid s'"
      using assms by (auto split: list.splits)
    show thesis
      by (rule that [of "[b, c]" s']) (use 3 s lead_not_cont(3) second_cont(1) in auto)
  next
    case 4
    then obtain b c d s' where s: "s = b # c # d # s'" "second_of_4 a b" "cont c" "cont d" "utf8_valid s'"
      using assms by (auto split: list.splits)
    show thesis
      by (rule that [of "[b, c, d]" s']) (use 4 s lead_not_cont(4) second_cont(2) in auto)
  qed
qed

lemma list_all_nth: "list_all P xs \<Longrightarrow> i < length xs \<Longrightarrow> P (xs ! i)"
  by (simp add: list_all_length)

text \<open>Cutting valid UTF-8 at a boundary leaves valid UTF-8, and a boundary is never far.\<close>

lemma boundary_take: "utf8_valid s \<Longrightarrow> is_char_boundary s i \<Longrightarrow> utf8_valid (take i s)"
proof (induction s arbitrary: i rule: measure_induct_rule [of length])
  case (less s)
  show ?case
  proof (cases "s = [] \<or> i = 0")
    case False
    then obtain a s0 where s: "s = a # s0" by (cases s) auto
    from less.prems(1) s obtain xs s' where d: "s = a # xs @ s'" "length xs \<le> 3" "list_all cont xs"
      "utf8_valid s'" "\<And>t. utf8_valid t \<Longrightarrow> utf8_valid (a # xs @ t)"
      by (metis utf8_cons_cases)
    have i: "Suc (length xs) \<le> i"
    proof (rule ccontr)
      assume n: "\<not> Suc (length xs) \<le> i"
      then have "s ! i = xs ! (i - 1)" "i < length s" using False by (auto simp: d(1) nth_append nth_Cons')
      moreover have "cont (xs ! (i - 1))" using n False by (intro list_all_nth [OF d(3)]) auto
      ultimately show False using less.prems(2) False by (simp add: is_char_boundary_def)
    qed
    have "s ! i = s' ! (i - Suc (length xs))"
      using i nth_append_right [of "a # xs" i s'] by (simp add: d(1))
    then have "is_char_boundary s' (i - Suc (length xs))"
      using less.prems(2) i by (auto simp: is_char_boundary_def d(1))
    then have "utf8_valid (take (i - Suc (length xs)) s')"
      using less.IH [of s'] d by simp
    then have "utf8_valid (a # xs @ take (i - Suc (length xs)) s')" by (rule d(5))
    then show ?thesis using i by (simp add: d(1) take_Cons')
  qed auto
qed

lemma boundary_near: "utf8_valid s \<Longrightarrow> i \<le> length s \<Longrightarrow> \<exists>j\<le>i. i \<le> j + 3 \<and> is_char_boundary s j"
proof (induction s arbitrary: i rule: measure_induct_rule [of length])
  case (less s)
  show ?case
  proof (cases "i = 0")
    case True
    then show ?thesis by (auto simp: is_char_boundary_def)
  next
    case False
    then obtain a s0 where s: "s = a # s0" using less.prems(2) by (cases s) auto
    from less.prems(1) s obtain xs s' where d: "s = a # xs @ s'" "length xs \<le> 3" "utf8_valid s'"
      by (metis utf8_cons_cases)
    show ?thesis
    proof (cases "i \<le> length xs")
      case True
      then show ?thesis using d(2) by (intro exI [of _ 0]) (auto simp: is_char_boundary_def)
    next
      case False
      let ?k = "i - Suc (length xs)"
      have "?k \<le> length s'" "length s' < length s" using less.prems(2) by (auto simp: d(1))
      from less.IH [OF this(2) d(3) this(1)] obtain j
        where j: "j \<le> ?k" "?k \<le> j + 3" "is_char_boundary s' j" by blast
      show ?thesis
      proof (cases "j = 0")
        case True
        have "s' \<noteq> [] \<Longrightarrow> \<not> cont (s' ! 0)"
          using d(3) by (metis neq_Nil_conv nth_Cons_0 utf8_cons_cases)
        then show ?thesis using True j False
          by (intro exI [of _ "Suc (length xs)"]) (cases s', auto simp: is_char_boundary_def d(1) nth_append)
      next
        case False
        then show ?thesis using j \<open>\<not> i \<le> length xs\<close>
          by (intro exI [of _ "Suc (length xs) + j"]) (auto simp: is_char_boundary_def d(1) nth_append)
      qed
    qed
  qed
qed

lemma utf8_append: "utf8_valid s \<Longrightarrow> utf8_valid t \<Longrightarrow> utf8_valid (s @ t)"
proof (induction s rule: measure_induct_rule [of length])
  case (less s)
  show ?case
  proof (cases s)
    case (Cons a s0)
    with less.prems obtain xs s' where "s = a # xs @ s'" "utf8_valid s'"
      "\<And>t. utf8_valid t \<Longrightarrow> utf8_valid (a # xs @ t)"
      by (metis utf8_cons_cases)
    then show ?thesis using less.IH [of s'] less.prems(2) by (simp del: utf8_valid.simps)
  qed (use less in simp)
qed

text \<open>What follows a valid text in a valid text is valid.\<close>

lemma utf8_rest: "utf8_valid (x @ y) \<Longrightarrow> utf8_valid x \<Longrightarrow> utf8_valid y"
proof (induction x rule: measure_induct_rule [of length])
  case (less x)
  show ?case
  proof (cases x)
    case (Cons a x0)
    with less.prems(2) obtain xs x' where d: "x = a # xs @ x'" "utf8_valid x'"
      "\<And>t. utf8_valid (a # xs @ t) \<Longrightarrow> utf8_valid t" by (metis utf8_cons_cases)
    then show ?thesis using less.IH [of x'] less.prems(1) by simp
  qed (use less.prems in simp)
qed

lemma lossy_valid: "utf8_valid (lossy s)"
proof (induction s rule: lossy.induct)
  case (1 s)
  have "utf8_valid replacement" by code_simp
  then show ?case
  proof (cases "char_len s")
    case None
    then show ?thesis using 1(1) \<open>utf8_valid replacement\<close>
      by (subst lossy.simps) (auto intro: utf8_append split: option.split)
  next
    case (Some n)
    then show ?thesis using 1(2) char_len_Some [OF Some]
      by (cases "s = []") (auto simp: lossy.simps [of s] intro: utf8_append)
  qed
qed

lemma lossy_id: "utf8_valid s \<Longrightarrow> lossy s = s"
proof (induction s rule: lossy.induct)
  case (1 s)
  show ?case
  proof (cases s)
    case (Cons a s0)
    with 1(3) obtain xs s' where d: "s = a # xs @ s'" "length xs \<le> 3"
      "\<And>t. utf8_valid t \<Longrightarrow> utf8_valid (a # xs @ t)" by (metis utf8_cons_cases)
    from d(3) [of "[]"] have v: "utf8_valid (take (Suc (length xs)) s)" by (simp add: d(1))
    have "Suc (length xs) \<in> set [1..<5]" using d(2) by auto
    then have "char_len s \<noteq> None"
      using v unfolding char_len_def find_None_iff by (fastforce simp: d(1) simp del: utf8_valid.simps)
    then obtain n where n: "char_len s = Some n" by blast
    note k = char_len_Some [OF n]
    have "utf8_valid (drop n s)" using 1(3) k utf8_rest [of "take n s" "drop n s"] by simp
    then show ?thesis using 1(2) [OF _ n] n k Cons by (subst lossy.simps) simp
  qed (simp add: lossy.simps)
qed

lemma utf8_ascii: "list_all (\<lambda>c. code c \<le> 0x7F) s \<Longrightarrow> utf8_valid s"
  by (induction s) auto

section \<open>Splitting and trimming\<close>

fun split_on :: "(char \<Rightarrow> bool) \<Rightarrow> string \<Rightarrow> string list" where
  "split_on P [] = [[]]"
| "split_on P (c # s) = (if P c then [] # split_on P s
     else case split_on P s of x # xs \<Rightarrow> (c # x) # xs | [] \<Rightarrow> [[c]])"

lemma split_on_ne: "split_on P s \<noteq> []"
  by (induction s) (auto split: list.splits)

lemma hd_split_on: "hd (split_on P s) = takeWhile (\<lambda>c. \<not> P c) s"
  by (induction s) (use split_on_ne in \<open>auto split: list.splits\<close>)

lemma split_on_none: "list_all (\<lambda>c. \<not> P c) s \<Longrightarrow> split_on P s = [s]"
  by (induction s) auto

lemma split_on_sep: "list_all (\<lambda>c. \<not> P c) s \<Longrightarrow> P c \<Longrightarrow> split_on P (s @ c # t) = s # split_on P t"
  by (induction s) auto

text \<open>\<open>str::trim\<close>: the encodings of the characters with the Unicode property White_Space.\<close>

definition ws_chars :: "string list" where
  "ws_chars = [[CHR 0x09], [CHR 0x0A], [CHR 0x0B], [CHR 0x0C], [CHR 0x0D], [CHR 0x20],
     [CHR 0xC2, CHR 0x85], [CHR 0xC2, CHR 0xA0], [CHR 0xE1, CHR 0x9A, CHR 0x80],
     [CHR 0xE2, CHR 0x80, CHR 0x80], [CHR 0xE2, CHR 0x80, CHR 0x81],
     [CHR 0xE2, CHR 0x80, CHR 0x82], [CHR 0xE2, CHR 0x80, CHR 0x83],
     [CHR 0xE2, CHR 0x80, CHR 0x84], [CHR 0xE2, CHR 0x80, CHR 0x85],
     [CHR 0xE2, CHR 0x80, CHR 0x86], [CHR 0xE2, CHR 0x80, CHR 0x87],
     [CHR 0xE2, CHR 0x80, CHR 0x88], [CHR 0xE2, CHR 0x80, CHR 0x89],
     [CHR 0xE2, CHR 0x80, CHR 0x8A], [CHR 0xE2, CHR 0x80, CHR 0xA8],
     [CHR 0xE2, CHR 0x80, CHR 0xA9], [CHR 0xE2, CHR 0x80, CHR 0xAF],
     [CHR 0xE2, CHR 0x81, CHR 0x9F], [CHR 0xE3, CHR 0x80, CHR 0x80]]"

definition lead_len :: "string list \<Rightarrow> string \<Rightarrow> nat" where
  "lead_len ws s = (case find (\<lambda>w. prefix w s) ws of Some w \<Rightarrow> length w | None \<Rightarrow> 0)"

function strip :: "string list \<Rightarrow> string \<Rightarrow> string" where
  "strip ws s = (if lead_len ws s = 0 \<or> s = [] then s else strip ws (drop (lead_len ws s) s))"
  by pat_completeness auto
termination by (relation "measure (length \<circ> snd)") auto

declare strip.simps [simp del]

definition trim :: "string \<Rightarrow> string" where
  "trim s = rev (strip (map rev ws_chars) (rev (strip ws_chars s)))"

lemma lead_len_le: "lead_len ws s \<le> length s"
  by (auto simp: lead_len_def find_Some_iff dest: prefix_length_le split: option.splits)

lemma strip_suffix: "\<exists>k. strip ws s = drop k s"
proof (induction ws s rule: strip.induct)
  case (1 ws s)
  then show ?case by (subst strip.simps) (metis drop_drop drop_0)
qed

lemma lead_len_0:
  "(\<And>w. w \<in> set ws \<Longrightarrow> w \<noteq> [] \<Longrightarrow> hd w \<noteq> c) \<Longrightarrow> lead_len ws (c # s) = 0"
proof (cases "find (\<lambda>w. prefix w (c # s)) ws")
  case (Some w)
  assume h: "\<And>w. w \<in> set ws \<Longrightarrow> w \<noteq> [] \<Longrightarrow> hd w \<noteq> c"
  have "w \<in> set ws" "prefix w (c # s)" using find_mem [OF Some] by simp_all
  then have "w = []" using h [of w] by (metis append_is_Nil_conv hd_append2 list.sel(1) prefix_def)
  then show ?thesis using Some by (simp add: lead_len_def)
qed (simp add: lead_len_def)

lemma strip_id: "(\<And>w. w \<in> set ws \<Longrightarrow> w \<noteq> [] \<Longrightarrow> hd w \<noteq> c) \<Longrightarrow> strip ws (c # s) = c # s"
  by (subst strip.simps) (simp add: lead_len_0)

text \<open>A character in no whitespace encoding stops the stripping.\<close>

lemma strip_stops:
  assumes "\<And>w. w \<in> set ws \<Longrightarrow> c \<notin> set w"
  shows "\<exists>k. strip ws (u @ c # v) = drop k u @ c # v"
  using assms
proof (induction ws "u @ c # v" arbitrary: u rule: strip.induct)
  case (1 ws)
  let ?n = "lead_len ws (u @ c # v)"
  show ?case
  proof (cases "?n = 0")
    case True
    then show ?thesis by (subst strip.simps) (auto intro: exI [of _ 0])
  next
    case False
    then obtain w where w: "w \<in> set ws" "prefix w (u @ c # v)" "length w = ?n"
      by (auto simp: lead_len_def dest: find_mem split: option.splits)
    have n: "?n \<le> length u"
    proof (rule ccontr)
      assume "\<not> ?n \<le> length u"
      then have "w ! length u = c" using w(2,3) by (auto simp: prefix_def nth_append dest: arg_cong [where f = "\<lambda>s. s ! length u"])
      then show False using 1(2) [OF w(1)] w(3) \<open>\<not> ?n \<le> length u\<close> by (metis not_le nth_mem)
    qed
    from 1(1) [OF _ _ 1(2), of "drop ?n u"] False n
    obtain k where "strip ws (drop ?n (u @ c # v)) = drop k (drop ?n u) @ c # v" by auto
    then show ?thesis using False n by (subst strip.simps) (auto simp: intro!: exI [of _ "k + ?n"])
  qed
qed

section \<open>Integers\<close>

definition digit_char :: "nat \<Rightarrow> char" where "digit_char d = char_of (48 + d)"

definition digit_of :: "char \<Rightarrow> nat option" where
  "digit_of c = (if within 48 57 c then Some (code c - 48) else None)"

text \<open>\<open>Display\<close> of an integer.\<close>

fun show_nat :: "nat \<Rightarrow> string" where
  "show_nat n = (if n < 10 then [digit_char n] else show_nat (n div 10) @ [digit_char (n mod 10)])"

declare show_nat.simps [simp del]

definition show_int :: "int \<Rightarrow> string" where
  "show_int i = (if i < 0 then CHR ''-'' # show_nat (nat (- i)) else show_nat (nat i))"

definition show_bool :: "bool \<Rightarrow> string" where
  "show_bool b = (if b then ''true'' else ''false'')"

fun join :: "string \<Rightarrow> string list \<Rightarrow> string" where
  "join sep [] = []"
| "join sep [s] = s"
| "join sep (s # ss) = s @ sep @ join sep ss"

text \<open>\<open>str::parse::<u32>\<close>: an optional plus sign, digits, an error on overflow.\<close>

definition MAX_U32 :: int where "MAX_U32 = 2 ^ 32 - 1"

fun digits_val :: "int \<Rightarrow> string \<Rightarrow> int option" where
  "digits_val acc [] = Some acc"
| "digits_val acc (c # s) =
     (case digit_of c of None \<Rightarrow> None
      | Some d \<Rightarrow> if acc * 10 + int d \<le> MAX_U32 then digits_val (acc * 10 + int d) s else None)"

definition parse_u32 :: "string \<Rightarrow> int option" where
  "parse_u32 s =
     (let ds = (case s of c # s' \<Rightarrow> if c = CHR ''+'' \<and> s' \<noteq> [] then s' else s | [] \<Rightarrow> [])
      in if ds = [] then None else digits_val 0 ds)"

lemma digit_of_char [simp]: "d < 10 \<Longrightarrow> digit_of (digit_char d) = Some d"
  by (simp add: digit_of_def digit_char_def within_def)

lemma digit_char_within: "d < 10 \<Longrightarrow> within 48 57 (digit_char d)"
  by (simp add: digit_char_def within_def)

lemma show_nat_digits: "list_all (within 48 57) (show_nat n)"
proof (induction n rule: show_nat.induct)
  case (1 n)
  then show ?case by (subst show_nat.simps) (simp add: digit_char_within)
qed

lemma show_nat_ne [simp]: "show_nat n \<noteq> []"
  by (subst show_nat.simps) simp

lemma digits_val_snoc:
  "digits_val a (s @ [c]) = (case digits_val a s of None \<Rightarrow> None | Some v \<Rightarrow> digits_val v [c])"
  by (induction a s rule: digits_val.induct) (auto split: option.split)

lemma digits_val_show: "int n \<le> MAX_U32 \<Longrightarrow> digits_val 0 (show_nat n) = Some (int n)"
proof (induction n rule: show_nat.induct)
  case (1 n)
  show ?case
  proof (cases "n < 10")
    case True
    then show ?thesis using 1 by (subst show_nat.simps) simp
  next
    case False
    then have "digits_val 0 (show_nat (n div 10)) = Some (int (n div 10))" using 1 by simp
    moreover have "int (n div 10) * 10 + int (n mod 10) = int n" by presburger
    ultimately show ?thesis using False 1(2) by (subst show_nat.simps) (simp add: digits_val_snoc)
  qed
qed

lemma parse_show: "int n \<le> MAX_U32 \<Longrightarrow> parse_u32 (show_nat n) = Some (int n)"
proof -
  assume n: "int n \<le> MAX_U32"
  obtain c s where s: "show_nat n = c # s" by (cases "show_nat n") auto
  then have "within 48 57 c" using show_nat_digits [of n] by simp
  then have "c \<noteq> CHR ''+''" by (auto simp: within_def)
  then show ?thesis using digits_val_show [OF n] by (simp add: parse_u32_def s Let_def)
qed

lemma digits_val_bound: "digits_val a s = Some v \<Longrightarrow> a \<le> MAX_U32 \<Longrightarrow> v \<le> MAX_U32"
  by (induction a s rule: digits_val.induct) (auto split: option.splits if_splits)

lemma show_nat_length: "n < 10 ^ k \<Longrightarrow> 0 < k \<Longrightarrow> length (show_nat n) \<le> k"
proof (induction n arbitrary: k rule: show_nat.induct)
  case (1 n)
  show ?case
  proof (cases "n < 10")
    case False
    then have "k \<noteq> 1" using 1(2) by auto
    then have "n div 10 < 10 ^ (k - 1)" "0 < k - 1"
      using 1(2,3) by (cases k; auto simp: div_less_iff_less_mult mult.commute)+
    from 1(1) [OF False this] show ?thesis
      using False \<open>0 < k\<close> by (subst show_nat.simps) auto
  qed (use 1 in \<open>subst show_nat.simps, simp\<close>)
qed

section \<open>Hexadecimal digits\<close>

text \<open>\<open>char::to_digit(16)\<close> and the digits of \<open>{:x}\<close>.\<close>

definition hex_digit :: "char \<Rightarrow> nat option" where
  "hex_digit c = (if within 48 57 c then Some (code c - 48)
     else if within 97 102 c then Some (code c - 87)
     else if within 65 70 c then Some (code c - 55) else None)"

definition hex_char :: "nat \<Rightarrow> char" where
  "hex_char d = (if d < 10 then char_of (48 + d) else char_of (87 + d))"

lemma hex_digit_char: "d < 16 \<Longrightarrow> hex_digit (hex_char d) = Some d"
  by (auto simp: hex_digit_def hex_char_def within_def)

definition show_hex :: "nat \<Rightarrow> string" where
  "show_hex n = (if n < 16 then [hex_char n] else [hex_char (n div 16 mod 16), hex_char (n mod 16)])"

section \<open>Floats\<close>

text \<open>\<open>{:.p}\<close>: the exact value rounded to \<open>p\<close> decimals, ties to even.\<close>

definition pad_left :: "nat \<Rightarrow> string \<Rightarrow> string" where
  "pad_left n s = replicate (n - length s) (CHR ''0'') @ s"

definition fmt_f32 :: "nat \<Rightarrow> f32 \<Rightarrow> string" where
  "fmt_f32 p x =
     (let sgn = (if f32_neg x then ''-'' else []) in
      if is_nan x then ''NaN''
      else if is_inf x then sgn @ ''inf''
      else let q = nat (rhe (mag (f32_code x) * 10 ^ p) unit1) in
        sgn @ show_nat (q div 10 ^ p)
          @ (if p = 0 then [] else CHR ''.'' # pad_left p (show_nat (q mod 10 ^ p))))"

lemmas str_defs [model_defs] = bytes_of_def str_of_def within_def cont_def second_of_3_def
  second_of_4_def from_utf8_def is_char_boundary_def lead_len_def trim_def digit_char_def
  digit_of_def show_int_def show_bool_def MAX_U32_def parse_u32_def pad_left_def fmt_f32_def hex_digit_def hex_char_def show_hex_def

end
