(* ===== verification/Ble_Proto.thy ===== *)
theory Ble_Proto
  imports Learn Rust_Str
begin

text \<open>
  The binary formats of the BLE service, \<open>core/src/ble_proto.rs\<close>: attribute identifiers, the
  20-byte live packet, command writes, WiFi credentials, histogram pages.
\<close>

section \<open>Attributes\<close>

definition PROTOCOL_VERSION :: u8 where "PROTOCOL_VERSION = 1"
definition UUID_BASE :: "128 word" where "UUID_BASE = 0x8f6c0000b5a34b2e9d613b1c7a2e5f10"

definition uuid :: "u16 \<Rightarrow> 128 word" where
  "uuid slot = UUID_BASE OR push_bit 96 (ucast slot)"

definition DEVICE_NAME :: string where "DEVICE_NAME = ''W230-GEAR''"
definition SLOT_SERVICE :: u16 where "SLOT_SERVICE = 0x0001"
definition SLOT_LIVE :: u16 where "SLOT_LIVE = 0x0002"
definition SLOT_DEVICE_INFO :: u16 where "SLOT_DEVICE_INFO = 0x0003"
definition SLOT_BLACK_BOX :: u16 where "SLOT_BLACK_BOX = 0x0004"
definition SLOT_CALIBRATION :: u16 where "SLOT_CALIBRATION = 0x0005"
definition SLOT_HIST_0 :: u16 where "SLOT_HIST_0 = 0x0006"
definition SLOT_HIST_1 :: u16 where "SLOT_HIST_1 = 0x0007"
definition SLOT_EVENTS :: u16 where "SLOT_EVENTS = 0x0008"
definition SLOT_COMMAND :: u16 where "SLOT_COMMAND = 0x0009"
definition SLOT_WIFI_CONFIG :: u16 where "SLOT_WIFI_CONFIG = 0x000A"
definition SLOT_WIFI_STATUS :: u16 where "SLOT_WIFI_STATUS = 0x000B"
definition SLOT_OTA_STATUS :: u16 where "SLOT_OTA_STATUS = 0x000C"
definition SLOT_SETTINGS :: u16 where "SLOT_SETTINGS = 0x000D"

definition HIST_PAGE_BINS :: nat where "HIST_PAGE_BINS = BINS div 2"

lemmas ble_consts [model_defs] = PROTOCOL_VERSION_def UUID_BASE_def DEVICE_NAME_def SLOT_SERVICE_def
  SLOT_LIVE_def SLOT_DEVICE_INFO_def SLOT_BLACK_BOX_def SLOT_CALIBRATION_def SLOT_HIST_0_def
  SLOT_HIST_1_def SLOT_EVENTS_def SLOT_COMMAND_def SLOT_WIFI_CONFIG_def SLOT_WIFI_STATUS_def
  SLOT_OTA_STATUS_def SLOT_SETTINGS_def HIST_PAGE_BINS_def

section \<open>The live packet\<close>

definition GEAR_UNKNOWN :: u8 where "GEAR_UNKNOWN = 0"
definition GEAR_NEUTRAL :: u8 where "GEAR_NEUTRAL = 7"
definition FLAG_LINK_UP :: u8 where "FLAG_LINK_UP = push_bit 0 1"
definition FLAG_NEUTRAL_SWITCH :: u8 where "FLAG_NEUTRAL_SWITCH = push_bit 1 1"
definition FLAG_INTERLOCK_KNOWN :: u8 where "FLAG_INTERLOCK_KNOWN = push_bit 2 1"
definition FLAG_INTERLOCK_CLOSED :: u8 where "FLAG_INTERLOCK_CLOSED = push_bit 3 1"
definition FLAG_LEARN_FLASH :: u8 where "FLAG_LEARN_FLASH = push_bit 4 1"
definition FLAG_OTA_BUSY :: u8 where "FLAG_OTA_BUSY = push_bit 5 1"
definition FLAG_DEMO :: u8 where "FLAG_DEMO = push_bit 6 1"

lemmas flag_defs [model_defs] = FLAG_LINK_UP_def FLAG_NEUTRAL_SWITCH_def FLAG_INTERLOCK_KNOWN_def
  FLAG_INTERLOCK_CLOSED_def FLAG_LEARN_FLASH_def FLAG_OTA_BUSY_def FLAG_DEMO_def

record live_status =
  l_link_up :: bool
  l_neutral_switch :: bool
  l_interlock :: "bool option"
  l_learn_flash :: bool
  l_ota_busy :: bool
  l_demo :: bool
  l_gear :: gear
  l_brightness_idx :: u8
  l_rpm :: "f32 option"
  l_speed :: "f32 option"
  l_samples :: u32
  l_uptime_s :: u32

definition flag :: "bool \<Rightarrow> u8 \<Rightarrow> u8 \<Rightarrow> u8" where
  "flag b f flags = (if b then flags OR f else flags)"

definition live_flags :: "live_status \<Rightarrow> u8" where
  "live_flags l =
     (let f0 = flag (l_link_up l) FLAG_LINK_UP 0;
          f1 = flag (l_neutral_switch l) FLAG_NEUTRAL_SWITCH f0;
          f2 = (case l_interlock l of
                  Some closed \<Rightarrow> flag closed FLAG_INTERLOCK_CLOSED (f1 OR FLAG_INTERLOCK_KNOWN)
                | None \<Rightarrow> f1);
          f3 = flag (l_learn_flash l) FLAG_LEARN_FLASH f2;
          f4 = flag (l_ota_busy l) FLAG_OTA_BUSY f3
      in flag (l_demo l) FLAG_DEMO f4)"

definition gear_byte :: "gear \<Rightarrow> u8" where
  "gear_byte g = (case g of Unknown \<Rightarrow> GEAR_UNKNOWN | Neutral \<Rightarrow> GEAR_NEUTRAL | G n \<Rightarrow> min n 6)"

text \<open>\<open>unwrap_or(0.0).clamp(0.0, 65535.0).round() as u16\<close>; \<open>None\<close> would be the clamp's panic.\<close>

definition live_u16 :: "f32 option \<Rightarrow> u16 option" where
  "live_u16 x = map_option (\<lambda>c. word_of_int (f32_as_uint 65535 (f32_round c)))
     (f32_clamp (case x of Some v \<Rightarrow> v | None \<Rightarrow> 0) 0 (dec 655350 1))"

definition live_ratio :: "f32 option \<Rightarrow> f32 option \<Rightarrow> f32" where
  "live_ratio ro so = (case (ro, so) of
     (Some r, Some s) \<Rightarrow> if 1 \<le> s then r / s else 0 | _ \<Rightarrow> 0)"

definition live_encode :: "live_status \<Rightarrow> u8 list option" where
  "live_encode l =
     (case (live_u16 (l_rpm l), live_u16 (l_speed l)) of
        (Some r, Some s) \<Rightarrow>
          Some ([PROTOCOL_VERSION, live_flags l, gear_byte (l_gear l), l_brightness_idx l]
            @ u16_le r @ u16_le s @ u32_le (to_bits (live_ratio (l_rpm l) (l_speed l)))
            @ u32_le (l_samples l) @ u32_le (l_uptime_s l))
      | _ \<Rightarrow> None)"

section \<open>Commands\<close>

datatype command = WipeCalibration | SetBrightness u8 | CheckUpdate | InstallUpdate
  | SetBootPolicy u8 | Reboot | ForgetWifi | ClearBlackBox | SetManifestUrl string | TestWifi

definition OP_WIPE_CALIBRATION :: u8 where "OP_WIPE_CALIBRATION = 0x01"
definition OP_SET_BRIGHTNESS :: u8 where "OP_SET_BRIGHTNESS = 0x02"
definition OP_CHECK_UPDATE :: u8 where "OP_CHECK_UPDATE = 0x03"
definition OP_INSTALL_UPDATE :: u8 where "OP_INSTALL_UPDATE = 0x04"
definition OP_SET_BOOT_POLICY :: u8 where "OP_SET_BOOT_POLICY = 0x05"
definition OP_REBOOT :: u8 where "OP_REBOOT = 0x06"
definition OP_FORGET_WIFI :: u8 where "OP_FORGET_WIFI = 0x07"
definition OP_CLEAR_BLACK_BOX :: u8 where "OP_CLEAR_BLACK_BOX = 0x08"
definition OP_SET_MANIFEST_URL :: u8 where "OP_SET_MANIFEST_URL = 0x09"
definition OP_TEST_WIFI :: u8 where "OP_TEST_WIFI = 0x0A"

lemmas op_defs [model_defs] = OP_WIPE_CALIBRATION_def OP_SET_BRIGHTNESS_def OP_CHECK_UPDATE_def
  OP_INSTALL_UPDATE_def OP_SET_BOOT_POLICY_def OP_REBOOT_def OP_FORGET_WIFI_def
  OP_CLEAR_BLACK_BOX_def OP_SET_MANIFEST_URL_def OP_TEST_WIFI_def

definition decode_url :: "u8 list \<Rightarrow> command option" where
  "decode_url rest =
     (case from_utf8 rest of
        None \<Rightarrow> None
      | Some t \<Rightarrow> let url = trim t in
          if url \<noteq> [] \<and> \<not> prefix ''https://'' url then None else Some (SetManifestUrl url))"

definition command_decode :: "u8 list \<Rightarrow> command option" where
  "command_decode bytes =
     (case bytes of
        [] \<Rightarrow> None
      | op # rest \<Rightarrow>
          if op = OP_WIPE_CALIBRATION then Some WipeCalibration
          else if op = OP_SET_BRIGHTNESS then (case rest of [] \<Rightarrow> None | b # _ \<Rightarrow> Some (SetBrightness b))
          else if op = OP_CHECK_UPDATE then Some CheckUpdate
          else if op = OP_INSTALL_UPDATE then Some InstallUpdate
          else if op = OP_SET_BOOT_POLICY then
            (case rest of [] \<Rightarrow> None | p # _ \<Rightarrow> if 2 < p then None else Some (SetBootPolicy p))
          else if op = OP_REBOOT then Some Reboot
          else if op = OP_FORGET_WIFI then Some ForgetWifi
          else if op = OP_CLEAR_BLACK_BOX then Some ClearBlackBox
          else if op = OP_SET_MANIFEST_URL then decode_url rest
          else if op = OP_TEST_WIFI then Some TestWifi
          else None)"

section \<open>WiFi credentials\<close>

record wifi_credentials =
  w_ssid :: string
  w_psk :: string

definition WIFI_CONFIG_VERSION :: u8 where "WIFI_CONFIG_VERSION = 0x01"

definition wifi_decode :: "u8 list \<Rightarrow> wifi_credentials option" where
  "wifi_decode bytes =
     (case bytes of ver # sl # rest \<Rightarrow>
        if ver \<noteq> WIFI_CONFIG_VERSION then None
        else let sl = unat sl in
          if sl = 0 \<or> sl > 32 \<or> length rest < sl + 1 then None
          else (case from_utf8 (take sl rest) of
              None \<Rightarrow> None
            | Some ssid \<Rightarrow>
                (case drop sl rest of
                   [] \<Rightarrow> None
                 | pl # rest' \<Rightarrow> let pl = unat pl in
                     if pl > 63 \<or> length rest' < pl then None
                     else (case from_utf8 (take pl rest') of
                         None \<Rightarrow> None
                       | Some psk \<Rightarrow> Some \<lparr>w_ssid = ssid, w_psk = psk\<rparr>)))
      | _ \<Rightarrow> None)"

definition wifi_encode :: "wifi_credentials \<Rightarrow> u8 list" where
  "wifi_encode w = [WIFI_CONFIG_VERSION, of_nat (length (w_ssid w))] @ bytes_of (w_ssid w)
     @ [of_nat (length (w_psk w))] @ bytes_of (w_psk w)"

section \<open>Histogram pages\<close>

definition hist_page :: "u16 list \<Rightarrow> u32 \<Rightarrow> u8 \<Rightarrow> u8 list" where
  "hist_page hist samples page =
     (let start = unat page * HIST_PAGE_BINS in
      page # u32_le samples
        @ concat (map (\<lambda>i. u16_le (if i < length hist then hist ! i else 0)) [start..<start + HIST_PAGE_BINS]))"

definition bin_ratio :: "nat \<Rightarrow> f32" where
  "bin_ratio bin = RATIO_MIN + f32_of_int (int bin) + dec 5 1"

lemmas ble_defs [model_defs] = uuid_def flag_def live_flags_def gear_byte_def live_u16_def
  live_ratio_def live_encode_def decode_url_def command_decode_def wifi_decode_def wifi_encode_def
  hist_page_def bin_ratio_def GEAR_UNKNOWN_def GEAR_NEUTRAL_def WIFI_CONFIG_VERSION_def

section \<open>Reading the live packet back\<close>

text \<open>The view the app has of the packet.\<close>

record live_view =
  v_proto :: u8
  v_link_up :: bool
  v_neutral_switch :: bool
  v_interlock :: "bool option"
  v_learn_flash :: bool
  v_ota_busy :: bool
  v_demo :: bool
  v_gear :: gear
  v_brightness_idx :: u8
  v_rpm :: u16
  v_speed :: u16
  v_ratio :: f32
  v_samples :: u32
  v_uptime_s :: u32

definition has :: "u8 \<Rightarrow> u8 \<Rightarrow> bool" where "has flags f \<longleftrightarrow> flags AND f \<noteq> 0"

definition gear_of_byte :: "u8 \<Rightarrow> gear" where
  "gear_of_byte b = (if b = GEAR_UNKNOWN then Unknown else if b = GEAR_NEUTRAL then Neutral else G b)"

fun live_read :: "u8 list \<Rightarrow> live_view option" where
  "live_read [p, fl, g, br, r0, r1, s0, s1, q0, q1, q2, q3, n0, n1, n2, n3, u0, u1, u2, u3] =
     Some \<lparr>v_proto = p, v_link_up = has fl FLAG_LINK_UP, v_neutral_switch = has fl FLAG_NEUTRAL_SWITCH,
       v_interlock = (if has fl FLAG_INTERLOCK_KNOWN then Some (has fl FLAG_INTERLOCK_CLOSED) else None),
       v_learn_flash = has fl FLAG_LEARN_FLASH, v_ota_busy = has fl FLAG_OTA_BUSY,
       v_demo = has fl FLAG_DEMO, v_gear = gear_of_byte g, v_brightness_idx = br,
       v_rpm = u16_of_le r0 r1, v_speed = u16_of_le s0 s1, v_ratio = F32 (u32_of_le q0 q1 q2 q3),
       v_samples = u32_of_le n0 n1 n2 n3, v_uptime_s = u32_of_le u0 u1 u2 u3\<rparr>"
| "live_read _ = None"

definition single :: "nat \<Rightarrow> u8" where "single k = push_bit k 1"

lemma flag_single:
  "FLAG_LINK_UP = single 0"
  "FLAG_NEUTRAL_SWITCH = single 1"
  "FLAG_INTERLOCK_KNOWN = single 2"
  "FLAG_INTERLOCK_CLOSED = single 3"
  "FLAG_LEARN_FLASH = single 4"
  "FLAG_OTA_BUSY = single 5"
  "FLAG_DEMO = single 6"
  by (simp_all only: single_def flag_defs)

lemma has_bit: "has fl (single k) \<longleftrightarrow> bit fl k"
  by (simp add: has_def single_def bit_iff_and_push_bit_not_eq_0)

lemma bit_single: "bit (single k) n \<longleftrightarrow> n = k \<and> n < 8"
  by (auto simp: single_def bit_exp_iff)

lemma bit_flag: "bit (flag b (single k) x) n \<longleftrightarrow> (b \<and> n = k \<and> n < 8) \<or> bit x n"
  by (auto simp: flag_def bit_or_iff bit_single)

lemma bit_live_flags:
  "bit (live_flags l) n \<longleftrightarrow> n < 8 \<and>
     (n = 0 \<and> l_link_up l \<or> n = 1 \<and> l_neutral_switch l \<or> n = 2 \<and> l_interlock l \<noteq> None
      \<or> n = 3 \<and> l_interlock l = Some True \<or> n = 4 \<and> l_learn_flash l \<or> n = 5 \<and> l_ota_busy l
      \<or> n = 6 \<and> l_demo l)"
  by (cases "l_interlock l")
    (auto simp: live_flags_def flag_single Let_def bit_flag bit_or_iff bit_single)

lemma flags_read:
  "has (live_flags l) FLAG_LINK_UP = l_link_up l"
  "has (live_flags l) FLAG_NEUTRAL_SWITCH = l_neutral_switch l"
  "has (live_flags l) FLAG_INTERLOCK_KNOWN = (l_interlock l \<noteq> None)"
  "has (live_flags l) FLAG_INTERLOCK_CLOSED = (l_interlock l = Some True)"
  "has (live_flags l) FLAG_LEARN_FLASH = l_learn_flash l"
  "has (live_flags l) FLAG_OTA_BUSY = l_ota_busy l"
  "has (live_flags l) FLAG_DEMO = l_demo l"
  unfolding flag_single has_bit bit_live_flags by simp_all

lemma gear_read: "valid_gear g \<Longrightarrow> gear_of_byte (gear_byte g) = g"
proof (cases g)
  case (G n)
  assume "valid_gear g"
  then have n: "0 < unat n" "unat n \<le> 6" by (simp_all add: G NUM_GEARS_def)
  then have "n \<noteq> 0" "n \<noteq> 7" "n \<le> 6" by (auto simp: word_le_nat_alt)
  then show ?thesis by (simp add: G gear_of_byte_def gear_byte_def GEAR_UNKNOWN_def GEAR_NEUTRAL_def min_def)
qed (simp_all add: gear_of_byte_def gear_byte_def GEAR_UNKNOWN_def GEAR_NEUTRAL_def)

lemma fin_consts: "is_fin 0" "units 0 = 0" "is_fin (dec 655350 1)" "units (dec 655350 1) = 65535 * unit1"
  "0 \<le> dec 655350 1"
  by code_simp+

lemma live_u16_total: "\<exists>w. live_u16 x = Some w"
  unfolding live_u16_def f32_clamp_def using fin_consts(5) by simp

text \<open>A reading in range is sent as the nearest integer, halves upwards.\<close>

lemma live_u16_value:
  assumes "is_fin v" "0 \<le> v" "v \<le> dec 655350 1"
  shows "\<exists>w. live_u16 (Some v) = Some w \<and> uint w = (units v + 2 ^ 148) div unit1"
proof -
  have u: "0 \<le> units v" "units v \<le> 65535 * unit1"
    using assms le_units [OF fin_consts(1) assms(1)] le_units [OF assms(1) fin_consts(3)] fin_consts by simp_all
  then have m: "mag (f32_code v) = units v" using units_mag [of v] by simp
  let ?k = "(units v + 2 ^ 148) div unit1"
  have k: "0 \<le> ?k" "?k \<le> 65535"
  proof -
    show "0 \<le> ?k" using u by (intro pos_imp_zdiv_nonneg_iff [THEN iffD2]) auto
    have "?k \<le> (65535 * unit1 + 2 ^ 148) div unit1" using u by (intro zdiv_mono1) auto
    moreover have "(65535 * unit1 + 2 ^ 148) div unit1 = 65535" by code_simp
    ultimately show "?k \<le> 65535" by simp
  qed
  obtain c where c: "0 \<le> c" "c < inf_code" "mag c = ?k * unit1"
    using int_representable [of ?k] k by auto
  have fr: "f32_round v = round_f32 (f32_neg v) (?k * unit1) 1"
    using assms(1) by (simp only: f32_round_def m) simp
  have r: "is_fin (f32_round v)" "mag (f32_code (f32_round v)) = ?k * unit1"
  proof -
    have e: "mag c * 1 = ?k * unit1" using c(3) by simp
    note x = round_exact [OF c(1,2) e, of "f32_neg v", folded fr]
    show "is_fin (f32_round v)" using x(1) by simp
    have "\<bar>units (f32_round v)\<bar> = mag c" using x(2) c(1) by auto
    then show "mag (f32_code (f32_round v)) = ?k * unit1" using c(3) by (simp add: units_mag)
  qed
  have "f32_as_uint 65535 (f32_round v) = ?k"
  proof (cases "f32_neg v")
    case True
    then have "units v = - mag (f32_code v)" by (simp add: units_def)
    then have "units v = 0" using u(1) m by linarith
    then have "?k = 2 ^ 148 div unit1" by simp
    then have "?k = 0" by (simp add: unit1_def)
    then show ?thesis using r k by (simp add: f32_as_uint_def)
  next
    case False
    moreover have "f32_neg (f32_round v) = f32_neg v"
      unfolding fr using k unit1_pos by (intro round_f32_neg) auto
    ultimately have "\<not> f32_neg (f32_round v)" by simp
    then show ?thesis using r k by (simp add: f32_as_uint_def unit1_nonzero)
  qed
  then show ?thesis
    using clamp_id [OF assms(2,3)] k unfolding live_u16_def by (simp add: uint_word_of_int)
qed

section \<open>Codecs\<close>

text \<open>The bytes the app writes for a command.\<close>

fun command_bytes :: "command \<Rightarrow> u8 list" where
  "command_bytes WipeCalibration = [OP_WIPE_CALIBRATION]"
| "command_bytes (SetBrightness b) = [OP_SET_BRIGHTNESS, b]"
| "command_bytes CheckUpdate = [OP_CHECK_UPDATE]"
| "command_bytes InstallUpdate = [OP_INSTALL_UPDATE]"
| "command_bytes (SetBootPolicy p) = [OP_SET_BOOT_POLICY, p]"
| "command_bytes Reboot = [OP_REBOOT]"
| "command_bytes ForgetWifi = [OP_FORGET_WIFI]"
| "command_bytes ClearBlackBox = [OP_CLEAR_BLACK_BOX]"
| "command_bytes (SetManifestUrl u) = OP_SET_MANIFEST_URL # bytes_of u"
| "command_bytes TestWifi = [OP_TEST_WIFI]"

fun command_ok :: "command \<Rightarrow> bool" where
  "command_ok (SetBootPolicy p) = (p \<le> 2)"
| "command_ok (SetManifestUrl u) = (utf8_valid u \<and> trim u = u \<and> (u = [] \<or> prefix ''https://'' u))"
| "command_ok _ = True"

lemma from_utf8_bytes: "utf8_valid s \<Longrightarrow> from_utf8 (bytes_of s) = Some s"
  by (simp add: from_utf8_def)

interpretation command_codec: codec command_bytes command_decode command_ok
proof
  show "command_decode (command_bytes c) = Some c" if "command_ok c" for c
    using that by (cases c) (auto simp: command_decode_def op_defs decode_url_def from_utf8_bytes)
qed

definition wifi_ok :: "wifi_credentials \<Rightarrow> bool" where
  "wifi_ok w \<longleftrightarrow> 1 \<le> length (w_ssid w) \<and> length (w_ssid w) \<le> 32 \<and> length (w_psk w) \<le> 63
     \<and> utf8_valid (w_ssid w) \<and> utf8_valid (w_psk w)"

interpretation wifi_codec: codec wifi_encode wifi_decode wifi_ok
proof
  show "wifi_decode (wifi_encode w) = Some w" if "wifi_ok w" for w
    using that by (cases w) (auto simp: wifi_decode_def wifi_encode_def wifi_ok_def from_utf8_bytes
        unat_of_nat Let_def)
qed

section \<open>Trimmed text\<close>

lemma strip_done: "lead_len ws (strip ws s) = 0 \<or> strip ws s = []"
proof (induction ws s rule: strip.induct)
  case (1 ws s)
  then show ?case by (subst (1 2) strip.simps) auto
qed

lemma lead_len_prefix:
  assumes "lead_len ws (s @ t) = 0" "[] \<notin> set ws"
  shows "lead_len ws s = 0"
proof (cases "find (\<lambda>w. prefix w s) ws")
  case (Some w)
  then have w: "w \<in> set ws" "prefix w (s @ t)" using find_mem [OF Some] by auto
  then obtain w' where w': "find (\<lambda>w. prefix w (s @ t)) ws = Some w'" "w' \<in> set ws"
    by (cases "find (\<lambda>w. prefix w (s @ t)) ws") (auto simp: find_None_iff dest: find_mem)
  then have "length w' = 0" using assms(1) by (simp add: lead_len_def)
  then show ?thesis using w'(2) assms(2) by simp
qed (simp add: lead_len_def)

lemma strip_fix: "lead_len ws s = 0 \<or> s = [] \<Longrightarrow> strip ws s = s"
  by (subst strip.simps) auto

lemma ws_ne: "[] \<notin> set ws_chars" "[] \<notin> set (map rev ws_chars)"
  by (auto simp: ws_chars_def)

lemma trim_idem: "trim (trim s) = trim s"
proof -
  let ?u = "strip ws_chars s" and ?r = "map rev ws_chars"
  let ?v = "rev (strip ?r (rev ?u))"
  obtain k where k: "strip ?r (rev ?u) = drop k (rev ?u)" using strip_suffix by blast
  have "?u = ?v @ rev (take k (rev ?u))"
    by (metis append_take_drop_id k rev_append rev_rev_ident)
  then have "lead_len ws_chars ?v = 0 \<or> ?v = []"
    using strip_done [of ws_chars s] lead_len_prefix [OF _ ws_ne(1)] by (metis append_is_Nil_conv)
  then have "strip ws_chars ?v = ?v" by (rule strip_fix)
  moreover have "strip ?r (strip ?r (rev ?u)) = strip ?r (rev ?u)"
    by (rule strip_fix) (rule strip_done)
  ultimately show ?thesis by (simp add: trim_def)
qed

text \<open>Stripping whole encoded characters keeps the text valid.\<close>

lemma ws_head: "w \<in> set ws_chars \<Longrightarrow> utf8_valid (w @ t) = utf8_valid t"
  by (auto simp: ws_chars_def within_def cont_def second_of_3_def)

lemma ws_lead: "w \<in> set ws_chars \<Longrightarrow> w \<noteq> [] \<and> \<not> cont (hd w)"
  by (auto simp: ws_chars_def within_def cont_def)

lemma strip_front_valid: "utf8_valid s \<Longrightarrow> utf8_valid (strip ws_chars s)"
proof (induction ws_chars s rule: strip.induct)
  case (1 s)
  show ?case
  proof (cases "lead_len ws_chars s = 0 \<or> s = []")
    case False
    then obtain w where w: "w \<in> set ws_chars" "prefix w s" "length w = lead_len ws_chars s"
      by (auto simp: lead_len_def dest: find_mem split: option.splits)
    then have "s = w @ drop (lead_len ws_chars s) s" by (metis append_eq_conv_conj prefix_def)
    then have "utf8_valid (drop (lead_len ws_chars s) s)" using ws_head [OF w(1)] 1(2) by metis
    then show ?thesis using 1(1) [OF False] False by (subst strip.simps) simp
  qed (use 1 in \<open>subst strip.simps, simp\<close>)
qed

lemma strip_back_valid: "utf8_valid (rev s) \<Longrightarrow> utf8_valid (rev (strip (map rev ws_chars) s))"
proof (induction "map rev ws_chars" s rule: strip.induct)
  case (1 s)
  let ?n = "lead_len (map rev ws_chars) s"
  show ?case
  proof (cases "?n = 0 \<or> s = []")
    case False
    then obtain w' where w': "find (\<lambda>w. prefix w s) (map rev ws_chars) = Some w'" "length w' = ?n"
      by (cases "find (\<lambda>w. prefix w s) (map rev ws_chars)") (auto simp: lead_len_def)
    then obtain w where w: "w \<in> set ws_chars" "prefix (rev w) s" "length w = ?n"
      using find_mem [OF w'(1)] by auto
    then have s: "rev s = rev (drop ?n s) @ w"
      by (metis append_eq_conv_conj length_rev prefix_def rev_append rev_rev_ident)
    have "is_char_boundary (rev s) (length (rev (drop ?n s)))"
      using ws_lead [OF w(1)] unfolding s is_char_boundary_def by (auto simp: nth_append hd_conv_nth)
    from boundary_take [OF 1(2) this] have "utf8_valid (rev (drop ?n s))"
      using s by (metis append_eq_conv_conj)
    then show ?thesis using 1(1) [OF False] False by (subst strip.simps) simp
  qed (use 1 in \<open>subst strip.simps, simp\<close>)
qed

lemma trim_valid: "utf8_valid s \<Longrightarrow> utf8_valid (trim s)"
  unfolding trim_def by (intro strip_back_valid) (simp add: strip_front_valid)

section \<open>Properties\<close>

text \<open>
  C36. The live packet: for every status with a gear the estimator can show, encoding never
  panics, gives 20 bytes, and the app reads back every flag, the gear, brightness, sample
  count, uptime and ratio exactly, and the readings as their 16-bit roundings.
\<close>

theorem live_packet_roundtrip:
  assumes "valid_gear (l_gear l)"
  shows "\<exists>bs r s. live_encode l = Some bs \<and> length bs = 20
    \<and> live_u16 (l_rpm l) = Some r \<and> live_u16 (l_speed l) = Some s
    \<and> live_read bs = Some \<lparr>v_proto = 1, v_link_up = l_link_up l,
         v_neutral_switch = l_neutral_switch l, v_interlock = l_interlock l,
         v_learn_flash = l_learn_flash l, v_ota_busy = l_ota_busy l, v_demo = l_demo l,
         v_gear = l_gear l, v_brightness_idx = l_brightness_idx l, v_rpm = r, v_speed = s,
         v_ratio = live_ratio (l_rpm l) (l_speed l), v_samples = l_samples l,
         v_uptime_s = l_uptime_s l\<rparr>"
proof -
  obtain r s where rs: "live_u16 (l_rpm l) = Some r" "live_u16 (l_speed l) = Some s"
    using live_u16_total by blast
  have "l_interlock l \<noteq> None \<longrightarrow> Some (l_interlock l = Some True) = l_interlock l"
    by (cases "l_interlock l") auto
  then show ?thesis
    using rs gear_read [OF assms]
    by (simp add: live_encode_def u16_le_def u32_le_def flags_read PROTOCOL_VERSION_def)
qed

definition wit_live :: live_status where
  "wit_live = \<lparr>l_link_up = True, l_neutral_switch = False, l_interlock = Some False,
     l_learn_flash = True, l_ota_busy = False, l_demo = False, l_gear = G 4, l_brightness_idx = 1,
     l_rpm = None, l_speed = None, l_samples = 268, l_uptime_s = 0x01020304\<rparr>"

theorem live_packet_roundtrip_witness:
  "valid_gear (l_gear wit_live) \<and> (\<exists>bs v. live_encode wit_live = Some bs \<and> length bs = 20
     \<and> live_read bs = Some v \<and> v_gear v = G 4 \<and> v_interlock v = Some False \<and> v_samples v = 268)"
proof -
  have h: "valid_gear (l_gear wit_live)" by (simp add: wit_live_def NUM_GEARS_def)
  have "l_gear wit_live = G 4" "l_interlock wit_live = Some False" "l_samples wit_live = 268"
    by (simp_all add: wit_live_def)
  then show ?thesis using live_packet_roundtrip [OF h] h by fastforce
qed

lemma commands_decoded_facts:
  "command_ok c \<Longrightarrow> command_decode (command_bytes c) = Some c"
  "command_decode bs = Some c \<Longrightarrow> command_ok c"
proof -
  show "command_ok c \<Longrightarrow> command_decode (command_bytes c) = Some c" by (rule command_codec.dec_enc)
  have url: "command_ok c" if "decode_url rest = Some c" for rest
  proof -
    have "utf8_valid (str_of rest)" "c = SetManifestUrl (trim (str_of rest))"
      "trim (str_of rest) = [] \<or> prefix ''https://'' (trim (str_of rest))"
      using that by (auto simp: decode_url_def from_utf8_def Let_def split: if_splits)
    then show ?thesis using trim_valid trim_idem by (simp del: utf8_valid.simps)
  qed
  show "command_decode bs = Some c \<Longrightarrow> command_ok c"
    by (auto simp: command_decode_def not_less split: list.splits if_splits intro: url)
qed

text \<open>
  Commands: every command the app can form is decoded to itself, and whatever decodes is
  admissible: a boot policy of at most 2, an update URL that is empty or https, trimmed and
  valid UTF-8. Everything else is refused.
\<close>

lemma commands_decoded:
  "(command_ok c \<longrightarrow> command_decode (command_bytes c) = Some c)
   \<and> (command_decode bs = Some c' \<longrightarrow> command_ok c')"
  using commands_decoded_facts(1) [of c] commands_decoded_facts(2) [of bs c'] by blast

lemma commands_decoded_witness:
  "command_decode (command_bytes (SetManifestUrl ''https://a/m.json'')) = Some (SetManifestUrl ''https://a/m.json'')
   \<and> command_ok (SetBootPolicy 2)"
proof -
  have h: "command_ok (SetManifestUrl ''https://a/m.json'')" by code_simp
  have d: "command_decode [5, 2, 9] = Some (SetBootPolicy 2)" by code_simp
  from commands_decoded [of "SetManifestUrl ''https://a/m.json''" "[5, 2, 9]" "SetBootPolicy 2"] h d show ?thesis by blast
qed

lemma wifi_credentials_roundtrip_facts:
  "wifi_ok w \<Longrightarrow> wifi_decode (wifi_encode w) = Some w"
  "wifi_decode bs = Some w' \<Longrightarrow> wifi_ok w'"
proof -
  show "wifi_ok w \<Longrightarrow> wifi_decode (wifi_encode w) = Some w" by (rule wifi_codec.dec_enc)
  have u: "from_utf8 xs = Some t \<Longrightarrow> utf8_valid t \<and> length t = length xs" for xs t
    by (auto simp: from_utf8_def split: if_splits)
  show "wifi_decode bs = Some w' \<Longrightarrow> wifi_ok w'"
    by (auto simp: wifi_decode_def wifi_ok_def Let_def dest!: u split: list.splits if_splits option.splits)
qed

text \<open>
  WiFi credentials: every admissible pair is read back from its bytes, and whatever is
  read has an SSID of 1 to 32 bytes and a passphrase of at most 63, both valid UTF-8.
\<close>

lemma wifi_credentials_roundtrip:
  "(wifi_ok w \<longrightarrow> wifi_decode (wifi_encode w) = Some w)
   \<and> (wifi_decode bs = Some w' \<longrightarrow> wifi_ok w')"
  using wifi_credentials_roundtrip_facts(1) [of w] wifi_credentials_roundtrip_facts(2) [of bs w'] by blast

lemma wifi_credentials_roundtrip_witness:
  "wifi_decode (wifi_encode \<lparr>w_ssid = ''garage'', w_psk = ''secret12''\<rparr>)
     = Some \<lparr>w_ssid = ''garage'', w_psk = ''secret12''\<rparr>"
proof -
  have "wifi_ok \<lparr>w_ssid = ''garage'', w_psk = ''secret12''\<rparr>" by code_simp
  then show ?thesis using wifi_credentials_roundtrip by blast
qed

lemma hist_pages_complete_facts:
  assumes "length hist = BINS"
  shows "u16_chunks (drop 5 (hist_page hist samples 0) @ drop 5 (hist_page hist samples 1)) = hist"
    and "take 5 (hist_page hist samples p) = p # u32_le samples"
    and "length (hist_page hist samples p) = 305"
proof -
  have b: "[0..<150] @ [150..<300] = [0..<300]" using upt_add_eq_append [of 0 150 150] by (simp del: upt_rec_numeral)
  have l: "length hist = 300" using assms by (simp add: BINS_def)
  have d: "drop 5 (hist_page hist samples q) = concat (map (\<lambda>i. u16_le (if i < length hist then hist ! i else 0))
      [unat q * HIST_PAGE_BINS..<unat q * HIST_PAGE_BINS + HIST_PAGE_BINS])" for q
    by (simp add: hist_page_def Let_def u32_le_def del: upt_rec_numeral)
  have "drop 5 (hist_page hist samples 0) @ drop 5 (hist_page hist samples 1)
      = concat (map (\<lambda>i. u16_le (if i < length hist then hist ! i else 0)) [0..<300])"
    unfolding d by (simp add: HIST_PAGE_BINS_def BINS_def b del: upt_rec_numeral flip: concat_append map_append)
  also have "map (\<lambda>i. u16_le (if i < length hist then hist ! i else 0)) [0..<300] = map u16_le hist"
    by (rule nth_equalityI) (simp_all add: l del: upt_rec_numeral)
  finally show "u16_chunks (drop 5 (hist_page hist samples 0) @ drop 5 (hist_page hist samples 1)) = hist"
    by (simp add: u16_chunks_concat)
  show "take 5 (hist_page hist samples p) = p # u32_le samples"
    by (simp add: hist_page_def Let_def u32_le_def)
  have "length (concat (map (\<lambda>i. u16_le (if i < length hist then hist ! i else 0)) xs)) = 2 * length xs" for xs
    by (rule concat_len_const) simp
  then show "length (hist_page hist samples p) = 305"
    by (simp add: hist_page_def Let_def HIST_PAGE_BINS_def BINS_def del: upt_rec_numeral)
qed

text \<open>
  The two histogram pages are the histogram: behind their five header bytes they hold, one
  after the other, exactly the counts of the flash blob, and the counts are read back.
\<close>

lemma hist_pages_complete:
  assumes "length hist = BINS"
  shows "u16_chunks (drop 5 (hist_page hist samples 0) @ drop 5 (hist_page hist samples 1)) = hist
    \<and> take 5 (hist_page hist samples p) = p # u32_le samples
    \<and> length (hist_page hist samples p) = 305"
  using hist_pages_complete_facts [OF assms] by blast

lemma hist_pages_complete_witness:
  "u16_chunks (drop 5 (hist_page (h_counts wit_hist) 50 0) @ drop 5 (hist_page (h_counts wit_hist) 50 1))
     = h_counts wit_hist"
proof -
  have h: "length (h_counts wit_hist) = BINS" by (simp add: wit_hist_def)
  show ?thesis using hist_pages_complete [OF h] by blast
qed

end
