(* ===== verification/Ble_Json.thy ===== *)
theory Ble_Json
  imports Ble_Proto
begin

text \<open>
  The JSON bodies of the BLE service, \<open>core/src/ble_proto.rs\<close>: UTF-8 truncation, string
  escaping, the body builders and their trimming to one attribute, and the event ring.
  A body is a string of UTF-8 bytes, so its length is \<open>String::len\<close>.
\<close>

section \<open>Text\<close>

definition MAX_ATTR_LEN :: nat where "MAX_ATTR_LEN = 512"

text \<open>The loop that lowers the cut to a character boundary.\<close>

primrec back_off :: "string \<Rightarrow> nat \<Rightarrow> nat" where
  "back_off s 0 = 0"
| "back_off s (Suc n) = (if is_char_boundary s (Suc n) then Suc n else back_off s n)"

definition truncate_utf8 :: "string \<Rightarrow> nat \<Rightarrow> string" where
  "truncate_utf8 s m = (if length s \<le> m then s else take (back_off s m) s)"

definition json_char :: "char \<Rightarrow> string" where
  "json_char c =
     (if c = CHR 0x22 then [CHR 0x5C, CHR 0x22]
      else if c = CHR 0x5C then [CHR 0x5C, CHR 0x5C]
      else if c = CHR 0x0A then [CHR 0x5C, CHR ''n'']
      else if code c < 0x20 then [CHR 0x5C, CHR ''u''] @ pad_left 4 (show_hex (code c))
      else [c])"

definition json_str :: "string \<Rightarrow> string" where
  "json_str s = CHR 0x22 # concat (map json_char s) @ [CHR 0x22]"

definition json_opt_str :: "string option \<Rightarrow> string" where
  "json_opt_str o' = (case o' of None \<Rightarrow> ''null'' | Some s \<Rightarrow> json_str s)"

definition json_f32_list :: "f32 list \<Rightarrow> string" where
  "json_f32_list v = ''['' @ join '','' (map (fmt_f32 1) v) @ '']''"

abbreviation show_word :: "'a::len word \<Rightarrow> string" where
  "show_word w \<equiv> show_nat (unat w)"

section \<open>Device, black box, calibration\<close>

record device_info =
  d_fw_version :: string
  d_project :: string
  d_idf_version :: string
  d_built :: string
  d_hardware :: string
  d_slot :: string
  d_ota_capable :: bool
  d_pending_verify :: bool
  d_boot_policy :: u8
  d_uptime_s :: u32
  d_free_heap :: u32
  d_min_free_heap :: u32
  d_reset_reason :: string
  d_mac :: string
  d_ble_connections :: u8

definition device_info_json :: "device_info \<Rightarrow> string" where
  "device_info_json d =
     ''{\"proto\":'' @ show_word PROTOCOL_VERSION
     @ '',\"fw\":'' @ json_str (d_fw_version d)
     @ '',\"project\":'' @ json_str (d_project d)
     @ '',\"idf\":'' @ json_str (d_idf_version d)
     @ '',\"built\":'' @ json_str (d_built d)
     @ '',\"hw\":'' @ json_str (d_hardware d)
     @ '',\"slot\":'' @ json_str (d_slot d)
     @ '',\"otaCapable\":'' @ show_bool (d_ota_capable d)
     @ '',\"pendingVerify\":'' @ show_bool (d_pending_verify d)
     @ '',\"bootPolicy\":'' @ show_word (d_boot_policy d)
     @ '',\"uptime\":'' @ show_word (d_uptime_s d)
     @ '',\"freeHeap\":'' @ show_word (d_free_heap d)
     @ '',\"minFreeHeap\":'' @ show_word (d_min_free_heap d)
     @ '',\"resetReason\":'' @ json_str (d_reset_reason d)
     @ '',\"mac\":'' @ json_str (d_mac d)
     @ '',\"bleConns\":'' @ show_word (d_ble_connections d) @ ''}''"

record black_box =
  b_boots :: u32
  b_abnormal_resets :: u32
  b_last_reset_reason :: string
  b_link_drops :: u32
  b_min_free_heap :: u32
  b_interlock_odd :: u32
  b_interlock_last_odd :: u16
  b_max_rpm :: f32
  b_max_speed :: f32
  b_outcomes :: "u32 list"

definition black_box_json :: "black_box \<Rightarrow> string" where
  "black_box_json b =
     ''{\"boots\":'' @ show_word (b_boots b)
     @ '',\"abnormalResets\":'' @ show_word (b_abnormal_resets b)
     @ '',\"lastReset\":'' @ json_str (b_last_reset_reason b)
     @ '',\"linkDrops\":'' @ show_word (b_link_drops b)
     @ '',\"minFreeHeap\":'' @ show_word (b_min_free_heap b)
     @ '',\"interlockOdd\":'' @ show_word (b_interlock_odd b)
     @ '',\"interlockLastOdd\":'' @ show_word (b_interlock_last_odd b)
     @ '',\"maxRpm\":'' @ fmt_f32 0 (b_max_rpm b)
     @ '',\"maxSpeed\":'' @ fmt_f32 0 (b_max_speed b)
     @ '',\"gates\":{\"accepted\":'' @ show_word (b_outcomes b ! 0)
     @ '',\"clutch\":'' @ show_word (b_outcomes b ! 1)
     @ '',\"neutral\":'' @ show_word (b_outcomes b ! 2)
     @ '',\"rpmLow\":'' @ show_word (b_outcomes b ! 3)
     @ '',\"speedLow\":'' @ show_word (b_outcomes b ! 4)
     @ '',\"outOfRange\":'' @ show_word (b_outcomes b ! 5)
     @ '',\"binFull\":'' @ show_word (b_outcomes b ! 6) @ ''}}''"

definition calibration_body :: "f32 list option \<Rightarrow> nat \<Rightarrow> u32 \<Rightarrow> (f32 \<times> u32) list \<Rightarrow> string" where
  "calibration_body bs learned samples ps =
     ''{\"factory\":'' @ json_f32_list FACTORY_BANDS
     @ '',\"bands\":'' @ (case bs of None \<Rightarrow> ''null'' | Some v \<Rightarrow> json_f32_list v)
     @ '',\"learned\":'' @ show_nat (min learned NUM_GEARS)
     @ '',\"samples\":'' @ show_word samples
     @ '',\"peaks\":['' @ join '','' (map (\<lambda>(r, m). ''['' @ fmt_f32 1 r @ '','' @ show_word m @ '']'') ps)
     @ '']}''"

function calibration_json :: "f32 list option \<Rightarrow> nat \<Rightarrow> u32 \<Rightarrow> (f32 \<times> u32) list \<Rightarrow> string" where
  "calibration_json bs learned samples ps =
     (let body = calibration_body bs learned samples ps in
      if length body \<le> MAX_ATTR_LEN \<or> ps = [] then body
      else calibration_json bs learned samples (butlast ps))"
  by pat_completeness auto
termination by (relation "measure (\<lambda>(_, _, _, ps). length ps)") auto

declare calibration_json.simps [simp del]

section \<open>Update and WiFi status, settings\<close>

datatype ota_state = Idle | Connecting | Checking | StateUpToDate | Available | Downloading
  | Verifying | Rebooting | OtaFailed

definition ota_state_str :: "ota_state \<Rightarrow> string" where
  "ota_state_str s = (case s of Idle \<Rightarrow> ''idle'' | Connecting \<Rightarrow> ''connecting''
     | Checking \<Rightarrow> ''checking'' | StateUpToDate \<Rightarrow> ''upToDate'' | Available \<Rightarrow> ''available''
     | Downloading \<Rightarrow> ''downloading'' | Verifying \<Rightarrow> ''verifying'' | Rebooting \<Rightarrow> ''rebooting''
     | OtaFailed \<Rightarrow> ''failed'')"

definition is_busy :: "ota_state \<Rightarrow> bool" where
  "is_busy s \<longleftrightarrow> s \<in> {Connecting, Checking, Downloading, Verifying, Rebooting}"

record ota_status =
  o_state :: ota_state
  o_progress :: u8
  o_current :: string
  o_available :: "string option"
  o_notes :: "string option"
  o_size :: "u32 option"
  o_error :: "string option"
  o_last_check_uptime :: "u32 option"
  o_last_check_ok :: bool

definition show_opt :: "u32 option \<Rightarrow> string" where
  "show_opt v = (case v of None \<Rightarrow> ''null'' | Some w \<Rightarrow> show_word w)"

definition ota_body :: "ota_status \<Rightarrow> string" where
  "ota_body s =
     ''{\"state\":'' @ json_str (ota_state_str (o_state s))
     @ '',\"progress\":'' @ show_word (o_progress s)
     @ '',\"current\":'' @ json_str (o_current s)
     @ '',\"available\":'' @ json_opt_str (o_available s)
     @ '',\"notes\":'' @ json_opt_str (o_notes s)
     @ '',\"size\":'' @ show_opt (o_size s)
     @ '',\"error\":'' @ json_opt_str (o_error s)
     @ '',\"lastCheck\":'' @ show_opt (o_last_check_uptime s)
     @ '',\"lastCheckOk\":'' @ show_bool (o_last_check_ok s) @ ''}''"

definition trim_notes :: "ota_status \<Rightarrow> ota_status" where
  "trim_notes s = s\<lparr>o_notes := map_option (\<lambda>n. truncate_utf8 n (length n - 64)) (o_notes s)\<rparr>"

text \<open>The source recurses until the body fits; \<open>None\<close> is a recursion that never ends.\<close>

partial_function (option) ota_status_json :: "ota_status \<Rightarrow> string option" where
  "ota_status_json s =
     (let body = ota_body s in
      if MAX_ATTR_LEN < length body then ota_status_json (trim_notes s) else Some body)"

datatype wifi_state = WifiOff | WifiConnecting | WifiConnected | WifiFailed

definition wifi_state_str :: "wifi_state \<Rightarrow> string" where
  "wifi_state_str s = (case s of WifiOff \<Rightarrow> ''off'' | WifiConnecting \<Rightarrow> ''connecting''
     | WifiConnected \<Rightarrow> ''connected'' | WifiFailed \<Rightarrow> ''failed'')"

record wifi_status =
  ws_configured :: bool
  ws_ssid :: "string option"
  ws_state :: wifi_state
  ws_ip :: "string option"
  ws_rssi :: "u32 option"
  ws_error :: "string option"

definition wifi_status_json :: "wifi_status \<Rightarrow> string" where
  "wifi_status_json w =
     ''{\"configured\":'' @ show_bool (ws_configured w)
     @ '',\"ssid\":'' @ json_opt_str (ws_ssid w)
     @ '',\"state\":'' @ json_str (wifi_state_str (ws_state w))
     @ '',\"ip\":'' @ json_opt_str (ws_ip w)
     @ '',\"rssi\":'' @ (case ws_rssi w of None \<Rightarrow> ''null'' | Some v \<Rightarrow> show_int (sint v))
     @ '',\"error\":'' @ json_opt_str (ws_error w) @ ''}''"

record settings =
  st_brightness_idx :: u8
  st_brightness_steps :: "u8 list"
  st_boot_policy :: u8
  st_manifest_url :: string
  st_manifest_url_is_default :: bool
  st_wifi_ssid :: "string option"

definition settings_json :: "settings \<Rightarrow> string" where
  "settings_json s =
     ''{\"brightness\":'' @ show_word (st_brightness_idx s)
     @ '',\"brightnessSteps\":['' @ join '','' (map show_word (st_brightness_steps s))
     @ ''],\"bootPolicy\":'' @ show_word (st_boot_policy s)
     @ '',\"manifestUrl\":'' @ json_str (st_manifest_url s)
     @ '',\"manifestDefault\":'' @ show_bool (st_manifest_url_is_default s)
     @ '',\"wifiSsid\":'' @ json_opt_str (st_wifi_ssid s) @ ''}''"

section \<open>The event ring\<close>

type_synonym event_ring = "(u32 \<times> string) list"

definition CAPACITY :: nat where "CAPACITY = 24"

definition ring_push :: "event_ring \<Rightarrow> u32 \<Rightarrow> string \<Rightarrow> event_ring" where
  "ring_push r t e = (if length r = CAPACITY then drop 1 r else r) @ [(t, truncate_utf8 e 48)]"

definition ring_body :: "event_ring \<Rightarrow> string" where
  "ring_body r = ''['' @ join '',''
     (map (\<lambda>(t, e). ''{\"t\":'' @ show_word t @ '',\"e\":'' @ json_str e @ ''}'') r) @ '']''"

function ring_json_from :: "event_ring \<Rightarrow> nat \<Rightarrow> string" where
  "ring_json_from r skip =
     (let body = ring_body (drop skip r) in
      if length body \<le> MAX_ATTR_LEN \<or> length r \<le> skip then body else ring_json_from r (skip + 1))"
  by pat_completeness auto
termination by (relation "measure (\<lambda>(r, skip). length r - skip)") auto

declare ring_json_from.simps [simp del]

definition ring_to_json :: "event_ring \<Rightarrow> string" where
  "ring_to_json r = ring_json_from r 0"

lemmas json_defs [model_defs] = MAX_ATTR_LEN_def truncate_utf8_def json_char_def json_str_def
  json_opt_str_def json_f32_list_def device_info_json_def black_box_json_def calibration_body_def
  ota_state_str_def is_busy_def show_opt_def ota_body_def trim_notes_def wifi_state_str_def
  wifi_status_json_def settings_json_def CAPACITY_def ring_push_def ring_body_def ring_to_json_def

section \<open>Truncation\<close>

lemma back_off_le: "back_off s n \<le> n"
  by (induction n) auto

lemma back_off_boundary: "is_char_boundary s (back_off s n)"
  by (induction n) (auto simp: is_char_boundary_def)

lemma back_off_max: "j \<le> n \<Longrightarrow> is_char_boundary s j \<Longrightarrow> j \<le> back_off s n"
  by (induction n) (auto simp: le_Suc_eq)

lemma truncate_len: "length (truncate_utf8 s m) \<le> m"
  using back_off_le [of s m] by (simp add: truncate_utf8_def)

lemma truncate_prefix: "prefix (truncate_utf8 s m) s"
  by (simp add: truncate_utf8_def take_is_prefix)

lemma truncate_valid: "utf8_valid s \<Longrightarrow> utf8_valid (truncate_utf8 s m)"
  by (simp add: truncate_utf8_def boundary_take back_off_boundary del: utf8_valid.simps)

lemma truncate_keeps: "utf8_valid s \<Longrightarrow> m < length s \<Longrightarrow> m \<le> length (truncate_utf8 s m) + 3"
  using boundary_near [of s m] back_off_max [of _ m s] back_off_le [of s m]
  by (fastforce simp: truncate_utf8_def)

section \<open>Escaping\<close>

lemma json_char_ne: "1 \<le> length (json_char c)"
  by (simp add: json_char_def)

lemma json_len_ge: "length s \<le> length (concat (map json_char s))"
proof (induction s)
  case (Cons c s)
  then show ?case using json_char_ne [of c] by simp
qed simp

lemma json_str_len: "length s + 2 \<le> length (json_str s)"
  using json_len_ge [of s] by (simp add: json_str_def)

text \<open>A reader of JSON string literals, for the escapes the writer uses.\<close>

fun json_read :: "string \<Rightarrow> (string \<times> string) option" where
  "json_read [] = None"
| "json_read (c # s) =
     (if c = CHR 0x22 then Some ([], s)
      else if code c < 0x20 then None
      else if c \<noteq> CHR 0x5C then map_option (\<lambda>(t, r). (c # t, r)) (json_read s)
      else case s of
        [] \<Rightarrow> None
      | e # s1 \<Rightarrow>
          if e = CHR 0x22 \<or> e = CHR 0x5C then map_option (\<lambda>(t, r). (e # t, r)) (json_read s1)
          else if e = CHR ''n'' then map_option (\<lambda>(t, r). (CHR 0x0A # t, r)) (json_read s1)
          else if e = CHR ''u'' then
            (case s1 of
               a # b # c1 # d # s2 \<Rightarrow>
                 (case (hex_digit a, hex_digit b, hex_digit c1, hex_digit d) of
                    (Some 0, Some 0, Some h, Some l) \<Rightarrow>
                      map_option (\<lambda>(t, r). (char_of (h * 16 + l) # t, r)) (json_read s2)
                  | _ \<Rightarrow> None)
             | _ \<Rightarrow> None)
          else None)"

definition json_unquote :: "string \<Rightarrow> (string \<times> string) option" where
  "json_unquote s = (case s of c # s' \<Rightarrow> if c = CHR 0x22 then json_read s' else None | [] \<Rightarrow> None)"

lemma pad_hex:
  assumes "n < 256"
  shows "pad_left 4 (show_hex n) = ''00'' @ [hex_char (n div 16), hex_char (n mod 16)]"
proof (cases "n < 16")
  case True
  have "replicate 3 (CHR ''0'') = ''000''" by (simp add: numeral_3_eq_3)
  moreover have "hex_char 0 = CHR ''0''" by code_simp
  ultimately show ?thesis using True by (simp add: pad_left_def show_hex_def)
next
  case False
  have "replicate 2 (CHR ''0'') = ''00''" by (simp add: numeral_2_eq_2)
  moreover have "n div 16 mod 16 = n div 16" using assms by (simp add: div_less_iff_less_mult)
  ultimately show ?thesis using False by (simp add: pad_left_def show_hex_def)
qed

lemma hex_0: "hex_digit (CHR ''0'') = Some 0"
  by code_simp

lemma json_read_char: "json_read (json_char c @ s) = map_option (\<lambda>(t, r). (c # t, r)) (json_read s)"
proof (cases "code c < 0x20 \<and> c \<noteq> CHR 0x0A")
  case True
  define h l where hl: "h = code c div 16" "l = code c mod 16"
  have d: "hex_digit (hex_char h) = Some h" "hex_digit (hex_char l) = Some l"
    using True by (simp_all add: hl hex_digit_char div_less_iff_less_mult)
  have v: "char_of (h * 16 + l) = c" unfolding hl div_mult_mod_eq by simp
  have "c \<noteq> CHR 0x22" "c \<noteq> CHR 0x5C" using True by auto
  then have "json_char c = [CHR 0x5C, CHR ''u'', CHR ''0'', CHR ''0'', hex_char h, hex_char l]"
    using True by (simp add: json_char_def pad_hex hl)
  moreover have "json_read (CHR 0x5C # CHR ''u'' # CHR ''0'' # CHR ''0'' # hex_char h # hex_char l # s)
      = map_option (\<lambda>(t, r). (c # t, r)) (json_read s)"
    by (subst json_read.simps) (simp add: d v hex_0 del: json_read.simps)
  ultimately show ?thesis by (simp del: json_read.simps)
next
  case False
  then consider "c = CHR 0x22" | "c = CHR 0x5C" | "c = CHR 0x0A"
    | "c \<noteq> CHR 0x22" "c \<noteq> CHR 0x5C" "c \<noteq> CHR 0x0A" "\<not> code c < 0x20"
    by blast
  then show ?thesis by cases (simp_all add: json_char_def)
qed

lemma json_read_body: "json_read (concat (map json_char s) @ CHR 0x22 # r) = Some (s, r)"
  by (induction s) (simp_all add: json_read_char del: json_read.simps(2), simp)

section \<open>The update status\<close>

abbreviation no_notes :: "ota_status \<Rightarrow> ota_status" where
  "no_notes s \<equiv> s\<lparr>o_notes := map_option (\<lambda>_. []) (o_notes s)\<rparr>"

lemma body_len:
  "length (ota_body (s\<lparr>o_notes := m\<rparr>)) + length (json_opt_str (o_notes s))
    = length (ota_body s) + length (json_opt_str m)"
  by (simp add: ota_body_def)

lemma notes_len: "length (json_opt_str (map_option (\<lambda>_. []) n)) \<le> length (json_opt_str n)"
  using json_str_len by (cases n) (auto simp: json_opt_str_def json_str_def)

lemma base_le: "length (ota_body (no_notes s)) \<le> length (ota_body s)"
  using body_len [of "map_option (\<lambda>_. []) (o_notes s)" s] notes_len [of "o_notes s"] by linarith

lemma base_trim: "no_notes (trim_notes s) = no_notes s"
  by (cases "o_notes s") (simp_all add: trim_notes_def)

definition notes_prefix :: "string option \<Rightarrow> string option \<Rightarrow> bool" where
  "notes_prefix m n \<longleftrightarrow> (case (m, n) of (None, None) \<Rightarrow> True | (Some a, Some b) \<Rightarrow> prefix a b | _ \<Rightarrow> False)"

lemma notes_prefix_trim: "notes_prefix m (o_notes (trim_notes s)) \<Longrightarrow> notes_prefix m (o_notes s)"
  using truncate_prefix
  by (cases "o_notes s"; cases m) (auto simp: notes_prefix_def trim_notes_def intro: prefix_order.trans)

definition ota_good :: "ota_status \<Rightarrow> string \<Rightarrow> bool" where
  "ota_good s b \<longleftrightarrow> length b \<le> MAX_ATTR_LEN
     \<and> (\<exists>m. notes_prefix m (o_notes s) \<and> b = ota_body (s\<lparr>o_notes := m\<rparr>))
     \<and> length (ota_body (no_notes s)) \<le> MAX_ATTR_LEN"

lemma ota_good_trim: "ota_good (trim_notes s) b \<Longrightarrow> ota_good s b"
proof -
  have e: "trim_notes s\<lparr>o_notes := m\<rparr> = s\<lparr>o_notes := m\<rparr>" for m by (simp add: trim_notes_def)
  assume "ota_good (trim_notes s) b"
  then show ?thesis
    unfolding ota_good_def base_trim e using notes_prefix_trim by blast
qed

lemma ota_good_body:
  assumes "length (ota_body s) \<le> MAX_ATTR_LEN"
  shows "ota_good s (ota_body s)"
proof -
  have "notes_prefix (o_notes s) (o_notes s)" by (simp add: notes_prefix_def split: option.split)
  moreover have "ota_body s = ota_body (s\<lparr>o_notes := o_notes s\<rparr>)" by simp
  ultimately show ?thesis using assms base_le [of s] unfolding ota_good_def by fastforce
qed

lemma ota_result: "ota_status_json s = Some b \<Longrightarrow> ota_good s b"
proof (rule ota_status_json.raw_induct [of ota_good])
  fix f s b
  assume "\<And>s b. f s = Some b \<Longrightarrow> ota_good s b"
    "(let body = ota_body s in if MAX_ATTR_LEN < length body then f (trim_notes s) else Some body) = Some b"
  then show "ota_good s b"
    using ota_good_trim ota_good_body by (auto simp: Let_def not_less split: if_splits)
qed

lemma ota_returns: "length (ota_body (no_notes s)) \<le> MAX_ATTR_LEN \<Longrightarrow> \<exists>b. ota_status_json s = Some b"
proof (induction "case o_notes s of None \<Rightarrow> 0 | Some n \<Rightarrow> length n" arbitrary: s rule: less_induct)
  case less
  show ?case
  proof (cases "MAX_ATTR_LEN < length (ota_body s)")
    case True
    have "\<exists>n. o_notes s = Some n \<and> n \<noteq> []"
    proof (rule ccontr)
      assume "\<not> ?thesis"
      then have "no_notes s = s" by (cases "o_notes s") auto
      then show False using True less.prems by simp
    qed
    then obtain n where n: "o_notes s = Some n" "n \<noteq> []" by blast
    have "length (truncate_utf8 n (length n - 64)) < length n"
      using truncate_len [of n "length n - 64"] n(2) by (cases n) auto
    then have "\<exists>b. ota_status_json (trim_notes s) = Some b"
      using less.hyps [of "trim_notes s"] less.prems n by (simp add: base_trim) (simp add: trim_notes_def)
    then show ?thesis using True by (subst ota_status_json.simps) (simp add: Let_def)
  next
    case False
    then show ?thesis by (subst ota_status_json.simps) (simp add: Let_def)
  qed
qed

section \<open>The event ring\<close>

definition ring_entry_ok :: "u32 \<times> string \<Rightarrow> bool" where
  "ring_entry_ok p \<longleftrightarrow> length (snd p) \<le> 48 \<and> utf8_valid (snd p)"

definition ring_inv :: "event_ring \<Rightarrow> bool" where
  "ring_inv r \<longleftrightarrow> length r \<le> CAPACITY \<and> list_all ring_entry_ok r"

interpretation ring: machine "[]" "\<lambda>r (t, e). ring_push r t e" "\<lambda>(t, e). utf8_valid e" ring_inv
proof
  show "ring_inv []" by (simp add: ring_inv_def)
  show "ring_inv (case p of (t, e) \<Rightarrow> ring_push r t e)"
    if "ring_inv r" "case p of (t, e) \<Rightarrow> utf8_valid e" for r p
    using that truncate_len truncate_valid
    by (cases p; cases r)
      (auto simp: ring_inv_def ring_push_def ring_entry_ok_def CAPACITY_def simp del: utf8_valid.simps)
qed

text \<open>The abstract queue: the last 24 events, their texts truncated.\<close>

definition last_events :: "(u32 \<times> string) list \<Rightarrow> event_ring" where
  "last_events es = drop (length es - CAPACITY) (map (\<lambda>(t, e). (t, truncate_utf8 e 48)) es)"

lemma ring_push_last: "ring_push (last_events es) t e = last_events (es @ [(t, e)])"
proof (cases "length es < CAPACITY")
  case True
  then show ?thesis by (auto simp: last_events_def ring_push_def)
next
  case False
  then have "length (last_events es) = CAPACITY" by (simp add: last_events_def)
  moreover have "Suc (length es) - CAPACITY = Suc (length es - CAPACITY)" using False by simp
  ultimately show ?thesis using False
    by (simp add: last_events_def ring_push_def) (simp add: CAPACITY_def)
qed

lemma ring_is_last: "run (\<lambda>r (t, e). ring_push r t e) [] es = last_events es"
proof (induction es rule: rev_induct)
  case Nil
  then show ?case by (simp add: last_events_def)
next
  case (snoc p es)
  then show ?case by (cases p) (simp add: run_snoc ring_push_last)
qed

lemma ring_json_spec:
  "\<exists>k. ring_json_from r skip = ring_body (drop k r) \<and> skip \<le> k
    \<and> (length (ring_json_from r skip) \<le> MAX_ATTR_LEN \<or> length r \<le> k)
    \<and> (\<forall>j. skip \<le> j \<longrightarrow> j < k \<longrightarrow> MAX_ATTR_LEN < length (ring_body (drop j r)))"
proof (induction r skip rule: ring_json_from.induct)
  case (1 r skip)
  show ?case
  proof (cases "length (ring_body (drop skip r)) \<le> MAX_ATTR_LEN \<or> length r \<le> skip")
    case True
    then have e: "ring_json_from r skip = ring_body (drop skip r)"
      by (subst ring_json_from.simps) (simp add: Let_def)
    show ?thesis using True unfolding e by (intro exI [of _ skip]) auto
  next
    case False
    then have e: "ring_json_from r skip = ring_json_from r (skip + 1)"
      by (subst ring_json_from.simps) (simp add: Let_def)
    from 1(1) [OF refl False] obtain k where k: "ring_json_from r (skip + 1) = ring_body (drop k r)"
      "skip + 1 \<le> k" "length (ring_json_from r (skip + 1)) \<le> MAX_ATTR_LEN \<or> length r \<le> k"
      "\<forall>j. skip + 1 \<le> j \<longrightarrow> j < k \<longrightarrow> MAX_ATTR_LEN < length (ring_body (drop j r))" by blast
    have "\<forall>j. skip \<le> j \<longrightarrow> j < k \<longrightarrow> MAX_ATTR_LEN < length (ring_body (drop j r))"
    proof (intro allI impI)
      fix j assume "skip \<le> j" "j < k"
      then show "MAX_ATTR_LEN < length (ring_body (drop j r))"
        using k(4) False by (cases "j = skip") auto
    qed
    then show ?thesis using k unfolding e by (intro exI [of _ k]) simp
  qed
qed

section \<open>Calibration\<close>

lemma calibration_spec:
  "\<exists>k\<le>length ps. calibration_json bs n m ps = calibration_body bs n m (take k ps)
    \<and> (length (calibration_json bs n m ps) \<le> MAX_ATTR_LEN \<or> k = 0)
    \<and> (\<forall>j\<le>length ps. k < j \<longrightarrow> MAX_ATTR_LEN < length (calibration_body bs n m (take j ps)))"
proof (induction bs n m ps rule: calibration_json.induct)
  case (1 bs n m ps)
  show ?case
  proof (cases "length (calibration_body bs n m ps) \<le> MAX_ATTR_LEN \<or> ps = []")
    case True
    then have e: "calibration_json bs n m ps = calibration_body bs n m ps"
      by (subst calibration_json.simps) (simp add: Let_def)
    show ?thesis using True unfolding e by (intro exI [of _ "length ps"]) auto
  next
    case False
    then have e: "calibration_json bs n m ps = calibration_json bs n m (butlast ps)"
      by (subst calibration_json.simps) (simp add: Let_def)
    have t: "take j (butlast ps) = take j ps" if "j < length ps" for j
      using that by (simp add: take_butlast)
    from 1 [OF refl False] obtain k where k: "k \<le> length (butlast ps)"
      "calibration_json bs n m (butlast ps) = calibration_body bs n m (take k (butlast ps))"
      "length (calibration_json bs n m (butlast ps)) \<le> MAX_ATTR_LEN \<or> k = 0"
      "\<forall>j\<le>length (butlast ps). k < j \<longrightarrow> MAX_ATTR_LEN < length (calibration_body bs n m (take j (butlast ps)))"
      by blast
    have "0 < length ps" using False by simp
    then have "k < length ps" using k(1) unfolding length_butlast by linarith
    moreover have "MAX_ATTR_LEN < length (calibration_body bs n m (take j ps))"
      if "j \<le> length ps" "k < j" for j
      using that k(4) t False by (cases "j = length ps") auto
    ultimately show ?thesis using k(2,3) t unfolding e by (intro exI [of _ k]) auto
  qed
qed

section \<open>Properties\<close>

lemma ota_status_returns_iff_facts:
  "(\<exists>b. ota_status_json s = Some b) \<longleftrightarrow> length (ota_body (no_notes s)) \<le> 512"
  "ota_status_json s = Some b \<Longrightarrow> length b \<le> 512
     \<and> (\<exists>m. notes_prefix m (o_notes s) \<and> b = ota_body (s\<lparr>o_notes := m\<rparr>))"
  using ota_returns [of s] ota_result [of s] by (auto simp: ota_good_def MAX_ATTR_LEN_def)

definition wit_ota :: ota_status where
  "wit_ota = \<lparr>o_state = OtaFailed, o_progress = 0, o_current = ''0.3.0'', o_available = None,
     o_notes = Some ''ok'', o_size = None, o_error = Some (replicate 500 (CHR ''x'')),
     o_last_check_uptime = None, o_last_check_ok = False\<rparr>"

text \<open>
  C34. The update status body is returned exactly when it fits the 512-byte attribute without its release
  notes: then it is the full body with a prefix of the notes, and at most 512 bytes. When
  the other fields alone are too long, the trimming recursion never ends.
\<close>

theorem ota_status_returns_iff:
  "((\<exists>b. ota_status_json s = Some b) \<longleftrightarrow> length (ota_body (no_notes s)) \<le> 512)
   \<and> (\<forall>b. ota_status_json s = Some b \<longrightarrow> length b \<le> 512
        \<and> (\<exists>m. notes_prefix m (o_notes s) \<and> b = ota_body (s\<lparr>o_notes := m\<rparr>)))"
  using ota_status_returns_iff_facts [of s] by blast

theorem ota_status_returns_iff_witness:
  "length (ota_body (no_notes (wit_ota\<lparr>o_error := None\<rparr>))) \<le> 512
   \<and> (\<exists>b. ota_status_json (wit_ota\<lparr>o_error := None\<rparr>) = Some b \<and> length b \<le> 512)"
proof -
  let ?s = "wit_ota\<lparr>o_error := None\<rparr>"
  have l: "length (ota_body (no_notes ?s)) \<le> 512" by code_simp
  then show ?thesis using ota_status_returns_iff [of ?s] by blast
qed

text \<open>A long error text makes the status body of the source recurse forever.\<close>

theorem long_error_never_returns: "ota_status_json wit_ota = None"
proof -
  have "length (ota_body (no_notes wit_ota)) + length (json_opt_str None)
      = length (ota_body (no_notes wit_ota\<lparr>o_error := None\<rparr>)) + length (json_opt_str (o_error wit_ota))"
    by (simp add: ota_body_def)
  moreover have "500 + 2 \<le> length (json_opt_str (o_error wit_ota))"
    using json_str_len [of "replicate 500 (CHR ''x'')"] by (simp add: json_opt_str_def wit_ota_def)
  moreover have "20 \<le> length (ota_body (no_notes wit_ota\<lparr>o_error := None\<rparr>))" by (simp add: ota_body_def)
  moreover have "length (json_opt_str None) = 4" by (simp add: json_opt_str_def)
  ultimately have "\<not> length (ota_body (no_notes wit_ota)) \<le> MAX_ATTR_LEN"
    unfolding MAX_ATTR_LEN_def by linarith
  then show ?thesis using ota_result [of wit_ota] by (cases "ota_status_json wit_ota") (auto simp: ota_good_def)
qed

lemma event_ring_refines_queue_facts:
  "run (\<lambda>r (t, e). ring_push r t e) [] es = last_events es"
  "length (ring_to_json r) \<le> 512"
  "\<exists>k. ring_to_json r = ring_body (drop k r)
     \<and> (\<forall>j. j < k \<longrightarrow> 512 < length (ring_body (drop j r)))"
proof -
  show "run (\<lambda>r (t, e). ring_push r t e) [] es = last_events es" by (rule ring_is_last)
  obtain k where k: "ring_to_json r = ring_body (drop k r)"
    "length (ring_to_json r) \<le> MAX_ATTR_LEN \<or> length r \<le> k"
    "\<forall>j. j < k \<longrightarrow> MAX_ATTR_LEN < length (ring_body (drop j r))"
    using ring_json_spec [of r 0] by (auto simp: ring_to_json_def)
  have "length (ring_body []) \<le> 512" by (simp add: ring_body_def)
  then show "length (ring_to_json r) \<le> 512"
    using k by (cases "length r \<le> k") (auto simp: MAX_ATTR_LEN_def)
  show "\<exists>k. ring_to_json r = ring_body (drop k r)
     \<and> (\<forall>j. j < k \<longrightarrow> 512 < length (ring_body (drop j r)))"
    using k(1,3) by (auto simp: MAX_ATTR_LEN_def)
qed

text \<open>
  C35. The event ring is the queue of the last 24 events, texts cut to 48 bytes on a character
  boundary; its JSON body is always returned, is at most 512 bytes, and drops as few of the
  oldest events as that takes.
\<close>

theorem event_ring_refines_queue:
  "run (\<lambda>r (t, e). ring_push r t e) [] es = last_events es
   \<and> length (ring_to_json r) \<le> 512
   \<and> (\<exists>k. ring_to_json r = ring_body (drop k r)
        \<and> (\<forall>j. j < k \<longrightarrow> 512 < length (ring_body (drop j r))))"
  using event_ring_refines_queue_facts(1) [of es] event_ring_refines_queue_facts(2,3) [of r] by blast

theorem event_ring_refines_queue_witness:
  "run (\<lambda>r (t, e). ring_push r t e) [] [(1, ''a''), (2, ''b'')] = last_events [(1, ''a''), (2, ''b'')]
   \<and> length (ring_to_json [(1, ''a''), (2, ''b'')]) \<le> 512"
  using event_ring_refines_queue [of "[(1, ''a''), (2, ''b'')]" "[(1, ''a''), (2, ''b'')]"]
  by blast

text \<open>
  No text escapes its JSON string: reading the literal written for any text, whatever follows,
  gives back the text and leaves what follows.
\<close>

lemma json_string_roundtrip: "json_unquote (json_str s @ r) = Some (s, r)"
  by (simp add: json_unquote_def json_str_def json_read_body del: json_read.simps)

lemma truncation_sound_facts:
  assumes "utf8_valid s"
  shows "prefix (truncate_utf8 s m) s" and "length (truncate_utf8 s m) \<le> m"
    and "utf8_valid (truncate_utf8 s m)" and "min m (length s) \<le> length (truncate_utf8 s m) + 3"
proof -
  show "prefix (truncate_utf8 s m) s" by (rule truncate_prefix)
  show "length (truncate_utf8 s m) \<le> m" by (rule truncate_len)
  show "utf8_valid (truncate_utf8 s m)" by (rule truncate_valid [OF assms])
  show "min m (length s) \<le> length (truncate_utf8 s m) + 3"
    using truncate_keeps [OF assms, of m] by (cases "length s \<le> m") (simp_all add: truncate_utf8_def)
qed

text \<open>
  Truncation: the result is a prefix of at most the limit, valid UTF-8 when the text was,
  and loses at most three bytes more than the limit demands.
\<close>

lemma truncation_sound:
  assumes "utf8_valid s"
  shows "prefix (truncate_utf8 s m) s \<and> length (truncate_utf8 s m) \<le> m
    \<and> utf8_valid (truncate_utf8 s m) \<and> min m (length s) \<le> length (truncate_utf8 s m) + 3"
  using truncation_sound_facts [OF assms] by blast

lemma truncation_sound_witness:
  "utf8_valid ''caf'' \<and> utf8_valid (truncate_utf8 [CHR 0x61, CHR 0xE2, CHR 0x86, CHR 0x92] 2)
   \<and> prefix (truncate_utf8 [CHR 0x61, CHR 0xE2, CHR 0x86, CHR 0x92] 2) [CHR 0x61, CHR 0xE2, CHR 0x86, CHR 0x92]"
proof -
  have h: "utf8_valid [CHR 0x61, CHR 0xE2, CHR 0x86, CHR 0x92]" "utf8_valid ''caf''" by code_simp+
  from truncation_sound [OF h(1), of 2] h(2) show ?thesis by blast
qed

text \<open>
  The calibration body drops peaks from the weakest end, as few as it takes to fit 512
  bytes, and always returns.
\<close>

lemma calibration_drops_weakest:
  "\<exists>k\<le>length ps. calibration_json bs n m ps = calibration_body bs n m (take k ps)
    \<and> (length (calibration_json bs n m ps) \<le> 512 \<or> k = 0)
    \<and> (\<forall>j\<le>length ps. k < j \<longrightarrow> 512 < length (calibration_body bs n m (take j ps)))"
  using calibration_spec [of ps bs n m] by (simp add: MAX_ATTR_LEN_def)

lemma calibration_drops_weakest_witness:
  "calibration_json None 0 0 [] = calibration_body None 0 0 []"
  using calibration_drops_weakest [of "[]" None 0 0] by simp

text \<open>The settings body is not trimmed: a long update URL overflows the attribute.\<close>

theorem settings_not_trimmed:
  "512 < length (settings_json \<lparr>st_brightness_idx = 0, st_brightness_steps = [], st_boot_policy = 0,
     st_manifest_url = ''https://'' @ replicate 490 (CHR ''a''), st_manifest_url_is_default = False,
     st_wifi_ssid = None\<rparr>)"
proof -
  have "length (''https://'' @ replicate 490 (CHR ''a'')) + 2
      \<le> length (json_str (''https://'' @ replicate 490 (CHR ''a'')))" by (rule json_str_len)
  then show ?thesis by (simp add: settings_json_def)
qed

end
