(* ===== verification/Ble_Server.thy ===== *)
theory Ble_Server
  imports Ble_Json
begin

text \<open>
  The BLE GATT server, \<open>esp32/src/ble.rs\<close>: the attribute table, the service built one
  characteristic at a time, connections and subscriptions, attribute writes and
  notifications, and the dispatch of writes into the two bounded queues to the main loop. The
  Bluedroid stack is ESP-IDF's: a record \<open>bt\<close> of operations on its state \<open>'b\<close>, and a
  list \<open>bs_calls\<close> of the calls made to it. A handler returns whether it ended without an error.
  Log lines are left out. Handles, connections, interfaces and addresses are numbers.
\<close>

section \<open>The attribute table\<close>

definition APP_ID :: u16 where "APP_ID = 0"
definition MAX_CONNECTIONS :: nat where "MAX_CONNECTIONS = 2"
definition SERVICE_HANDLES :: u16 where "SERVICE_HANDLES = 48"

datatype attr = Live | DeviceInfo | BlackBox | Calibration | Hist0 | Hist1 | Events
  | Command | WifiConfig | WifiStatus | OtaStatus | Settings

record char_def =
  cd_attr :: attr
  cd_slot :: u16
  cd_read :: bool
  cd_write :: bool
  cd_notify :: bool
  cd_encrypted :: bool
  cd_max_len :: nat

definition readable :: "attr \<Rightarrow> u16 \<Rightarrow> bool \<Rightarrow> nat \<Rightarrow> char_def" where
  "readable a slot notify len = \<lparr>cd_attr = a, cd_slot = slot, cd_read = True, cd_write = False,
     cd_notify = notify, cd_encrypted = False, cd_max_len = len\<rparr>"

definition writable :: "attr \<Rightarrow> u16 \<Rightarrow> nat \<Rightarrow> char_def" where
  "writable a slot len = \<lparr>cd_attr = a, cd_slot = slot, cd_read = False, cd_write = True,
     cd_notify = False, cd_encrypted = True, cd_max_len = len\<rparr>"

definition LIVE_LEN :: nat where "LIVE_LEN = 20"

definition CHARS :: "char_def list" where
  "CHARS =
     [readable Live SLOT_LIVE True LIVE_LEN,
      readable DeviceInfo SLOT_DEVICE_INFO False MAX_ATTR_LEN,
      readable BlackBox SLOT_BLACK_BOX False MAX_ATTR_LEN,
      readable Calibration SLOT_CALIBRATION False MAX_ATTR_LEN,
      readable Hist0 SLOT_HIST_0 False MAX_ATTR_LEN,
      readable Hist1 SLOT_HIST_1 False MAX_ATTR_LEN,
      readable Events SLOT_EVENTS False MAX_ATTR_LEN,
      writable Command SLOT_COMMAND 256,
      writable WifiConfig SLOT_WIFI_CONFIG 128,
      readable WifiStatus SLOT_WIFI_STATUS True MAX_ATTR_LEN,
      readable OtaStatus SLOT_OTA_STATUS True MAX_ATTR_LEN,
      readable Settings SLOT_SETTINGS False MAX_ATTR_LEN]"

fun char_index :: "attr \<Rightarrow> nat" where
  "char_index Live = 0"
| "char_index DeviceInfo = 1"
| "char_index BlackBox = 2"
| "char_index Calibration = 3"
| "char_index Hist0 = 4"
| "char_index Hist1 = 5"
| "char_index Events = 6"
| "char_index Command = 7"
| "char_index WifiConfig = 8"
| "char_index WifiStatus = 9"
| "char_index OtaStatus = 10"
| "char_index Settings = 11"

section \<open>State\<close>

record connection =
  c_peer :: nat
  c_id :: nat
  c_subscribed :: u16
  c_mtu :: u16

datatype permission = PermRead | PermWrite | PermWriteEncrypted
datatype property = PropRead | PropWrite | PropNotify

text \<open>The calls into the stack.\<close>

datatype gatt_call =
    StartAdvertising
  | SetDeviceName string
  | SetAdvConf bool
  | CreateService nat "128 word" u16
  | StartService nat
  | AddCharacteristic nat "128 word" "permission list" "property list" nat
  | AddDescriptor nat u16 "permission list"
  | SetConnParams nat nat nat nat nat
  | SecurityRsp nat
  | SetAttr nat "u8 list"
  | NotifyPeer nat nat nat "u8 list"
  | SendResponse nat nat nat "(nat \<times> u8 list) option"

record 'b bt_stack =
  bt_call :: "gatt_call \<Rightarrow> 'b \<Rightarrow> bool \<times> 'b"
  bt_get_attr :: "nat \<Rightarrow> nat \<Rightarrow> 'b \<Rightarrow> u8 list option"

record 'b server =
  bs_stack :: 'b
  bs_calls :: "gatt_call list"
  bs_gatt_if :: "nat option"
  bs_service :: "nat option"
  bs_handles :: "nat option list"
  bs_cccd :: "nat option list"
  bs_pending :: nat
  bs_ready :: bool
  bs_adv_parts :: u8
  bs_conns :: "connection list"
  bs_cmds :: "command list"
  bs_wifi :: "wifi_credentials list"

definition CMD_QUEUE :: nat where "CMD_QUEUE = 8"
definition WIFI_QUEUE :: nat where "WIFI_QUEUE = 2"

definition new_server :: "'b \<Rightarrow> 'b server" where
  "new_server b = \<lparr>bs_stack = b, bs_calls = [], bs_gatt_if = None, bs_service = None,
     bs_handles = replicate (length CHARS) None, bs_cccd = replicate (length CHARS) None,
     bs_pending = 0, bs_ready = False, bs_adv_parts = 0, bs_conns = [], bs_cmds = [], bs_wifi = []\<rparr>"

definition bcall :: "'b bt_stack \<Rightarrow> gatt_call \<Rightarrow> 'b server \<Rightarrow> bool \<times> 'b server" where
  "bcall bt c s = (case bt_call bt c (bs_stack s) of
     (ok, b) \<Rightarrow> (ok, s\<lparr>bs_stack := b, bs_calls := bs_calls s @ [c]\<rparr>))"

text \<open>Rust's \<open>?\<close> on a unit result.\<close>

definition and_then :: "bool \<times> 's \<Rightarrow> ('s \<Rightarrow> bool \<times> 's) \<Rightarrow> bool \<times> 's" where
  "and_then p f = (case p of (True, s) \<Rightarrow> f s | (False, s) \<Rightarrow> (False, s))"

primrec bcalls :: "'b bt_stack \<Rightarrow> gatt_call list \<Rightarrow> 'b server \<Rightarrow> bool \<times> 'b server" where
  "bcalls bt [] s = (True, s)"
| "bcalls bt (c # cs) s = and_then (bcall bt c s) (bcalls bt cs)"

text \<open>The index of the first element that equals a value.\<close>

fun position :: "'a \<Rightarrow> 'a list \<Rightarrow> nat option" where
  "position x [] = None"
| "position x (y # ys) = (if y = x then Some 0 else map_option Suc (position x ys))"

text \<open>Updating the first connection with an identifier.\<close>

fun upd_conn :: "nat \<Rightarrow> (connection \<Rightarrow> connection) \<Rightarrow> connection list \<Rightarrow> connection list" where
  "upd_conn i f [] = []"
| "upd_conn i f (c # cs) = (if c_id c = i then f c # cs else c # upd_conn i f cs)"

definition subscribed_to :: "connection \<Rightarrow> nat \<Rightarrow> bool" where
  "subscribed_to c i \<longleftrightarrow> c_subscribed c AND push_bit i 1 \<noteq> 0"

section \<open>What the main loop calls\<close>

definition publish :: "'b bt_stack \<Rightarrow> attr \<Rightarrow> u8 list \<Rightarrow> 'b server \<Rightarrow> 'b server" where
  "publish bt a v s =
     (if \<not> bs_ready s then s
      else case bs_handles s ! char_index a of
        Some h \<Rightarrow> snd (bcall bt (SetAttr h (take (cd_max_len (CHARS ! char_index a)) v)) s)
      | None \<Rightarrow> s)"

definition notify_calls :: "attr \<Rightarrow> u8 list \<Rightarrow> 'b server \<Rightarrow> gatt_call list" where
  "notify_calls a v s =
     (case (bs_gatt_if s, bs_handles s ! char_index a) of
        (Some gi, Some h) \<Rightarrow>
          map (\<lambda>c. NotifyPeer gi (c_id c) h (take (max (unat (c_mtu c) - 3) 20) v))
            (filter (\<lambda>c. subscribed_to c (char_index a)) (bs_conns s))
      | _ \<Rightarrow> [])"

text \<open>A failed notification is only logged, so all of them are sent.\<close>

definition notify :: "'b bt_stack \<Rightarrow> attr \<Rightarrow> u8 list \<Rightarrow> 'b server \<Rightarrow> 'b server" where
  "notify bt a v s =
     (let s1 = publish bt a v s
      in foldl (\<lambda>s c. snd (bcall bt c s)) s1 (notify_calls a v s1))"

definition connections :: "'b server \<Rightarrow> u8" where
  "connections s = of_nat (length (bs_conns s))"

definition live_subscribed :: "'b server \<Rightarrow> bool" where
  "live_subscribed s \<longleftrightarrow> list_ex (\<lambda>c. subscribed_to c (char_index Live)) (bs_conns s)"

section \<open>GAP events\<close>

datatype gap_event = AdvertisingConfigured bool | ScanResponseConfigured bool | SecurityRequest | OtherGap

definition on_gap_event :: "'b bt_stack \<Rightarrow> gap_event \<Rightarrow> 'b server \<Rightarrow> bool \<times> 'b server" where
  "on_gap_event bt v s =
     (let configured = (\<lambda>ok. if \<not> ok then (False, s)
            else let s1 = s\<lparr>bs_adv_parts := bs_adv_parts s + 1\<rparr>
              in if bs_adv_parts s1 = 2 then bcall bt StartAdvertising s1 else (True, s1))
      in case v of
           AdvertisingConfigured ok \<Rightarrow> configured ok
         | ScanResponseConfigured ok \<Rightarrow> configured ok
         | SecurityRequest \<Rightarrow> bcalls bt (map (\<lambda>c. SecurityRsp (c_peer c)) (bs_conns s)) s
         | OtherGap \<Rightarrow> (True, s))"

section \<open>Building the service\<close>

definition create_service :: "'b bt_stack \<Rightarrow> nat \<Rightarrow> 'b server \<Rightarrow> bool \<times> 'b server" where
  "create_service bt gi s =
     bcalls bt [SetDeviceName DEVICE_NAME, SetAdvConf False, SetAdvConf True,
       CreateService gi (uuid SLOT_SERVICE) SERVICE_HANDLES] (s\<lparr>bs_gatt_if := Some gi\<rparr>)"

definition char_call :: "nat \<Rightarrow> char_def \<Rightarrow> gatt_call" where
  "char_call sh d = AddCharacteristic sh (uuid (cd_slot d))
     ((if cd_read d then [PermRead] else [])
       @ (if cd_write d then [if cd_encrypted d then PermWriteEncrypted else PermWrite] else []))
     ((if cd_read d then [PropRead] else []) @ (if cd_write d then [PropWrite] else [])
       @ (if cd_notify d then [PropNotify] else []))
     (cd_max_len d)"

definition add_char :: "'b bt_stack \<Rightarrow> nat \<Rightarrow> nat \<Rightarrow> 'b server \<Rightarrow> bool \<times> 'b server" where
  "add_char bt sh i s = bcall bt (char_call sh (CHARS ! i)) (s\<lparr>bs_pending := i\<rparr>)"

definition advance :: "'b bt_stack \<Rightarrow> nat \<Rightarrow> nat \<Rightarrow> 'b server \<Rightarrow> bool \<times> 'b server" where
  "advance bt sh done_idx s =
     (if done_idx + 1 < length CHARS then add_char bt sh (done_idx + 1) s else (True, s\<lparr>bs_ready := True\<rparr>))"

section \<open>Writes\<close>

text \<open>\<open>try_send\<close> on a bounded channel: a full queue drops the value.\<close>

definition try_send :: "nat \<Rightarrow> 'a \<Rightarrow> 'a list \<Rightarrow> 'a list" where
  "try_send cap x q = (if length q < cap then q @ [x] else q)"

definition enqueue :: "attr \<Rightarrow> u8 list \<Rightarrow> 'b server \<Rightarrow> 'b server" where
  "enqueue a v s =
     (case a of
        Command \<Rightarrow> (case command_decode v of
            Some c \<Rightarrow> s\<lparr>bs_cmds := try_send CMD_QUEUE c (bs_cmds s)\<rparr> | None \<Rightarrow> s)
      | WifiConfig \<Rightarrow> (case wifi_decode v of
            Some c \<Rightarrow> s\<lparr>bs_wifi := try_send WIFI_QUEUE c (bs_wifi s)\<rparr> | None \<Rightarrow> s)
      | _ \<Rightarrow> s)"

definition dispatch_write :: "'b bt_stack \<Rightarrow> attr \<Rightarrow> u8 list \<Rightarrow> 'b server \<Rightarrow> 'b server" where
  "dispatch_write bt a v s =
     (let s1 = enqueue a v s
      in case bs_handles s1 ! char_index a of
           Some h \<Rightarrow> snd (bcall bt (SetAttr h []) s1)
         | None \<Rightarrow> s1)"

record write_req =
  wr_gatt_if :: nat
  wr_conn :: nat
  wr_trans :: nat
  wr_handle :: nat
  wr_offset :: u16
  wr_need_rsp :: bool

definition set_subscription :: "nat \<Rightarrow> bool \<Rightarrow> connection \<Rightarrow> connection" where
  "set_subscription i on c = c\<lparr>c_subscribed :=
     (if on then c_subscribed c OR push_bit i 1 else c_subscribed c AND NOT (push_bit i 1))\<rparr>"

definition on_write :: "'b bt_stack \<Rightarrow> write_req \<Rightarrow> u8 list \<Rightarrow> 'b server \<Rightarrow> 'b server" where
  "on_write bt q v s =
     (case position (Some (wr_handle q)) (bs_cccd s) of
        Some i \<Rightarrow>
          let s1 = (if wr_offset q = 0 \<and> length v = 2
                then s\<lparr>bs_conns := upd_conn (wr_conn q) (set_subscription i (v ! 0 AND 1 \<noteq> 0)) (bs_conns s)\<rparr>
                else s)
          in if wr_need_rsp q
             then snd (bcall bt (SendResponse (wr_gatt_if q) (wr_conn q) (wr_trans q) None) s1)
             else s1
      | None \<Rightarrow>
          (case position (Some (wr_handle q)) (bs_handles s) of
             Some i \<Rightarrow> let a = cd_attr (CHARS ! i) in
               if (a = Command \<or> a = WifiConfig) \<and> wr_offset q = 0 then dispatch_write bt a v s else s
           | None \<Rightarrow> s))"

section \<open>GATT events\<close>

datatype gatts_event =
    ServiceRegistered bool u16
  | ServiceCreated bool nat
  | CharacteristicAdded bool nat nat
  | DescriptorAdded bool nat nat
  | Mtu nat u16
  | PeerConnected nat nat
  | PeerDisconnected nat
  | Write write_req bool "u8 list"
  | Read nat nat nat bool
  | ExecWrite bool
  | OtherGatts

definition peer_connected :: "'b bt_stack \<Rightarrow> nat \<Rightarrow> nat \<Rightarrow> 'b server \<Rightarrow> bool \<times> 'b server" where
  "peer_connected bt conn addr s =
     (if length (bs_conns s) < MAX_CONNECTIONS
      then bcall bt (SetConnParams addr 30 45 0 4000)
        (s\<lparr>bs_conns := bs_conns s @ [\<lparr>c_peer = addr, c_id = conn, c_subscribed = 0, c_mtu = 23\<rparr>]\<rparr>)
      else (True, s))"

definition read_cccd :: "'b bt_stack \<Rightarrow> nat \<Rightarrow> nat \<Rightarrow> nat \<Rightarrow> nat \<Rightarrow> 'b server \<Rightarrow> bool \<times> 'b server" where
  "read_cccd bt gi conn tid h s =
     (case position (Some h) (bs_cccd s) of
        None \<Rightarrow> (True, s)
      | Some i \<Rightarrow>
          let on = (case find (\<lambda>c. c_id c = conn) (bs_conns s) of
                Some c \<Rightarrow> subscribed_to c i | None \<Rightarrow> False)
          in bcall bt (SendResponse gi conn tid (Some (h, [if on then 1 else 0, 0]))) s)"

text \<open>A long write: the stack has assembled the value, which is read back and dispatched.\<close>

definition exec_write :: "'b bt_stack \<Rightarrow> attr \<Rightarrow> 'b server \<Rightarrow> 'b server" where
  "exec_write bt a s =
     (case bs_handles s ! char_index a of
        None \<Rightarrow> s
      | Some h \<Rightarrow>
          (case bt_get_attr bt h 256 (bs_stack s) of
             Some v \<Rightarrow> if v \<noteq> [] then dispatch_write bt a v s else s
           | None \<Rightarrow> s))"

definition characteristic_added :: "'b bt_stack \<Rightarrow> nat \<Rightarrow> nat \<Rightarrow> 'b server \<Rightarrow> bool \<times> 'b server" where
  "characteristic_added bt ah sh s =
     (let i = bs_pending s;
          s1 = s\<lparr>bs_handles := (bs_handles s)[i := Some ah]\<rparr>
      in if cd_notify (CHARS ! i) then bcall bt (AddDescriptor sh 0x2902 [PermRead, PermWrite]) s1
         else advance bt sh i s1)"

definition descriptor_added :: "'b bt_stack \<Rightarrow> nat \<Rightarrow> nat \<Rightarrow> 'b server \<Rightarrow> bool \<times> 'b server" where
  "descriptor_added bt ah sh s =
     (let i = bs_pending s in advance bt sh i (s\<lparr>bs_cccd := (bs_cccd s)[i := Some ah]\<rparr>))"

fun on_gatts_event :: "'b bt_stack \<Rightarrow> nat \<Rightarrow> gatts_event \<Rightarrow> 'b server \<Rightarrow> bool \<times> 'b server" where
  "on_gatts_event bt gi (ServiceRegistered ok app) s =
     (if \<not> ok then (False, s) else if app = APP_ID then create_service bt gi s else (True, s))"
| "on_gatts_event bt gi (ServiceCreated ok sh) s =
     (if \<not> ok then (False, s)
      else and_then (bcall bt (StartService sh) (s\<lparr>bs_service := Some sh\<rparr>)) (add_char bt sh 0))"
| "on_gatts_event bt gi (CharacteristicAdded ok ah sh) s =
     (if \<not> ok then (False, s) else characteristic_added bt ah sh s)"
| "on_gatts_event bt gi (DescriptorAdded ok ah sh) s =
     (if \<not> ok then (False, s) else descriptor_added bt ah sh s)"
| "on_gatts_event bt gi (Mtu conn mtu) s =
     (True, s\<lparr>bs_conns := upd_conn conn (\<lambda>c. c\<lparr>c_mtu := mtu\<rparr>) (bs_conns s)\<rparr>)"
| "on_gatts_event bt gi (PeerConnected conn addr) s = peer_connected bt conn addr s"
| "on_gatts_event bt gi (PeerDisconnected addr) s =
     bcall bt StartAdvertising (s\<lparr>bs_conns := filter (\<lambda>c. c_peer c \<noteq> addr) (bs_conns s)\<rparr>)"
| "on_gatts_event bt gi (Write q is_prep v) s = (True, if is_prep then s else on_write bt q v s)"
| "on_gatts_event bt gi (Read conn tid h need_rsp) s =
     (if need_rsp then read_cccd bt gi conn tid h s else (True, s))"
| "on_gatts_event bt gi (ExecWrite canceled) s =
     (True, if canceled then s else exec_write bt WifiConfig (exec_write bt Command s))"
| "on_gatts_event bt gi OtherGatts s = (True, s)"

section \<open>Runs\<close>

text \<open>
  What can happen to the server: events of the stack, calls of the main loop, the main loop
  taking from a queue, and the stack's own state changing in between.
\<close>

datatype 'b server_event = Gap gap_event | Gatts nat gatts_event | Publish attr "u8 list"
  | Notify attr "u8 list" | TakeCommand | TakeWifi | StackMoves 'b

fun server_step :: "'b bt_stack \<Rightarrow> 'b server \<Rightarrow> 'b server_event \<Rightarrow> 'b server" where
  "server_step bt s (Gap v) = snd (on_gap_event bt v s)"
| "server_step bt s (Gatts gi v) = snd (on_gatts_event bt gi v s)"
| "server_step bt s (Publish a v) = publish bt a v s"
| "server_step bt s (Notify a v) = notify bt a v s"
| "server_step bt s TakeCommand = s\<lparr>bs_cmds := drop 1 (bs_cmds s)\<rparr>"
| "server_step bt s TakeWifi = s\<lparr>bs_wifi := drop 1 (bs_wifi s)\<rparr>"
| "server_step bt s (StackMoves b) = s\<lparr>bs_stack := b\<rparr>"

lemmas server_defs [model_defs] = APP_ID_def MAX_CONNECTIONS_def SERVICE_HANDLES_def readable_def
  writable_def LIVE_LEN_def CHARS_def CMD_QUEUE_def WIFI_QUEUE_def new_server_def bcall_def
  and_then_def subscribed_to_def publish_def notify_calls_def notify_def connections_def
  live_subscribed_def on_gap_event_def create_service_def char_call_def add_char_def advance_def
  try_send_def enqueue_def dispatch_write_def set_subscription_def on_write_def peer_connected_def
  read_cccd_def exec_write_def characteristic_added_def descriptor_added_def

section \<open>The table\<close>

lemma length_CHARS [simp]: "length CHARS = 12"
  by (simp add: CHARS_def)

lemma char_index_lt [simp]: "char_index a < 12"
  by (cases a) simp_all

text \<open>The compile-time assertion of the source: the table is in \<open>char_index\<close> order.\<close>

lemma chars_in_order: "i < 12 \<Longrightarrow> char_index (cd_attr (CHARS ! i)) = i"
proof -
  have "\<forall>i\<in>set [0..<12]. char_index (cd_attr (CHARS ! i)) = i" by code_simp
  then show "i < 12 \<Longrightarrow> ?thesis" by simp
qed

lemma attr_at [simp]: "cd_attr (CHARS ! char_index a) = a"
  by (cases a) (simp_all add: CHARS_def readable_def writable_def)

lemma position_Some: "position x xs = Some i \<Longrightarrow> i < length xs \<and> xs ! i = x"
  by (induction xs arbitrary: i) (auto split: if_splits)

lemma position_None: "position x xs = None \<longleftrightarrow> x \<notin> set xs"
  by (induction xs) auto

section \<open>Well-formedness\<close>

definition server_ok :: "'b server \<Rightarrow> bool" where
  "server_ok s \<longleftrightarrow> length (bs_handles s) = 12 \<and> length (bs_cccd s) = 12 \<and> bs_pending s < 12
     \<and> length (bs_conns s) \<le> MAX_CONNECTIONS
     \<and> length (bs_cmds s) \<le> CMD_QUEUE \<and> list_all command_ok (bs_cmds s)
     \<and> length (bs_wifi s) \<le> WIFI_QUEUE \<and> list_all wifi_ok (bs_wifi s)"

text \<open>A call leaves everything but the stack and the log alone.\<close>

lemma bcall_ok [simp]: "server_ok (snd (bcall bt c s)) = server_ok s"
  by (simp add: bcall_def server_ok_def case_prod_beta)

lemma and_then_keeps: "g (snd p) = y \<Longrightarrow> (\<And>s. g s = y \<Longrightarrow> g (snd (f s)) = y) \<Longrightarrow> g (snd (and_then p f)) = y"
  by (cases p; cases "fst p") (auto simp: and_then_def)

lemma bcalls_ok [simp]: "server_ok (snd (bcalls bt cs s)) = server_ok s"
proof (induction cs arbitrary: s)
  case (Cons c cs)
  show ?case unfolding bcalls.simps by (rule and_then_keeps) (simp_all add: Cons.IH)
qed simp

lemma upd_conn_len [simp]: "length (upd_conn i f cs) = length cs"
  by (induction cs) auto

lemma try_send_ok:
  "length q \<le> cap \<Longrightarrow> list_all P q \<Longrightarrow> P x \<Longrightarrow> length (try_send cap x q) \<le> cap \<and> list_all P (try_send cap x q)"
  by (auto simp: try_send_def)

lemma publish_ok [simp]: "server_ok (publish bt a v s) = server_ok s"
  by (simp add: publish_def split: option.split)

lemma foldl_calls_ok [simp]: "server_ok (foldl (\<lambda>s c. snd (bcall bt c s)) s cs) = server_ok s"
  by (induction cs arbitrary: s) simp_all

lemma notify_ok [simp]: "server_ok (notify bt a v s) = server_ok s"
  by (simp add: notify_def Let_def)

lemma decoded_ok:
  "command_decode v = Some c \<Longrightarrow> command_ok c" "wifi_decode v = Some w \<Longrightarrow> wifi_ok w"
  using commands_decoded_facts(2) wifi_credentials_roundtrip_facts(2) by blast+

lemma enqueue_ok: "server_ok s \<Longrightarrow> server_ok (enqueue a v s)"
  using try_send_ok [where P = command_ok] try_send_ok [where P = wifi_ok] decoded_ok
  by (auto simp: enqueue_def server_ok_def split: attr.split option.split)

lemma dispatch_ok: "server_ok s \<Longrightarrow> server_ok (dispatch_write bt a v s)"
  by (simp add: dispatch_write_def Let_def enqueue_ok split: option.split)

lemma on_write_ok: "server_ok s \<Longrightarrow> server_ok (on_write bt q v s)"
  by (auto simp: on_write_def Let_def dispatch_ok server_ok_def [of "s\<lparr>bs_conns := cs\<rparr>" for cs] split: option.split)
    (simp_all add: server_ok_def)

lemma add_char_ok: "server_ok s \<Longrightarrow> i < 12 \<Longrightarrow> server_ok (snd (add_char bt sh i s))"
  by (simp add: add_char_def) (simp add: server_ok_def)

lemma advance_ok: "server_ok s \<Longrightarrow> server_ok (snd (advance bt sh i s))"
  by (simp add: advance_def add_char_ok) (simp add: server_ok_def)

lemma characteristic_added_ok: "server_ok s \<Longrightarrow> server_ok (snd (characteristic_added bt ah sh s))"
proof -
  assume "server_ok s"
  then have "server_ok (s\<lparr>bs_handles := (bs_handles s)[bs_pending s := Some ah]\<rparr>)" by (simp add: server_ok_def)
  then show ?thesis by (simp add: characteristic_added_def Let_def advance_ok)
qed

lemma descriptor_added_ok: "server_ok s \<Longrightarrow> server_ok (snd (descriptor_added bt ah sh s))"
  by (simp add: descriptor_added_def Let_def) (rule advance_ok, simp add: server_ok_def)

lemma exec_write_ok: "server_ok s \<Longrightarrow> server_ok (exec_write bt a s)"
  by (simp add: exec_write_def dispatch_ok split: option.split)

lemma field_ok:
  "server_ok s \<Longrightarrow> server_ok (s\<lparr>bs_adv_parts := n\<rparr>)" "server_ok s \<Longrightarrow> server_ok (s\<lparr>bs_stack := b\<rparr>)"
  "server_ok s \<Longrightarrow> server_ok (s\<lparr>bs_gatt_if := gi\<rparr>)" "server_ok s \<Longrightarrow> server_ok (s\<lparr>bs_service := so\<rparr>)"
  "server_ok s \<Longrightarrow> length cs \<le> length (bs_conns s) \<Longrightarrow> server_ok (s\<lparr>bs_conns := cs\<rparr>)"
  "server_ok s \<Longrightarrow> length (bs_conns s) < MAX_CONNECTIONS \<Longrightarrow> server_ok (s\<lparr>bs_conns := bs_conns s @ [c]\<rparr>)"
  "server_ok s \<Longrightarrow> server_ok (s\<lparr>bs_cmds := drop (Suc 0) (bs_cmds s)\<rparr>)"
  "server_ok s \<Longrightarrow> server_ok (s\<lparr>bs_wifi := drop (Suc 0) (bs_wifi s)\<rparr>)"
  by (auto simp: server_ok_def list_all_iff dest: in_set_dropD)

lemma service_created_ok:
  assumes "server_ok s"
  shows "server_ok (snd (and_then (bcall bt c s) (add_char bt sh 0)))"
  using assms bcall_ok [of bt c s]
  by (cases "bcall bt c s"; cases "fst (bcall bt c s)") (simp_all add: and_then_def add_char_ok)

lemma gatts_ok: "server_ok s \<Longrightarrow> server_ok (snd (on_gatts_event bt gi v s))"
  by (cases v)
    (auto simp: create_service_def characteristic_added_ok descriptor_added_ok peer_connected_def
      on_write_ok read_cccd_def exec_write_ok Let_def field_ok service_created_ok
      simp del: bcalls.simps split: option.split)

lemma gap_ok: "server_ok s \<Longrightarrow> server_ok (snd (on_gap_event bt v s))"
  by (cases v) (simp_all add: on_gap_event_def Let_def field_ok)

lemma new_server_ok: "server_ok (new_server b)"
  by (simp add: server_ok_def new_server_def)

lemma server_step_ok: "server_ok s \<Longrightarrow> server_ok (server_step bt s v)"
  by (cases v) (simp_all add: gap_ok gatts_ok field_ok)

interpretation ble: machine "new_server b" "server_step bt" "\<lambda>_. True" server_ok for b bt
  by unfold_locales (simp_all add: new_server_ok server_step_ok)

section \<open>Building the service\<close>

definition accepts_all :: "'b bt_stack \<Rightarrow> bool" where
  "accepts_all bt \<longleftrightarrow> (\<forall>c b. fst (bt_call bt c b))"

definition notifies :: "nat \<Rightarrow> bool" where
  "notifies i = cd_notify (CHARS ! i)"

text \<open>The stack's answers, assigning handle \<open>c i\<close> to characteristic \<open>i\<close> and \<open>d i\<close> to its CCCD.\<close>

definition char_events :: "(nat \<Rightarrow> nat) \<Rightarrow> (nat \<Rightarrow> nat) \<Rightarrow> nat \<Rightarrow> nat \<Rightarrow> nat \<Rightarrow> 'b server_event list" where
  "char_events c d gi sh i = Gatts gi (CharacteristicAdded True (c i) sh)
     # (if notifies i then [Gatts gi (DescriptorAdded True (d i) sh)] else [])"

definition char_calls :: "nat \<Rightarrow> nat \<Rightarrow> gatt_call list" where
  "char_calls sh i = char_call sh (CHARS ! i)
     # (if notifies i then [AddDescriptor sh 0x2902 [PermRead, PermWrite]] else [])"

definition setup_calls :: "nat \<Rightarrow> nat \<Rightarrow> gatt_call list" where
  "setup_calls gi sh = [SetDeviceName DEVICE_NAME, SetAdvConf False, SetAdvConf True,
     CreateService gi (uuid SLOT_SERVICE) SERVICE_HANDLES, StartService sh]"

definition built :: "(nat \<Rightarrow> nat) \<Rightarrow> (nat \<Rightarrow> nat) \<Rightarrow> nat \<Rightarrow> nat \<Rightarrow> nat \<Rightarrow> 'b server \<Rightarrow> bool" where
  "built c d gi sh k s \<longleftrightarrow> (k < 12 \<longrightarrow> bs_pending s = k) \<and> bs_ready s = (12 \<le> k)
     \<and> bs_handles s = map (\<lambda>i. if i < k then Some (c i) else None) [0..<12]
     \<and> bs_cccd s = map (\<lambda>i. if i < k \<and> notifies i then Some (d i) else None) [0..<12]
     \<and> bs_calls s = setup_calls gi sh @ concat (map (char_calls sh) [0..<k])
         @ (if k < 12 then [char_call sh (CHARS ! k)] else [])"

lemma bcall_fields [simp]:
  "bs_calls (snd (bcall bt c s)) = bs_calls s @ [c]"
  "bs_pending (snd (bcall bt c s)) = bs_pending s" "bs_ready (snd (bcall bt c s)) = bs_ready s"
  "bs_handles (snd (bcall bt c s)) = bs_handles s" "bs_cccd (snd (bcall bt c s)) = bs_cccd s"
  "bs_conns (snd (bcall bt c s)) = bs_conns s" "bs_cmds (snd (bcall bt c s)) = bs_cmds s"
  "bs_wifi (snd (bcall bt c s)) = bs_wifi s" "bs_gatt_if (snd (bcall bt c s)) = bs_gatt_if s"
  by (simp_all add: bcall_def case_prod_beta)

lemma and_then_ok: "accepts_all bt \<Longrightarrow> and_then (bcall bt c s) f = f (snd (bcall bt c s))"
  by (auto simp: accepts_all_def and_then_def bcall_def case_prod_beta split: bool.split)

lemma built_step:
  assumes "built c d gi sh k s" "k < 12" "accepts_all bt"
  shows "built c d gi sh (Suc k) (run (server_step bt) s (char_events c d gi sh k))"
proof -
  have h: "(map (\<lambda>i. if i < k then Some (c i) else None) [0..<12])[k := Some (c k)]
      = map (\<lambda>i. if i < Suc k then Some (c i) else None) [0..<12]"
    using map_update_one [of k 12 "\<lambda>i. if i < Suc k then Some (c i) else None" "\<lambda>i. if i < k then Some (c i) else None"]
      assms(2) by (simp add: less_Suc_eq)
  have dd: "(map (\<lambda>i. if i < k \<and> notifies i then Some (d i) else None) [0..<12])[k := Some (d k)]
      = map (\<lambda>i. if i < Suc k \<and> notifies i then Some (d i) else None) [0..<12]" if "notifies k"
    using map_update_one [of k 12 "\<lambda>i. if i < Suc k \<and> notifies i then Some (d i) else None"
        "\<lambda>i. if i < k \<and> notifies i then Some (d i) else None"] assms(2) that by (simp add: less_Suc_eq)
  have dn: "map (\<lambda>i. if i < Suc k \<and> notifies i then Some (d i) else None) [0..<12]
      = map (\<lambda>i. if i < k \<and> notifies i then Some (d i) else None) [0..<12]" if "\<not> notifies k"
    using that by (auto simp: less_Suc_eq)
  show ?thesis
    using assms h dd dn
    by (cases "notifies k"; cases "Suc k < 12")
      (simp_all add: built_def char_events_def characteristic_added_def descriptor_added_def advance_def
        add_char_def char_calls_def notifies_def [symmetric] Let_def del: map_upt_Suc)
qed

lemma built_run:
  "k \<le> 12 \<Longrightarrow> accepts_all bt \<Longrightarrow> built c d gi sh 0 s \<Longrightarrow>
    built c d gi sh k (run (server_step bt) s (concat (map (char_events c d gi sh) [0..<k])))"
  by (induction k) (simp_all add: run_append built_step)

lemma built_start:
  assumes "accepts_all bt"
  shows "built c d gi sh 0 (run (server_step bt) (new_server b)
    [Gatts gi (ServiceRegistered True APP_ID), Gatts gi (ServiceCreated True sh)])"
  using assms
  by (simp add: built_def and_then_ok create_service_def add_char_def setup_calls_def new_server_def
      map_replicate_const)

section \<open>Calls of the main loop\<close>

lemma foldl_calls [simp]:
  "bs_calls (foldl (\<lambda>s c. snd (bcall bt c s)) s cs) = bs_calls s @ cs"
  "bs_conns (foldl (\<lambda>s c. snd (bcall bt c s)) s cs) = bs_conns s"
  "bs_cmds (foldl (\<lambda>s c. snd (bcall bt c s)) s cs) = bs_cmds s"
  "bs_wifi (foldl (\<lambda>s c. snd (bcall bt c s)) s cs) = bs_wifi s"
  by (induction cs arbitrary: s) simp_all

lemma publish_fields [simp]:
  "bs_conns (publish bt a v s) = bs_conns s" "bs_handles (publish bt a v s) = bs_handles s"
  "bs_gatt_if (publish bt a v s) = bs_gatt_if s" "bs_cmds (publish bt a v s) = bs_cmds s"
  "bs_wifi (publish bt a v s) = bs_wifi s"
  by (simp_all add: publish_def split: option.split)

lemma notify_calls_publish [simp]: "notify_calls a v (publish bt b w s) = notify_calls a v s"
  by (simp add: notify_calls_def split: option.split)

lemma publish_calls:
  "bs_calls (publish bt a v s) = bs_calls s @ (case bs_handles s ! char_index a of
     Some h \<Rightarrow> if bs_ready s then [SetAttr h (take (cd_max_len (CHARS ! char_index a)) v)] else []
   | None \<Rightarrow> [])"
  by (simp add: publish_def split: option.split)

section \<open>What changes the queues\<close>

lemma enqueue_cmds:
  "bs_cmds (enqueue a v s) \<noteq> bs_cmds s \<Longrightarrow> a = Command \<and> (\<exists>c. command_decode v = Some c
     \<and> length (bs_cmds s) < CMD_QUEUE \<and> bs_cmds (enqueue a v s) = bs_cmds s @ [c])"
  by (cases a) (auto simp: enqueue_def try_send_def split: option.splits if_splits)

lemma enqueue_wifi:
  "bs_wifi (enqueue a v s) \<noteq> bs_wifi s \<Longrightarrow> a = WifiConfig \<and> (\<exists>w. wifi_decode v = Some w
     \<and> length (bs_wifi s) < WIFI_QUEUE \<and> bs_wifi (enqueue a v s) = bs_wifi s @ [w])"
  by (cases a) (auto simp: enqueue_def try_send_def split: option.splits if_splits)

lemma enqueue_handles [simp]: "bs_handles (enqueue a v s) = bs_handles s" "bs_stack (enqueue a v s) = bs_stack s"
  by (auto simp: enqueue_def split: attr.split option.split)

lemma dispatch_cmds [simp]:
  "bs_cmds (dispatch_write bt a v s) = bs_cmds (enqueue a v s)"
  "bs_wifi (dispatch_write bt a v s) = bs_wifi (enqueue a v s)"
  "bs_handles (dispatch_write bt a v s) = bs_handles s"
  by (simp_all add: dispatch_write_def Let_def split: option.split)

lemma exec_cmds:
  "bs_cmds (exec_write bt a s) \<noteq> bs_cmds s \<Longrightarrow> a = Command \<and> (\<exists>c h v. command_decode v = Some c
     \<and> bs_handles s ! 7 = Some h \<and> bt_get_attr bt h 256 (bs_stack s) = Some v
     \<and> length (bs_cmds s) < CMD_QUEUE \<and> bs_cmds (exec_write bt a s) = bs_cmds s @ [c])"
  using enqueue_cmds by (fastforce simp: exec_write_def split: option.splits if_splits)

lemma exec_wifi:
  "bs_wifi (exec_write bt a s) \<noteq> bs_wifi s \<Longrightarrow> a = WifiConfig \<and> (\<exists>w h v. wifi_decode v = Some w
     \<and> bs_handles s ! 8 = Some h \<and> bt_get_attr bt h 256 (bs_stack s) = Some v
     \<and> length (bs_wifi s) < WIFI_QUEUE \<and> bs_wifi (exec_write bt a s) = bs_wifi s @ [w])"
  using enqueue_wifi by (fastforce simp: exec_write_def split: option.splits if_splits)

lemma exec_handles [simp]: "bs_handles (exec_write bt a s) = bs_handles s"
  by (simp add: exec_write_def split: option.split)

lemma slot_handle: "position (Some h) hs = Some i \<Longrightarrow> length hs = 12 \<Longrightarrow> hs ! char_index (cd_attr (CHARS ! i)) = Some h"
  using position_Some [of "Some h" hs i] chars_in_order [of i] by simp

lemma command_slot: "position (Some h) hs = Some i \<Longrightarrow> length hs = 12 \<Longrightarrow> cd_attr (CHARS ! i) = Command \<Longrightarrow> hs ! 7 = Some h"
  and wifi_slot: "position (Some h) hs = Some i \<Longrightarrow> length hs = 12 \<Longrightarrow> cd_attr (CHARS ! i) = WifiConfig \<Longrightarrow> hs ! 8 = Some h"
  using slot_handle [of h hs i] by simp_all

lemma write_cmds:
  assumes "bs_cmds (on_write bt q v s) \<noteq> bs_cmds s" "length (bs_handles s) = 12"
  shows "wr_offset q = 0 \<and> bs_handles s ! 7 = Some (wr_handle q) \<and> (\<exists>c. command_decode v = Some c
     \<and> length (bs_cmds s) < CMD_QUEUE \<and> bs_cmds (on_write bt q v s) = bs_cmds s @ [c])"
  using assms enqueue_cmds command_slot
  by (fastforce simp: on_write_def Let_def split: option.splits if_splits)

lemma write_wifi:
  assumes "bs_wifi (on_write bt q v s) \<noteq> bs_wifi s" "length (bs_handles s) = 12"
  shows "wr_offset q = 0 \<and> bs_handles s ! 8 = Some (wr_handle q) \<and> (\<exists>w. wifi_decode v = Some w
     \<and> length (bs_wifi s) < WIFI_QUEUE \<and> bs_wifi (on_write bt q v s) = bs_wifi s @ [w])"
  using assms enqueue_wifi wifi_slot
  by (fastforce simp: on_write_def Let_def split: option.splits if_splits)

lemma bcalls_cmds [simp]: "bs_cmds (snd (bcalls bt cs s)) = bs_cmds s"
proof (induction cs arbitrary: s)
  case (Cons c cs)
  show ?case unfolding bcalls.simps by (rule and_then_keeps) (simp_all add: Cons.IH)
qed simp

lemma bcalls_wifi [simp]: "bs_wifi (snd (bcalls bt cs s)) = bs_wifi s"
proof (induction cs arbitrary: s)
  case (Cons c cs)
  show ?case unfolding bcalls.simps by (rule and_then_keeps) (simp_all add: Cons.IH)
qed simp

lemma build_cmds [simp]:
  "bs_cmds (snd (add_char bt sh i s)) = bs_cmds s" "bs_cmds (snd (advance bt sh i s)) = bs_cmds s"
  "bs_cmds (snd (characteristic_added bt ah sh s)) = bs_cmds s"
  "bs_cmds (snd (descriptor_added bt ah sh s)) = bs_cmds s"
  "bs_wifi (snd (add_char bt sh i s)) = bs_wifi s" "bs_wifi (snd (advance bt sh i s)) = bs_wifi s"
  "bs_wifi (snd (characteristic_added bt ah sh s)) = bs_wifi s"
  "bs_wifi (snd (descriptor_added bt ah sh s)) = bs_wifi s"
  by (simp_all add: add_char_def advance_def characteristic_added_def descriptor_added_def Let_def)

lemma created_cmds [simp]:
  "bs_cmds (snd (and_then (bcall bt c s) (add_char bt sh 0))) = bs_cmds s"
  "bs_wifi (snd (and_then (bcall bt c s) (add_char bt sh 0))) = bs_wifi s"
  by (rule and_then_keeps, simp_all)+

lemma gap_cmds [simp]: "bs_cmds (snd (on_gap_event bt v s)) = bs_cmds s" "bs_wifi (snd (on_gap_event bt v s)) = bs_wifi s"
  by (cases v, simp_all add: on_gap_event_def Let_def)+

lemma notify_cmds [simp]: "bs_cmds (notify bt a v s) = bs_cmds s" "bs_wifi (notify bt a v s) = bs_wifi s"
  by (simp_all add: notify_def Let_def)

text \<open>An event that carries a command: a whole write to its characteristic, or the end of a long one.\<close>

definition delivers :: "'b bt_stack \<Rightarrow> 'b server \<Rightarrow> 'b server_event \<Rightarrow> command \<Rightarrow> bool" where
  "delivers bt s v c \<longleftrightarrow> (\<exists>bytes h. command_decode bytes = Some c \<and> bs_handles s ! 7 = Some h
     \<and> ((\<exists>gi q. v = Gatts gi (Write q False bytes) \<and> wr_offset q = 0 \<and> wr_handle q = h)
        \<or> (\<exists>gi. v = Gatts gi (ExecWrite False) \<and> bt_get_attr bt h 256 (bs_stack s) = Some bytes)))"

lemma command_entry:
  assumes "length (bs_handles s) = 12" and "bs_cmds (server_step bt s v) \<noteq> bs_cmds s" and "v \<noteq> TakeCommand"
  shows "\<exists>c. delivers bt s v c \<and> command_ok c \<and> length (bs_cmds s) < CMD_QUEUE
    \<and> bs_cmds (server_step bt s v) = bs_cmds s @ [c]"
proof (cases "\<exists>gi q bytes. v = Gatts gi (Write q False bytes)")
  case True
  then obtain gi q bytes where v: "v = Gatts gi (Write q False bytes)" by blast
  with assms(2) have "bs_cmds (on_write bt q bytes s) \<noteq> bs_cmds s" by simp
  from write_cmds [OF this assms(1)] obtain c where "wr_offset q = 0" "bs_handles s ! 7 = Some (wr_handle q)"
    "command_decode bytes = Some c" "length (bs_cmds s) < CMD_QUEUE"
    "bs_cmds (on_write bt q bytes s) = bs_cmds s @ [c]" by blast
  then show ?thesis using v decoded_ok(1) [of bytes c] by (auto simp: delivers_def)
next
  case False
  have q: "bs_cmds (exec_write bt WifiConfig s1) = bs_cmds s1" for s1
    using exec_cmds [of bt WifiConfig s1] by auto
  have "\<exists>gi. v = Gatts gi (ExecWrite False) \<and> bs_cmds (exec_write bt Command s) \<noteq> bs_cmds s
      \<and> bs_cmds (server_step bt s v) = bs_cmds (exec_write bt Command s)"
  proof (cases v)
    case (Gatts gi ev)
    then show ?thesis
      using assms(2) False q
      by (cases ev) (auto simp: create_service_def peer_connected_def read_cccd_def Let_def
          simp del: bcalls.simps split: if_splits option.splits)
  qed (use assms in simp_all)
  then obtain gi where v: "v = Gatts gi (ExecWrite False)" "bs_cmds (exec_write bt Command s) \<noteq> bs_cmds s"
    "bs_cmds (server_step bt s v) = bs_cmds (exec_write bt Command s)" by blast
  from exec_cmds [OF v(2)] obtain c h bytes where "command_decode bytes = Some c" "bs_handles s ! 7 = Some h"
    "bt_get_attr bt h 256 (bs_stack s) = Some bytes" "length (bs_cmds s) < CMD_QUEUE"
    "bs_cmds (exec_write bt Command s) = bs_cmds s @ [c]" by blast
  then show ?thesis using v decoded_ok(1) [of bytes c] by (auto simp: delivers_def)
qed

text \<open>
  The same for credentials; the end of a long write reads them after the command of the same event has
  been dispatched.
\<close>

definition hands_over :: "'b bt_stack \<Rightarrow> 'b server \<Rightarrow> 'b server_event \<Rightarrow> wifi_credentials \<Rightarrow> bool" where
  "hands_over bt s v w \<longleftrightarrow> (\<exists>bytes h. wifi_decode bytes = Some w \<and> bs_handles s ! 8 = Some h
     \<and> ((\<exists>gi q. v = Gatts gi (Write q False bytes) \<and> wr_offset q = 0 \<and> wr_handle q = h)
        \<or> (\<exists>gi. v = Gatts gi (ExecWrite False)
            \<and> bt_get_attr bt h 256 (bs_stack (exec_write bt Command s)) = Some bytes)))"

lemma credential_entry:
  assumes "length (bs_handles s) = 12" and "bs_wifi (server_step bt s v) \<noteq> bs_wifi s" and "v \<noteq> TakeWifi"
  shows "\<exists>w. hands_over bt s v w \<and> wifi_ok w \<and> length (bs_wifi s) < WIFI_QUEUE
    \<and> bs_wifi (server_step bt s v) = bs_wifi s @ [w]"
proof (cases "\<exists>gi q bytes. v = Gatts gi (Write q False bytes)")
  case True
  then obtain gi q bytes where v: "v = Gatts gi (Write q False bytes)" by blast
  with assms(2) have "bs_wifi (on_write bt q bytes s) \<noteq> bs_wifi s" by simp
  from write_wifi [OF this assms(1)] obtain w where "wr_offset q = 0" "bs_handles s ! 8 = Some (wr_handle q)"
    "wifi_decode bytes = Some w" "length (bs_wifi s) < WIFI_QUEUE"
    "bs_wifi (on_write bt q bytes s) = bs_wifi s @ [w]" by blast
  then show ?thesis using v decoded_ok(2) [of bytes w] by (auto simp: hands_over_def)
next
  case False
  let ?s1 = "exec_write bt Command s"
  have q: "bs_wifi ?s1 = bs_wifi s" using exec_wifi [of bt Command s] by auto
  have "\<exists>gi. v = Gatts gi (ExecWrite False) \<and> bs_wifi (exec_write bt WifiConfig ?s1) \<noteq> bs_wifi ?s1
      \<and> bs_wifi (server_step bt s v) = bs_wifi (exec_write bt WifiConfig ?s1)"
  proof (cases v)
    case (Gatts gi ev)
    then show ?thesis
      using assms(2) False q
      by (cases ev) (auto simp: create_service_def peer_connected_def read_cccd_def Let_def
          simp del: bcalls.simps split: if_splits option.splits)
  qed (use assms in simp_all)
  then obtain gi where v: "v = Gatts gi (ExecWrite False)" "bs_wifi (exec_write bt WifiConfig ?s1) \<noteq> bs_wifi ?s1"
    "bs_wifi (server_step bt s v) = bs_wifi (exec_write bt WifiConfig ?s1)" by blast
  from exec_wifi [OF v(2)] obtain w h bytes where "wifi_decode bytes = Some w" "bs_handles s ! 8 = Some h"
    "bt_get_attr bt h 256 (bs_stack ?s1) = Some bytes" "length (bs_wifi s) < WIFI_QUEUE"
    "bs_wifi (exec_write bt WifiConfig ?s1) = bs_wifi s @ [w]" by (auto simp: q)
  then show ?thesis using v decoded_ok(2) [of bytes w] by (auto simp: hands_over_def)
qed

section \<open>Subscriptions\<close>

lemma subscribed_bit: "subscribed_to c i \<longleftrightarrow> bit (c_subscribed c) i"
proof -
  have "c_subscribed c AND push_bit i 1 = (if bit (c_subscribed c) i then push_bit i 1 else 0)"
    by (rule bit_word_eqI) (auto simp: bit_simps)
  moreover have "push_bit i (1 :: u16) \<noteq> 0" if "bit (c_subscribed c) i"
    using bit_imp_le_length [OF that] by (auto simp: bit_eq_iff bit_simps)
  ultimately show ?thesis by (simp add: subscribed_to_def)
qed

lemma set_subscription_bit:
  "i < 16 \<Longrightarrow> subscribed_to (set_subscription i on c) j \<longleftrightarrow> (if j = i then on else subscribed_to c j)"
  using bit_imp_le_length [of "c_subscribed c" j]
  by (auto simp: subscribed_bit set_subscription_def bit_simps)

lemma find_upd_conn:
  "find (\<lambda>c. c_id c = k) (upd_conn k f cs) = map_option f (find (\<lambda>c. c_id c = k) cs)"
  if "\<And>c. c_id (f c) = c_id c"
  by (induction cs) (simp_all add: that)

lemma find_upd_other:
  "k \<noteq> k' \<Longrightarrow> (\<And>c. c_id (f c) = c_id c) \<Longrightarrow>
    find (\<lambda>c. c_id c = k') (upd_conn k f cs) = find (\<lambda>c. c_id c = k') cs"
  by (induction cs) auto

text \<open>A server with a phone, the command attribute at handle 60, the live descriptor at 44.\<close>

definition sim_bt :: "unit bt_stack" where
  "sim_bt = \<lparr>bt_call = \<lambda>c b. (True, b), bt_get_attr = \<lambda>h n b. None\<rparr>"

definition sim_ble :: "unit server" where
  "sim_ble = (new_server ())\<lparr>bs_handles := (replicate 12 None)[7 := Some 60],
     bs_cccd := (replicate 12 None)[0 := Some 44], bs_ready := True,
     bs_conns := [\<lparr>c_peer = 1, c_id = 5, c_subscribed = 0, c_mtu = 185\<rparr>]\<rparr>"

definition sim_write :: "nat \<Rightarrow> write_req" where
  "sim_write h = \<lparr>wr_gatt_if = 3, wr_conn = 5, wr_trans = 1, wr_handle = h, wr_offset = 0, wr_need_rsp = True\<rparr>"

section \<open>Properties\<close>

text \<open>
  C20. Whatever the stack, the phones and the main loop do after start-up, the server stays well
  formed: at most two connections, at most eight commands and two credentials waiting, every
  one of them admissible, and the characteristic in flight is one of the table, so no table
  access is out of range.
\<close>

theorem server_stays_well_formed:
  "server_ok (run (server_step bt) (new_server b) vs)"
  using ble.inv_run [where es = vs] by (simp add: list_all_iff)

text \<open>
  C24. The service is built: with a stack that accepts every call and answers each registration,
  the twelve characteristics are added strictly one at a time, each notifying one directly
  followed by its own descriptor, and at the end the server is ready with every handle in
  its place and a descriptor handle exactly for the notifying ones.
\<close>

theorem service_is_built:
  assumes "accepts_all bt"
    and "s = run (server_step bt) (new_server b)
      ([Gatts gi (ServiceRegistered True APP_ID), Gatts gi (ServiceCreated True sh)]
        @ concat (map (char_events c d gi sh) [0..<12]))"
  shows "bs_ready s \<and> bs_handles s = map (\<lambda>i. Some (c i)) [0..<12]
    \<and> bs_cccd s = map (\<lambda>i. if cd_notify (CHARS ! i) then Some (d i) else None) [0..<12]
    \<and> bs_calls s = setup_calls gi sh @ concat (map (char_calls sh) [0..<12])"
proof -
  have "built c d gi sh 12 s"
    unfolding assms(2) run_append by (rule built_run [OF _ assms(1) built_start [OF assms(1)]]) simp
  then show ?thesis unfolding built_def notifies_def by (auto intro: map_cong)
qed

theorem service_is_built_witness:
  "bs_ready (run (server_step \<lparr>bt_call = \<lambda>c b. (True, b), bt_get_attr = \<lambda>h n b. None\<rparr>) (new_server ())
      ([Gatts 3 (ServiceRegistered True APP_ID), Gatts 3 (ServiceCreated True 40)]
        @ concat (map (char_events (\<lambda>i. 42 + 3 * i) (\<lambda>i. 43 + 3 * i) 3 40) [0..<12])))"
proof -
  have "accepts_all \<lparr>bt_call = \<lambda>c b. (True, b), bt_get_attr = \<lambda>h n b. None\<rparr>" by (simp add: accepts_all_def)
  from service_is_built [OF this refl] show ?thesis by (rule conjunct1)
qed

text \<open>
  C21. A command reaches the main loop only over the command characteristic, and credentials only over
  that of the credentials, both declared with encrypted write access and nothing else: a step that
  changes one of the two queues (other than the main loop taking from it) is a plain write at offset 0
  to the handle of its characteristic, or the end of a long write to it; it adds at the end
  exactly the decoded, admissible value, and only when the queue of eight commands or of two
  credentials has room.
\<close>

theorem commands_enter_encrypted:
  assumes "server_ok s" and "s' = server_step bt s v"
  shows "(bs_cmds s' \<noteq> bs_cmds s \<and> v \<noteq> TakeCommand \<longrightarrow> (\<exists>cmd bytes h. command_decode bytes = Some cmd \<and> command_ok cmd
      \<and> bs_cmds s' = bs_cmds s @ [cmd] \<and> length (bs_cmds s) < 8 \<and> bs_handles s ! 7 = Some h
      \<and> ((\<exists>gi q. v = Gatts gi (Write q False bytes) \<and> wr_offset q = 0 \<and> wr_handle q = h)
         \<or> (\<exists>gi. v = Gatts gi (ExecWrite False) \<and> bt_get_attr bt h 256 (bs_stack s) = Some bytes))))
    \<and> (bs_wifi s' \<noteq> bs_wifi s \<and> v \<noteq> TakeWifi \<longrightarrow> (\<exists>w bytes h. wifi_decode bytes = Some w \<and> wifi_ok w
      \<and> bs_wifi s' = bs_wifi s @ [w] \<and> length (bs_wifi s) < 2 \<and> bs_handles s ! 8 = Some h
      \<and> ((\<exists>gi q. v = Gatts gi (Write q False bytes) \<and> wr_offset q = 0 \<and> wr_handle q = h)
         \<or> (\<exists>gi. v = Gatts gi (ExecWrite False)
             \<and> bt_get_attr bt h 256 (bs_stack (exec_write bt Command s)) = Some bytes))))
    \<and> (\<forall>sh. char_call sh (CHARS ! 7) = AddCharacteristic sh (uuid SLOT_COMMAND) [PermWriteEncrypted] [PropWrite] 256)
    \<and> (\<forall>sh. char_call sh (CHARS ! 8) = AddCharacteristic sh (uuid SLOT_WIFI_CONFIG) [PermWriteEncrypted] [PropWrite] 128)"
proof -
  have len: "length (bs_handles s) = 12" using assms(1) by (simp add: server_ok_def)
  have c: "char_call sh (CHARS ! 7) = AddCharacteristic sh (uuid SLOT_COMMAND) [PermWriteEncrypted] [PropWrite] 256"
    "char_call sh (CHARS ! 8) = AddCharacteristic sh (uuid SLOT_WIFI_CONFIG) [PermWriteEncrypted] [PropWrite] 128" for sh
    by (simp_all add: char_call_def CHARS_def writable_def readable_def)
  show ?thesis
  proof (intro conjI allI impI c)
    assume "bs_cmds s' \<noteq> bs_cmds s \<and> v \<noteq> TakeCommand"
    then show "\<exists>cmd bytes h. command_decode bytes = Some cmd \<and> command_ok cmd
      \<and> bs_cmds s' = bs_cmds s @ [cmd] \<and> length (bs_cmds s) < 8 \<and> bs_handles s ! 7 = Some h
      \<and> ((\<exists>gi q. v = Gatts gi (Write q False bytes) \<and> wr_offset q = 0 \<and> wr_handle q = h)
         \<or> (\<exists>gi. v = Gatts gi (ExecWrite False) \<and> bt_get_attr bt h 256 (bs_stack s) = Some bytes))"
      using command_entry [OF len, of bt v] assms(2) by (auto simp: delivers_def CMD_QUEUE_def)
  next
    assume "bs_wifi s' \<noteq> bs_wifi s \<and> v \<noteq> TakeWifi"
    then show "\<exists>w bytes h. wifi_decode bytes = Some w \<and> wifi_ok w
      \<and> bs_wifi s' = bs_wifi s @ [w] \<and> length (bs_wifi s) < 2 \<and> bs_handles s ! 8 = Some h
      \<and> ((\<exists>gi q. v = Gatts gi (Write q False bytes) \<and> wr_offset q = 0 \<and> wr_handle q = h)
         \<or> (\<exists>gi. v = Gatts gi (ExecWrite False)
             \<and> bt_get_attr bt h 256 (bs_stack (exec_write bt Command s)) = Some bytes))"
      using credential_entry [OF len, of bt v] assms(2) by (auto simp: hands_over_def WIFI_QUEUE_def)
  qed
qed

text \<open>A plain write of a command, and the end of a long write that has left credentials.\<close>

definition sim_long :: "unit bt_stack" where
  "sim_long = \<lparr>bt_call = \<lambda>c b. (True, b),
     bt_get_attr = \<lambda>h n b. if h = 62 then Some [1, 1, 0x67, 0] else None\<rparr>"

definition sim_both :: "unit server" where
  "sim_both = sim_ble\<lparr>bs_handles := (bs_handles sim_ble)[8 := Some 62]\<rparr>"

theorem commands_enter_encrypted_witness:
  "(\<exists>cmd. bs_cmds (server_step sim_bt sim_ble (Gatts 3 (Write (sim_write 60) False [3]))) = bs_cmds sim_ble @ [cmd])
   \<and> (\<exists>w. bs_wifi (server_step sim_long sim_both (Gatts 3 (ExecWrite False))) = bs_wifi sim_both @ [w] \<and> wifi_ok w)"
proof -
  let ?v = "Gatts 3 (Write (sim_write 60) False [3])" and ?x = "Gatts 3 (ExecWrite False)"
  have "bs_cmds (server_step sim_bt sim_ble ?v) = [CheckUpdate]" "server_ok sim_ble" by code_simp+
  moreover have "bs_cmds sim_ble = []" by (simp add: sim_ble_def new_server_def)
  ultimately have 1: "\<exists>cmd. bs_cmds (server_step sim_bt sim_ble ?v) = bs_cmds sim_ble @ [cmd]"
    using commands_enter_encrypted [of sim_ble _ sim_bt ?v] by auto
  have "bs_wifi (server_step sim_long sim_both ?x) \<noteq> bs_wifi sim_both" "server_ok sim_both" by code_simp+
  then have "\<exists>w. bs_wifi (server_step sim_long sim_both ?x) = bs_wifi sim_both @ [w] \<and> wifi_ok w"
    using commands_enter_encrypted [of sim_both _ sim_long ?x] by blast
  with 1 show ?thesis ..
qed

text \<open>
  C8. A subscription reads back: writing the two bytes of a descriptor subscribes or unsubscribes exactly
  that connection for exactly that attribute, by the low bit of the first byte, and a read of
  the descriptor answers that bit.
\<close>

theorem subscription_read_back:
  assumes "position (Some (wr_handle q)) (bs_cccd s) = Some i" and "i < 12"
    and "wr_offset q = 0" and "find (\<lambda>c. c_id c = wr_conn q) (bs_conns s) = Some c0"
    and "s' = on_write bt q [b0, b1] s"
  shows "bs_calls (snd (read_cccd bt gi (wr_conn q) tid (wr_handle q) s'))
      = bs_calls s' @ [SendResponse gi (wr_conn q) tid (Some (wr_handle q, [b0 AND 1, 0]))]
    \<and> (\<exists>c1. find (\<lambda>c. c_id c = wr_conn q) (bs_conns s') = Some c1
        \<and> (\<forall>j. subscribed_to c1 j \<longleftrightarrow> (if j = i then b0 AND 1 \<noteq> 0 else subscribed_to c0 j)))
    \<and> (\<forall>k. k \<noteq> wr_conn q \<longrightarrow>
        find (\<lambda>c. c_id c = k) (bs_conns s') = find (\<lambda>c. c_id c = k) (bs_conns s))"
proof -
  let ?f = "set_subscription i (b0 AND 1 \<noteq> 0)"
  have f: "c_id (?f c) = c_id c" for c by (simp add: set_subscription_def)
  have conns: "bs_conns s' = upd_conn (wr_conn q) ?f (bs_conns s)" and cccd: "bs_cccd s' = bs_cccd s"
    using assms(1,3,5) by (simp_all add: on_write_def Let_def)
  have c1: "find (\<lambda>c. c_id c = wr_conn q) (bs_conns s') = Some (?f c0)"
    using find_upd_conn [of ?f "wr_conn q" "bs_conns s"] f assms(4) conns by simp
  have sub: "subscribed_to (?f c0) j \<longleftrightarrow> (if j = i then b0 AND 1 \<noteq> 0 else subscribed_to c0 j)" for j
    using set_subscription_bit [of i "b0 AND 1 \<noteq> 0" c0 j] assms(2) by simp
  have one: "(if b0 AND 1 \<noteq> 0 then 1 else 0) = b0 AND 1"
    by (simp add: and_one_eq split: if_splits)
  have "bs_calls (snd (read_cccd bt gi (wr_conn q) tid (wr_handle q) s'))
      = bs_calls s' @ [SendResponse gi (wr_conn q) tid (Some (wr_handle q, [b0 AND 1, 0]))]"
    using assms(1) cccd c1 sub one by (simp add: read_cccd_def Let_def)
  then show ?thesis
    using c1 sub find_upd_other [of "wr_conn q" _ ?f] f conns by auto
qed

theorem subscription_read_back_witness:
  "bs_calls (snd (read_cccd sim_bt 3 5 2 44 (on_write sim_bt (sim_write 44) [1, 0] sim_ble)))
    = bs_calls (on_write sim_bt (sim_write 44) [1, 0] sim_ble) @ [SendResponse 3 5 2 (Some (44, [1, 0]))]"
proof -
  have h: "position (Some (wr_handle (sim_write 44))) (bs_cccd sim_ble) = Some 0" "(0 :: nat) < 12"
    "wr_offset (sim_write 44) = 0"
    "find (\<lambda>c. c_id c = wr_conn (sim_write 44)) (bs_conns sim_ble)
      = Some \<lparr>c_peer = 1, c_id = 5, c_subscribed = 0, c_mtu = 185\<rparr>"
    by (simp_all add: sim_write_def sim_ble_def new_server_def numeral_eq_Suc)
  have "wr_conn (sim_write 44) = 5" "wr_handle (sim_write 44) = 44" by (simp_all add: sim_write_def)
  then show ?thesis using subscription_read_back [OF h refl, where bt = sim_bt and ?b0.0 = 1 and ?b1.0 = 0 and gi = 3 and tid = 2] by simp
qed

text \<open>
  Publishing and notifying: the attribute is set, cut to its declared length, once the
  service is ready; then exactly the subscribed connections are notified, in order, each with
  a prefix of the value that fits its connection: no longer than its MTU less 3, or 20.
\<close>

lemma notify_reaches_subscribers:
  "\<exists>sets pushes. bs_calls (notify bt a v s) = bs_calls s @ sets @ pushes
    \<and> sets = (case bs_handles s ! char_index a of
        Some h \<Rightarrow> if bs_ready s then [SetAttr h (take (cd_max_len (CHARS ! char_index a)) v)] else []
      | None \<Rightarrow> [])
    \<and> (case (bs_gatt_if s, bs_handles s ! char_index a) of
         (Some gi, Some h) \<Rightarrow> pushes = map (\<lambda>c. NotifyPeer gi (c_id c) h (take (max (unat (c_mtu c) - 3) 20) v))
           [c \<leftarrow> bs_conns s. bit (c_subscribed c) (char_index a)]
       | _ \<Rightarrow> pushes = [])
    \<and> bs_conns (notify bt a v s) = bs_conns s"
  by (auto simp: notify_def Let_def publish_calls notify_calls_def subscribed_bit split: option.split)

end
