(* ===== verification/Ble_Start.thy ===== *)
theory Ble_Start
  imports Ble_Server
begin

text \<open>
  Bringing the BLE stack up, \<open>Ble::start\<close> in \<open>esp32/src/ble.rs\<close>: the calls into the stack in their
  order, each of which may fail and end the start with its name and error. The stack's answers
  are a parameter; the values of its enumerations are kept by name.
\<close>

section \<open>The calls\<close>

datatype key_mask = EncryptionKey | IdentityResolvingKey

datatype sm_param = AuthenReqMode | IocapMode | SetInitKey | SetRspKey | MaxKeySize

datatype sm_value = SecureBonding | NoInputNoOutput | Keys "key_mask list" | Size u8

datatype start_call = BtDriverNew | GapNew | GattsNew | SetSecurityParam sm_param sm_value
  | SetLocalMtu u16 | GapSubscribe | GattsSubscribe | RegisterApp u16

fun start_name :: "start_call \<Rightarrow> string" where
  "start_name BtDriverNew = ''bt driver''"
| "start_name GapNew = ''gap''"
| "start_name GattsNew = ''gatts''"
| "start_name (SetSecurityParam AuthenReqMode v) = ''auth req''"
| "start_name (SetSecurityParam IocapMode v) = ''io cap''"
| "start_name (SetSecurityParam SetInitKey v) = ''init key''"
| "start_name (SetSecurityParam SetRspKey v) = ''rsp key''"
| "start_name (SetSecurityParam MaxKeySize v) = ''max key size''"
| "start_name (SetLocalMtu m) = ''local mtu''"
| "start_name GapSubscribe = ''gap subscribe''"
| "start_name GattsSubscribe = ''gatts subscribe''"
| "start_name (RegisterApp i) = ''register app''"

definition security_calls :: "start_call list" where
  "security_calls = (let keys = Keys [EncryptionKey, IdentityResolvingKey] in
     [SetSecurityParam AuthenReqMode SecureBonding, SetSecurityParam IocapMode NoInputNoOutput,
      SetSecurityParam SetInitKey keys, SetSecurityParam SetRspKey keys,
      SetSecurityParam MaxKeySize (Size 16)])"

definition start_calls :: "start_call list" where
  "start_calls = [BtDriverNew, GapNew, GattsNew] @ security_calls
     @ [SetLocalMtu 500, GapSubscribe, GattsSubscribe, RegisterApp APP_ID]"

text \<open>Running calls up to the first failure, which is reported under its name.\<close>

definition run_calls ::
  "(start_call \<Rightarrow> 'e \<Rightarrow> (string + unit) \<times> 'e) \<Rightarrow> start_call list \<Rightarrow> 'e \<Rightarrow> (string + unit) \<times> start_call list \<times> 'e" where
  "run_calls f = try_calls (\<lambda>c e. case f c e of
       (Inl t, e1) \<Rightarrow> (Inl (start_name c @ '': '' @ t), e1)
     | (Inr u, e1) \<Rightarrow> (Inr u, e1))"

text \<open>The server of a start that succeeded has its queues empty and nothing built.\<close>

definition start ::
  "(start_call \<Rightarrow> 'e \<Rightarrow> (string + unit) \<times> 'e) \<Rightarrow> 'e \<Rightarrow> (string + 'e server) \<times> start_call list" where
  "start f e =
     (case run_calls f start_calls e of
        (Inl t, made, _) \<Rightarrow> (Inl t, made)
      | (Inr _, made, e1) \<Rightarrow> (Inr (new_server e1), made))"

lemmas start_defs [model_defs] = run_calls_def security_calls_def start_calls_def start_def

section \<open>Which calls are made\<close>

lemma run_calls_made:
  assumes "run_calls f cs e = (r, made, e')"
  shows "prefix made cs" "r = Inr u \<Longrightarrow> made = cs" "r = Inl t \<Longrightarrow> made \<noteq> [] \<and> prefix (start_name (last made) @ '': '') t"
proof -
  let ?g = "\<lambda>c e. case f c e of (Inl t, e1) \<Rightarrow> (Inl (start_name c @ '': '' @ t), e1) | (Inr u, e1) \<Rightarrow> (Inr u, e1)"
  note spec = try_calls_spec [OF assms [unfolded run_calls_def]]
  have g: "prefix (start_name c @ '': '') t" if "?g c e = (Inl t, e')" for c e t e'
    using that by (auto simp: prefix_def split: prod.splits sum.splits)
  show "prefix made cs" "r = Inr u \<Longrightarrow> made = cs" using spec by (auto simp: prefix_def)
  show "r = Inl t \<Longrightarrow> made \<noteq> [] \<and> prefix (start_name (last made) @ '': '') t" using spec g by fastforce
qed

text \<open>
  The phone sees no service before it is secured: whatever the stack answers, the calls of a start
  are made in order, so that one that registers the application has set secure bonding, the
  keys and the key size before; a failed start reports the call that failed, by name; and a
  start that returns a server has made every call, and the server is well formed.
\<close>

lemma secured_before_registered:
  assumes "start f e = (r, made)"
  shows "prefix made start_calls
    \<and> (RegisterApp APP_ID \<in> set made \<longrightarrow> (\<exists>before. made = before @ [RegisterApp APP_ID] \<and> set security_calls \<subseteq> set before))
    \<and> (\<forall>t. r = Inl t \<longrightarrow> made \<noteq> [] \<and> prefix (start_name (last made) @ '': '') t)
    \<and> (\<forall>s. r = Inr s \<longrightarrow> made = start_calls \<and> server_ok s)"
proof -
  obtain x m e1 where c: "run_calls f start_calls e = (x, m, e1)" by (metis prod_cases3)
  have m: "made = m" "r = (case x of Inl t \<Rightarrow> Inl t | Inr _ \<Rightarrow> Inr (new_server e1))"
    using assms c by (auto simp: start_def split: sum.splits)
  let ?init = "[BtDriverNew, GapNew, GattsNew] @ security_calls @ [SetLocalMtu 500, GapSubscribe, GattsSubscribe]"
  have s: "start_calls = ?init @ [RegisterApp APP_ID]" by (simp add: start_calls_def)
  have p: "prefix made (?init @ [RegisterApp APP_ID])" using run_calls_made(1) [OF c] m by (simp add: s)
  have "made = ?init @ [RegisterApp APP_ID]" if "RegisterApp APP_ID \<in> set made"
  proof -
    have "RegisterApp APP_ID \<notin> set ?init" by (simp add: security_calls_def Let_def)
    then have "\<not> prefix made ?init" using that set_mono_prefix by blast
    moreover have "made = ?init @ [RegisterApp APP_ID] \<or> prefix made ?init" using p by (simp only: prefix_snoc)
    ultimately show ?thesis by blast
  qed
  then have "RegisterApp APP_ID \<in> set made \<longrightarrow> (\<exists>before. made = before @ [RegisterApp APP_ID] \<and> set security_calls \<subseteq> set before)"
    by (metis Un_upper1 Un_upper2 order_trans set_append)
  then show ?thesis
    using p run_calls_made(2,3) [OF c] m new_server_ok [of e1] by (cases x) (auto simp: s)
qed

lemma secured_before_registered_witness:
  "start (\<lambda>c e. (if c = SetLocalMtu 500 then Inl ''busy'' else Inr (), e)) ()
     = (Inl ''local mtu: busy'', [BtDriverNew, GapNew, GattsNew] @ security_calls @ [SetLocalMtu 500])
   \<and> prefix ([BtDriverNew, GapNew, GattsNew] @ security_calls @ [SetLocalMtu 500]) start_calls"
proof -
  have c: "start (\<lambda>c e. (if c = SetLocalMtu 500 then Inl ''busy'' else Inr (), e)) ()
     = (Inl ''local mtu: busy'', [BtDriverNew, GapNew, GattsNew] @ security_calls @ [SetLocalMtu 500])"
    by (simp add: start_def run_calls_def start_calls_def security_calls_def Let_def)
  from c secured_before_registered [OF c] show ?thesis by blast
qed

end
