(* ===== verification/Kds_Proto.thy ===== *)
theory Kds_Proto
  imports F32_Eval
begin

text \<open>
  The KDS (ISO-14230 / KWP2000) protocol, \<open>core/src/kds_proto.rs\<close>: request framing, the
  response parser over a byte source, extraction of positive data, and value decoding.
\<close>

section \<open>Constants\<close>

definition ECU_ADDR :: u8 where "ECU_ADDR = 0x11"
definition TESTER_ADDR :: u8 where "TESTER_ADDR = 0xF2"
definition SVC_START :: u8 where "SVC_START = 0x81"
definition SVC_START_OK :: u8 where "SVC_START_OK = 0xC1"
definition SVC_SESSION :: u8 where "SVC_SESSION = 0x10"
definition SVC_SESSION_KDS :: u8 where "SVC_SESSION_KDS = 0x80"
definition SVC_SESSION_OK :: u8 where "SVC_SESSION_OK = 0x50"
definition SVC_READ :: u8 where "SVC_READ = 0x21"
definition SVC_READ_OK :: u8 where "SVC_READ_OK = 0x61"
definition SVC_READ_COMMON :: u8 where "SVC_READ_COMMON = 0x22"
definition SVC_READ_COMMON_OK :: u8 where "SVC_READ_COMMON_OK = 0x62"
definition SVC_READ_IDENT :: u8 where "SVC_READ_IDENT = 0x1A"
definition SVC_READ_IDENT_OK :: u8 where "SVC_READ_IDENT_OK = 0x5A"
definition REG_RPM :: u8 where "REG_RPM = 0x09"
definition REG_SPEED :: u8 where "REG_SPEED = 0x0C"
definition REG_INTERLOCK :: u8 where "REG_INTERLOCK = 0x03"
definition MAX_PAYLOAD :: nat where "MAX_PAYLOAD = 63"

lemmas kds_consts [model_defs] = ECU_ADDR_def TESTER_ADDR_def SVC_START_def SVC_START_OK_def
  SVC_SESSION_def SVC_SESSION_KDS_def SVC_SESSION_OK_def SVC_READ_def SVC_READ_OK_def
  SVC_READ_COMMON_def SVC_READ_COMMON_OK_def SVC_READ_IDENT_def SVC_READ_IDENT_OK_def
  REG_RPM_def REG_SPEED_def REG_INTERLOCK_def MAX_PAYLOAD_def

section \<open>Requests\<close>

definition checksum :: "u8 list \<Rightarrow> u8" where
  "checksum bytes = foldl (+) 0 bytes"

text \<open>The assertion on the payload length is the panic \<open>None\<close>.\<close>

definition build_request :: "u8 list \<Rightarrow> u8 list option" where
  "build_request p =
     (if p \<noteq> [] \<and> length p \<le> MAX_PAYLOAD then
        let frame = [0x80 OR of_nat (length p), ECU_ADDR, TESTER_ADDR] @ p
        in Some (frame @ [checksum frame])
      else None)"

section \<open>Responses\<close>

record frame =
  f_raw :: "u8 list"
  f_payload :: "u8 list"
  f_checksum_ok :: bool

datatype parse_error = Timeout | Truncated "u8 list" | HeldLow "u8 list"

text \<open>
  A byte source maps its state to the next byte (\<open>None\<close> is a timeout) and its new state.
  \<open>next_bytes\<close> is the parser's \<open>next\<close> closure called \<open>n\<close> times.
\<close>

fun next_bytes :: "('s \<Rightarrow> u8 option \<times> 's) \<Rightarrow> nat \<Rightarrow> u8 list \<Rightarrow> 's \<Rightarrow> (parse_error + u8 list) \<times> 's" where
  "next_bytes rd 0 raw s = (Inr raw, s)"
| "next_bytes rd (Suc n) raw s =
     (case rd s of
        (Some b, s') \<Rightarrow> next_bytes rd n (raw @ [b]) s'
      | (None, s') \<Rightarrow> (Inl (Truncated raw), s'))"

definition short_header :: "u8 \<Rightarrow> bool" where
  "short_header fmt \<longleftrightarrow> fmt AND 0xC0 = 0x80 \<and> fmt AND 0x3F \<noteq> 0"

text \<open>The bytes up to the payload and the payload length, for the two header shapes.\<close>

definition parse_header ::
  "('s \<Rightarrow> u8 option \<times> 's) \<Rightarrow> u8 \<Rightarrow> 's \<Rightarrow> (parse_error + u8 list \<times> nat) \<times> 's" where
  "parse_header rd fmt s =
     (if short_header fmt
      then (case next_bytes rd 2 [fmt] s of
              (Inl e, s') \<Rightarrow> (Inl e, s')
            | (Inr raw, s') \<Rightarrow> (Inr (raw, unat (fmt AND 0x3F)), s'))
      else (case next_bytes rd 3 [fmt] s of
              (Inl e, s') \<Rightarrow> (Inl e, s')
            | (Inr raw, s') \<Rightarrow> (Inr (raw, unat (last raw)), s')))"

definition finish_frame ::
  "('s \<Rightarrow> u8 option \<times> 's) \<Rightarrow> u8 list \<Rightarrow> nat \<Rightarrow> 's \<Rightarrow> (parse_error + frame) \<times> 's" where
  "finish_frame rd raw start s =
     (let payload = drop start raw;
          (cs, s') = rd s;
          ok = (case cs of Some c \<Rightarrow> c = checksum raw | None \<Rightarrow> True);
          raw' = (case cs of Some c \<Rightarrow> raw @ [c] | None \<Rightarrow> raw)
      in if list_all (\<lambda>b. b = 0) raw' then (Inl (HeldLow raw'), s')
         else (Inr \<lparr>f_raw = raw', f_payload = payload, f_checksum_ok = ok\<rparr>, s'))"

definition parse_response :: "('s \<Rightarrow> u8 option \<times> 's) \<Rightarrow> 's \<Rightarrow> (parse_error + frame) \<times> 's" where
  "parse_response rd s =
     (case rd s of
        (None, s') \<Rightarrow> (Inl Timeout, s')
      | (Some fmt, s1) \<Rightarrow>
          (case parse_header rd fmt s1 of
             (Inl e, s') \<Rightarrow> (Inl e, s')
           | (Inr (raw, len), s2) \<Rightarrow>
               (case next_bytes rd len raw s2 of
                  (Inl e, s') \<Rightarrow> (Inl e, s')
                | (Inr raw', s3) \<Rightarrow> finish_frame rd raw' (length raw) s3)))"

text \<open>A fixed byte sequence followed by timeouts.\<close>

fun list_reader :: "u8 list \<Rightarrow> u8 option \<times> u8 list" where
  "list_reader [] = (None, [])"
| "list_reader (b # bs) = (Some b, bs)"

section \<open>Payloads and values\<close>

definition positive_data :: "u8 list \<Rightarrow> u8 \<Rightarrow> u8 list \<Rightarrow> u8 list option" where
  "positive_data payload ok_service echoed_id =
     (case payload of
        [] \<Rightarrow> None
      | sv # _ \<Rightarrow>
          if sv \<noteq> ok_service then None
          else let off = (if length echoed_id < length payload
                             \<and> take (length echoed_id) (drop 1 payload) = echoed_id
                          then 1 + length echoed_id else 1)
               in Some (drop off payload))"

definition be16 :: "u8 \<Rightarrow> u8 \<Rightarrow> u16" where
  "be16 hi lo = push_bit 8 (ucast hi) OR ucast lo"

fun decode_rpm :: "u8 list \<Rightarrow> f32 option" where
  "decode_rpm (hi # lo # _) = Some (f32_of_int (uint (be16 hi lo)) / dec 40 1)"
| "decode_rpm _ = None"

fun decode_speed :: "u8 list \<Rightarrow> f32 option" where
  "decode_speed [] = None"
| "decode_speed [v] = Some (f32_of_int (uint v))"
| "decode_speed (hi # lo # _) = Some (f32_of_int (uint (be16 hi lo)) / dec 20 1)"

definition decode_interlock :: "u8 list \<Rightarrow> bool option" where
  "decode_interlock data =
     (if data = [0x00, 0x00] then Some True else if data = [0xFF, 0xFF] then Some False else None)"

lemmas kds_defs [model_defs] = checksum_def build_request_def short_header_def parse_header_def
  finish_frame_def parse_response_def positive_data_def be16_def decode_interlock_def

section \<open>The frame format\<close>

text \<open>
  The reference: header length, payload length and frame length read off a byte string, and
  the result the parser promises on it.
\<close>

definition header_len :: "u8 list \<Rightarrow> nat" where
  "header_len bs = (if short_header (hd bs) then 3 else 4)"

definition payload_len :: "u8 list \<Rightarrow> nat" where
  "payload_len bs = (if short_header (hd bs) then unat (hd bs AND 0x3F) else unat (bs ! 3))"

definition frame_spec :: "u8 list \<Rightarrow> parse_error + frame" where
  "frame_spec bs =
     (let n = header_len bs + payload_len bs in
      if bs = [] then Inl Timeout
      else if length bs < header_len bs \<or> length bs < n then Inl (Truncated bs)
      else if list_all (\<lambda>b. b = 0) (take (Suc n) bs) then Inl (HeldLow (take (Suc n) bs))
      else Inr \<lparr>f_raw = take (Suc n) bs, f_payload = drop (header_len bs) (take n bs),
             f_checksum_ok = (length bs = n \<or> bs ! n = checksum (take n bs))\<rparr>)"

section \<open>Byte sources\<close>

text \<open>
  The contract of a byte source: what it will still deliver before its next timeout. The
  parser depends on nothing else, so its results on a list carry over to every source.
\<close>

locale byte_source =
  fixes rd :: "'s \<Rightarrow> u8 option \<times> 's"
    and pending :: "'s \<Rightarrow> u8 list"
  assumes read_byte: "pending s = b # bs \<Longrightarrow> \<exists>s'. rd s = (Some b, s') \<and> pending s' = bs"
    and read_timeout: "pending s = [] \<Longrightarrow> fst (rd s) = None"
begin

lemma next_bytes_ok:
  "n \<le> length (pending s) \<Longrightarrow>
    \<exists>s'. next_bytes rd n raw s = (Inr (raw @ take n (pending s)), s') \<and> pending s' = drop n (pending s)"
proof (induction n arbitrary: raw s)
  case (Suc n)
  then obtain b bs where p: "pending s = b # bs" by (cases "pending s") auto
  from read_byte [OF p] obtain s1 where s1: "rd s = (Some b, s1)" "pending s1 = bs" by blast
  then obtain s' where "next_bytes rd n (raw @ [b]) s1 = (Inr ((raw @ [b]) @ take n bs), s')"
    "pending s' = drop n bs"
    using Suc.IH [of s1 "raw @ [b]"] Suc.prems p s1 by auto
  then show ?case using s1 p by simp
qed simp

lemma next_bytes_short:
  "length (pending s) < n \<Longrightarrow> fst (next_bytes rd n raw s) = Inl (Truncated (raw @ pending s))"
proof (induction n arbitrary: raw s)
  case (Suc n)
  show ?case
  proof (cases "pending s")
    case Nil
    then show ?thesis using read_timeout [OF Nil] by (cases "rd s") auto
  next
    case (Cons b bs)
    from read_byte [OF Cons] obtain s1 where "rd s = (Some b, s1)" "pending s1 = bs" by blast
    with Suc Cons show ?thesis by force
  qed
qed simp

lemma finish_frame_ok:
  "fst (finish_frame rd raw start s) =
    (let raw' = raw @ take 1 (pending s) in
     if list_all (\<lambda>b. b = 0) raw' then Inl (HeldLow raw')
     else Inr \<lparr>f_raw = raw', f_payload = drop start raw,
       f_checksum_ok = (case pending s of [] \<Rightarrow> True | c # _ \<Rightarrow> c = checksum raw)\<rparr>)"
proof (cases "pending s")
  case Nil
  then show ?thesis using read_timeout [OF Nil]
    by (cases "rd s") (simp add: finish_frame_def Let_def)
next
  case (Cons b bs)
  from read_byte [OF Cons] obtain s1 where "rd s = (Some b, s1)" by blast
  with Cons show ?thesis by (simp add: finish_frame_def Let_def)
qed

lemma finish_frame_rest: "pending s = b # bs \<Longrightarrow> pending (snd (finish_frame rd raw start s)) = bs"
  using read_byte [of s b bs] by (auto simp: finish_frame_def Let_def)

lemma parse_header_ok:
  assumes "pending s = drop 1 bs" "bs \<noteq> []" "header_len bs \<le> length bs"
  shows "\<exists>s'. parse_header rd (hd bs) s = (Inr (take (header_len bs) bs, payload_len bs), s')
    \<and> pending s' = drop (header_len bs) bs"
proof -
  obtain b bs' where bs: "bs = b # bs'" using assms(2) by (cases bs) auto
  have l: "last (b # take 3 bs') = bs' ! 2" if "3 \<le> length bs'"
    using that by (cases bs') (auto simp: last_conv_nth)
  show ?thesis
    using assms next_bytes_ok [of 2 s "[b]"] next_bytes_ok [of 3 s "[b]"] l
    by (auto simp: bs header_len_def payload_len_def parse_header_def split: if_splits)
qed

lemma parse_header_short:
  assumes "pending s = drop 1 bs" "bs \<noteq> []" "length bs < header_len bs"
  shows "fst (parse_header rd (hd bs) s) = Inl (Truncated bs)"
proof -
  obtain b bs' where bs: "bs = b # bs'" using assms(2) by (cases bs) auto
  show ?thesis
    using assms next_bytes_short [of s 2 "[b]"] next_bytes_short [of s 3 "[b]"]
    by (auto simp: bs header_len_def parse_header_def split: if_splits prod.splits sum.splits)
qed

theorem parse_frame_spec: "fst (parse_response rd s) = frame_spec (pending s)"
proof (cases "pending s")
  case Nil
  then show ?thesis using read_timeout [OF Nil]
    by (cases "rd s") (auto simp: parse_response_def frame_spec_def Let_def)
next
  case (Cons b bs')
  define bs where "bs = pending s"
  from read_byte [OF Cons] obtain s1 where s1: "rd s = (Some b, s1)" "pending s1 = bs'" by blast
  have ne: "bs \<noteq> []" "hd bs = b" "pending s1 = drop 1 bs" using Cons s1 by (simp_all add: bs_def)
  show ?thesis
  proof (cases "length bs < header_len bs")
    case True
    with parse_header_short [OF ne(3,1)] s1 ne show ?thesis
      by (auto simp: parse_response_def frame_spec_def Let_def bs_def [symmetric]
          split: prod.splits sum.splits)
  next
    case False
    with parse_header_ok [OF ne(3,1)] obtain s2
      where s2: "parse_header rd b s1 = (Inr (take (header_len bs) bs, payload_len bs), s2)"
        "pending s2 = drop (header_len bs) bs" using ne by auto
    let ?n = "header_len bs + payload_len bs"
    have raw: "take (header_len bs) bs @ take (payload_len bs) (pending s2) = take ?n bs"
      by (simp add: s2 take_add)
    show ?thesis
    proof (cases "length bs < ?n")
      case True
      then have "fst (next_bytes rd (payload_len bs) (take (header_len bs) bs) s2) = Inl (Truncated bs)"
        using next_bytes_short [of s2 "payload_len bs" "take (header_len bs) bs"] False s2 by simp
      with s1 s2 ne True show ?thesis
        by (auto simp: parse_response_def frame_spec_def Let_def bs_def [symmetric]
            split: prod.splits sum.splits)
    next
      case ge: False
      with next_bytes_ok [of "payload_len bs" s2 "take (header_len bs) bs"] False s2
      obtain s3 where s3:
        "next_bytes rd (payload_len bs) (take (header_len bs) bs) s2 = (Inr (take ?n bs), s3)"
        "pending s3 = drop ?n bs" by (auto simp: raw [unfolded s2] add.commute le_diff_conv2)
      have tk: "take ?n bs @ take 1 (drop ?n bs) = take (Suc ?n) bs"
        by (metis One_nat_def add_Suc_right add.right_neutral take_add)
      have cs: "(case drop ?n bs of [] \<Rightarrow> True | c # _ \<Rightarrow> c = checksum (take ?n bs))
          = (length bs = ?n \<or> bs ! ?n = checksum (take ?n bs))"
        using ge by (cases "drop ?n bs") (auto dest: drop_eq_Nil [THEN iffD1] nth_via_drop)
      have min: "min (length bs) (header_len bs) = header_len bs" using False by simp
      show ?thesis
        using s1 s2 s3 ne ge False cs tk finish_frame_ok [of "take ?n bs" "header_len bs" s3]
        by (simp add: parse_response_def frame_spec_def bs_def [symmetric] min Let_def)
    qed
  qed
qed

end

interpretation list_source: byte_source list_reader "\<lambda>bs. bs"
  by unfold_locales auto


text \<open>The bytes of a frame are consumed and no more.\<close>

lemma list_next_bytes: "snd (next_bytes list_reader n raw bs) = drop n bs"
proof (induction n arbitrary: raw bs)
  case (Suc n)
  show ?case using Suc by (cases bs) auto
qed simp

lemma parse_consumes:
  assumes "fst (parse_response list_reader bs) = Inr f"
  shows "bs = f_raw f @ snd (parse_response list_reader bs)"
proof (cases bs)
  case Nil
  with assms show ?thesis by (simp add: parse_response_def)
next
  case (Cons b bs')
  have f: "f_raw f = take (Suc (header_len bs + payload_len bs)) bs"
    using assms unfolding list_source.parse_frame_spec
    by (auto simp: frame_spec_def Let_def split: if_splits)
  have h: "header_len bs \<le> length bs"
    using assms unfolding list_source.parse_frame_spec
    by (auto simp: frame_spec_def Let_def split: if_splits)
  from list_source.parse_header_ok [of bs' bs] Cons h
  have ph: "parse_header list_reader b bs'
      = (Inr (take (header_len bs) bs, payload_len bs), drop (header_len bs) bs)" by auto
  have n: "snd (finish_frame list_reader raw st xs) = drop 1 xs" for raw st xs
    by (cases xs) (auto simp: finish_frame_def Let_def)
  have "snd (parse_response list_reader bs) = drop (Suc (header_len bs + payload_len bs)) bs"
    using assms ph Cons list_next_bytes [of "payload_len bs" "take (header_len bs) bs" "drop (header_len bs) bs"]
    by (auto simp: parse_response_def n add.commute split: prod.splits sum.splits)
  with f show ?thesis by simp
qed

section \<open>Properties\<close>

lemma hd_len:
  assumes "1 \<le> n" "n \<le> MAX_PAYLOAD"
  shows "short_header (0x80 OR of_nat n)" "unat ((0x80 OR of_nat n :: u8) AND 0x3F) = n"
proof -
  have "n \<in> set [1..<64]" using assms by (auto simp: MAX_PAYLOAD_def)
  moreover have "list_all (\<lambda>n. short_header (0x80 OR of_nat n) \<and> unat ((0x80 OR of_nat n :: u8) AND 0x3F) = n) [1..<64]"
    by code_simp
  ultimately show "short_header (0x80 OR of_nat n)" "unat ((0x80 OR of_nat n :: u8) AND 0x3F) = n"
    by (auto simp: list_all_iff)
qed

text \<open>
  Every frame the module builds is parsed back, from a byte stream in which anything
  follows it: its payload is returned, its checksum verifies and the rest is untouched.
\<close>

lemma request_roundtrip:
  assumes "build_request p = Some fr"
  shows "parse_response list_reader (fr @ rest)
    = (Inr \<lparr>f_raw = fr, f_payload = p, f_checksum_ok = True\<rparr>, rest)"
proof -
  let ?h = "[0x80 OR of_nat (length p), ECU_ADDR, TESTER_ADDR]"
  have p: "1 \<le> length p" "length p \<le> MAX_PAYLOAD" and fr: "fr = ?h @ p @ [checksum (?h @ p)]"
    using assms by (auto simp: build_request_def Let_def Suc_le_eq split: if_splits)
  note h = hd_len [OF p]
  have n: "header_len (fr @ rest) = 3" "payload_len (fr @ rest) = length p"
    using h by (simp_all add: fr header_len_def payload_len_def)
  have "frame_spec (fr @ rest) = Inr \<lparr>f_raw = fr, f_payload = p, f_checksum_ok = True\<rparr>"
    by (simp add: frame_spec_def n Let_def, simp add: fr ECU_ADDR_def nth_append numeral_3_eq_3)
  then have "fst (parse_response list_reader (fr @ rest))
      = Inr \<lparr>f_raw = fr, f_payload = p, f_checksum_ok = True\<rparr>"
    by (simp add: list_source.parse_frame_spec)
  with parse_consumes [OF this] show ?thesis by (simp add: prod_eq_iff)
qed

lemma request_roundtrip_witness:
  "build_request [SVC_READ, REG_RPM] = Some [0x82, 0x11, 0xF2, 0x21, 0x09, 0xAF]
   \<and> parse_response list_reader ([0x82, 0x11, 0xF2, 0x21, 0x09, 0xAF] @ [0x82, 0x11])
     = (Inr \<lparr>f_raw = [0x82, 0x11, 0xF2, 0x21, 0x09, 0xAF], f_payload = [SVC_READ, REG_RPM],
          f_checksum_ok = True\<rparr>, [0x82, 0x11])"
proof -
  have h: "build_request [SVC_READ, REG_RPM] = Some [0x82, 0x11, 0xF2, 0x21, 0x09, 0xAF]" by code_simp
  from h request_roundtrip [OF h] show ?thesis by blast
qed


text \<open>
  C17. The parser is the frame format: on every byte stream it returns the format's result (a
  timeout only when nothing arrives, a truncation with every byte seen, a line held low, or
  the frame with its payload slice and checksum flag), and it consumes exactly the bytes it reports.
\<close>

theorem parser_meets_format:
  "fst (parse_response list_reader bs) = frame_spec bs
    \<and> (\<forall>f. fst (parse_response list_reader bs) = Inr f
        \<longrightarrow> bs = f_raw f @ snd (parse_response list_reader bs))"
  using parse_consumes by (auto simp: list_source.parse_frame_spec)

theorem parser_meets_format_witness:
  "fst (parse_response list_reader [0x80, 0xF2, 0x11, 0x02, 0x50, 0x80, 0x25, 0x99]) =
     Inr \<lparr>f_raw = [0x80, 0xF2, 0x11, 0x02, 0x50, 0x80, 0x25], f_payload = [0x50, 0x80],
       f_checksum_ok = False\<rparr>
   \<and> [0x80, 0xF2, 0x11, 0x02, 0x50, 0x80, 0x25, 0x99] = [0x80, 0xF2, 0x11, 0x02, 0x50, 0x80, 0x25]
       @ snd (parse_response list_reader [0x80, 0xF2, 0x11, 0x02, 0x50, 0x80, 0x25, 0x99])"
proof -
  have "frame_spec [0x80, 0xF2, 0x11, 0x02, 0x50, 0x80, 0x25, 0x99] =
     Inr \<lparr>f_raw = [0x80, 0xF2, 0x11, 0x02, 0x50, 0x80, 0x25], f_payload = [0x50, 0x80],
       f_checksum_ok = False\<rparr>" by code_simp
  with parser_meets_format [of "[0x80, 0xF2, 0x11, 0x02, 0x50, 0x80, 0x25, 0x99]"]
  show ?thesis by fastforce
qed

lemma checksum_sum: "checksum bs = sum_list bs"
  by (simp add: checksum_def foldl_plus_sum)

lemma one_byte_breaks_checksum:
  assumes fr: "fr = h @ [checksum h]" and i: "i < length fr" "b \<noteq> fr ! i"
  shows "fr[i := b] ! length h \<noteq> checksum (take (length h) (fr[i := b]))"
proof
  assume a: "fr[i := b] ! length h = checksum (take (length h) (fr[i := b]))"
  show False
  proof (cases "i = length h")
    case True
    then show False using a i(2) by (simp add: fr nth_append)
  next
    case False
    then have lt: "i < length h" using i(1) by (simp add: fr)
    then have "checksum (h[i := b]) = checksum h" using a by (simp add: fr list_update_append1 nth_append)
    moreover have "sum_list (h[i := b]) \<noteq> sum_list h"
      using sum_list_update_add [OF lt, of b] i(2) lt by (metis add_right_cancel add.commute fr nth_append)
    ultimately show False by (simp add: checksum_sum)
  qed
qed

text \<open>
  One corrupted byte anywhere after the format byte of a built frame is detected: the
  frame still parses to its length, with the checksum flag cleared.
\<close>

lemma corruption_detected:
  assumes "build_request p = Some fr" "1 \<le> i" "i < length fr" "b \<noteq> fr ! i"
  shows "\<exists>f. parse_response list_reader (fr[i := b]) = (Inr f, []) \<and> \<not> f_checksum_ok f
    \<and> f_raw f = fr[i := b]"
proof -
  let ?h = "[0x80 OR of_nat (length p), ECU_ADDR, TESTER_ADDR] @ p"
  let ?x = "fr[i := b]"
  have p: "1 \<le> length p" "length p \<le> MAX_PAYLOAD" and fr: "fr = ?h @ [checksum ?h]"
    using assms(1) by (auto simp: build_request_def Let_def Suc_le_eq split: if_splits)
  note h = hd_len [OF p]
  have hd: "hd ?x = 0x80 OR of_nat (length p)" using assms(2) by (cases i) (simp_all add: fr)
  have n: "header_len ?x = 3" "payload_len ?x = length p" "length ?x = Suc (3 + length p)"
    using h by (simp_all add: header_len_def payload_len_def hd) (simp add: fr)
  let ?m = "3 + length p"
  have bad: "?x ! ?m \<noteq> checksum (take ?m ?x)"
    using one_byte_breaks_checksum [OF fr assms(3,4)] by (simp add: numeral_3_eq_3)
  have nz: "\<not> list_all (\<lambda>b. b = 0) (take (Suc ?m) ?x)"
  proof -
    have "short_header 0 = False" by code_simp
    then have "hd ?x \<noteq> 0" using h hd by metis
    moreover have "take (Suc ?m) ?x = ?x" "?x \<noteq> []" using n(3) by auto
    ultimately show ?thesis by (cases ?x) auto
  qed
  have "?x \<noteq> []" using n(3) by auto
  then have "frame_spec ?x = Inr \<lparr>f_raw = ?x, f_payload = drop 3 (take ?m ?x), f_checksum_ok = False\<rparr>"
    using bad nz n(3) by (simp add: frame_spec_def n(1,2))
  then have "fst (parse_response list_reader ?x)
      = Inr \<lparr>f_raw = ?x, f_payload = drop 3 (take ?m ?x), f_checksum_ok = False\<rparr>"
    by (simp only: list_source.parse_frame_spec)
  with parse_consumes [OF this] show ?thesis by (auto simp: prod_eq_iff)
qed

lemma corruption_detected_witness:
  "build_request [SVC_READ, REG_RPM] = Some [0x82, 0x11, 0xF2, 0x21, 0x09, 0xAF]
   \<and> (\<exists>f. parse_response list_reader ([0x82, 0x11, 0xF2, 0x21, 0x09, 0xAF][4 := 0x0C]) = (Inr f, [])
        \<and> \<not> f_checksum_ok f \<and> f_raw f = [0x82, 0x11, 0xF2, 0x21, 0x09, 0xAF][4 := 0x0C])"
proof -
  have h: "build_request [SVC_READ, REG_RPM] = Some [0x82, 0x11, 0xF2, 0x21, 0x09, 0xAF]" by code_simp
  have "(0x0C :: u8) \<noteq> [0x82, 0x11, 0xF2, 0x21, 0x09, 0xAF] ! 4" by code_simp
  with corruption_detected [OF h, of 4 "0x0C"] h show ?thesis by simp
qed

lemma positive_data_extracts_facts:
  "positive_data (sv # ident @ data) sv ident = Some data"
  "take (length ident) data \<noteq> ident \<Longrightarrow> positive_data (sv # data) sv ident = Some data"
  "sv' \<noteq> sv \<Longrightarrow> positive_data (sv' # data) sv ident = None"
  "positive_data [] sv ident = None"
  by (auto simp: positive_data_def Let_def)

text \<open>
  Positive data: with the identifier echoed the data after it is returned; without the
  echo the data is returned whole unless it happens to start with the identifier; any other
  service byte, a negative response included, gives nothing.
\<close>

lemma positive_data_extracts:
  "positive_data (sv # ident @ data) sv ident = Some data
   \<and> (take (length ident) data \<noteq> ident \<longrightarrow> positive_data (sv # data) sv ident = Some data)
   \<and> (sv' \<noteq> sv \<longrightarrow> positive_data (sv' # data) sv ident = None)
   \<and> positive_data [] sv ident = None"
  by (simp add: positive_data_extracts_facts)

lemma positive_data_extracts_witness:
  "positive_data [0x61, 0x09, 0x1C, 0x52] SVC_READ_OK [REG_RPM] = Some [0x1C, 0x52]
   \<and> positive_data [0x61, 0x1C, 0x52] SVC_READ_OK [REG_RPM] = Some [0x1C, 0x52]
   \<and> positive_data [0x7F, 0x21, 0x12] SVC_READ_OK [REG_RPM] = None"
  using positive_data_extracts [where sv = SVC_READ_OK and ident = "[REG_RPM]" and data = "[0x1C, 0x52]"]
    positive_data_extracts [where sv = SVC_READ_OK and sv' = "0x7F" and ident = "[REG_RPM]" and data = "[0x21, 0x12]"]
  by (simp add: SVC_READ_OK_def REG_RPM_def)

lemma be16_value: "uint (be16 hi lo) = 256 * uint hi + uint lo"
proof -
  have "be16 hi lo = push_bit 8 (ucast hi) + ucast lo"
    unfolding be16_def by (rule disjunctive_add [symmetric]) (auto simp: bit_simps)
  also have "\<dots> = word_of_int (uint hi * 2 ^ 8 + uint lo)"
    by (simp only: push_bit_eq_mult ucast_eq wi_hom_syms) simp
  finally have "uint (be16 hi lo) = (uint hi * 2 ^ 8 + uint lo) mod 2 ^ 16"
    by (simp only: uint_word_of_int) simp
  moreover have "uint hi < 256" "uint lo < 256" using uint_lt2p [of hi] uint_lt2p [of lo] by simp_all
  ultimately show ?thesis by (simp add: zmod_trivial_iff)
qed

lemma pos_units: "\<not> f32_neg x \<Longrightarrow> units x = mag (f32_code x)"
  by (simp add: units_def)

lemma div_exact:
  assumes "is_fin x" "is_fin y" "f32_code y \<noteq> 0" "\<not> f32_neg x" "\<not> f32_neg y"
    "0 \<le> m" "m < inf_code" "mag m * units y = units x * unit1"
  shows "is_fin (x / y)" "units (x / y) = mag m"
proof -
  have "0 < mag (f32_code y)"
    using assms mag_pos_iff [of "f32_code y"] f32_code_bounds(1) [of y]
    by (auto simp: fin_codes simp del: f32_code_bounds)
  moreover have "x / y = round_f32 False (mag (f32_code x) * unit1) (mag (f32_code y))"
    using assms by (simp add: divide_f32_def Let_def)
  ultimately show "is_fin (x / y)" "units (x / y) = mag m"
    using round_exact [of m "mag (f32_code y)" "mag (f32_code x) * unit1" False] assms
    by (simp_all add: pos_units)
qed

lemma of_int_div_pow2:
  assumes "0 \<le> i" "i \<le> 2 ^ 24" "k \<le> 100" "is_fin y" "f32_code y \<noteq> 0" "\<not> f32_neg y"
    "units y = 2 ^ k * unit1"
  shows "is_fin (f32_of_int i / y)" "2 ^ k * units (f32_of_int i / y) = i * unit1"
    "0 \<le> f32_of_int i / y"
proof -
  obtain m where m: "0 \<le> m" "m < inf_code" "mag m = i * 2 ^ (149 - k)"
    using representable [OF assms(1,2), of "149 - k"] assms(3) by fastforce
  have e: "is_fin (f32_of_int i)" "units (f32_of_int i) = i * unit1"
    using f32_of_int_exact [of i] assms by simp_all
  have neg: "\<not> f32_neg (f32_of_int i)"
    using assms(1) by (simp add: f32_of_int_def round_f32_neg)
  have "(2 :: int) ^ (149 - k) * 2 ^ k = unit1"
    using assms(3) by (simp add: unit1_def power_add [symmetric])
  then have s: "mag m * 2 ^ k = i * unit1" by (simp add: m(3))
  then have "mag m * units y = units (f32_of_int i) * unit1" by (simp add: assms(7) e(2))
  note d = div_exact [OF e(1) assms(4,5) neg assms(6) m(1,2) this]
  show "is_fin (f32_of_int i / y)" "2 ^ k * units (f32_of_int i / y) = i * unit1"
    using d s by (simp_all add: mult.commute)
  show "0 \<le> f32_of_int i / y"
  proof -
    have "is_fin 0" "units 0 = 0" by code_simp+
    then show ?thesis using d assms(1) m(3) le_units [of 0 "f32_of_int i / y"] by simp
  qed
qed

lemma decoded_values_exact_facts:
  "\<exists>r. decode_rpm (hi # lo # ds) = Some r \<and> is_fin r \<and> 0 \<le> r
     \<and> 4 * units r = (256 * uint hi + uint lo) * unit1"
  "\<exists>v. decode_speed (hi # lo # ds) = Some v \<and> is_fin v \<and> 0 \<le> v
     \<and> 2 * units v = (256 * uint hi + uint lo) * unit1"
  "\<exists>v. decode_speed [lo] = Some v \<and> is_fin v \<and> 0 \<le> v \<and> units v = uint lo * unit1"
  "decode_rpm [] = None \<and> decode_rpm [lo] = None \<and> decode_speed [] = None"
proof -
  let ?w = "256 * uint hi + uint lo"
  have b: "0 \<le> uint hi" "uint hi < 256" "0 \<le> uint lo" "uint lo < 256"
    using uint_lt2p [of hi] uint_lt2p [of lo] by simp_all
  have four: "is_fin (dec 40 1)" "f32_code (dec 40 1) \<noteq> 0" "\<not> f32_neg (dec 40 1)"
    "units (dec 40 1) = 2 ^ 2 * unit1" by code_simp+
  have two: "is_fin (dec 20 1)" "f32_code (dec 20 1) \<noteq> 0" "\<not> f32_neg (dec 20 1)"
    "units (dec 20 1) = 2 ^ 1 * unit1" by code_simp+
  show "\<exists>r. decode_rpm (hi # lo # ds) = Some r \<and> is_fin r \<and> 0 \<le> r
     \<and> 4 * units r = ?w * unit1"
    using of_int_div_pow2 [OF _ _ _ four, of ?w] b by (simp add: be16_value)
  show "\<exists>v. decode_speed (hi # lo # ds) = Some v \<and> is_fin v \<and> 0 \<le> v
     \<and> 2 * units v = ?w * unit1"
    using of_int_div_pow2 [OF _ _ _ two, of ?w] b by (simp add: be16_value)
  have z: "is_fin 0" "units 0 = 0" by code_simp+
  have e: "is_fin (f32_of_int (uint lo))" "units (f32_of_int (uint lo)) = uint lo * unit1"
    using f32_of_int_exact [of "uint lo"] b by simp_all
  then show "\<exists>v. decode_speed [lo] = Some v \<and> is_fin v \<and> 0 \<le> v \<and> units v = uint lo * unit1"
    using le_units [OF z(1) e(1)] z b by (simp add: unit1_def)
qed simp_all

text \<open>
  Decoded values: rpm is exactly a quarter and two-byte speed exactly half of the
  big-endian word, one-byte speed is the byte; all are finite and non-negative; fewer bytes
  than needed decode to nothing.
\<close>

lemma decoded_values_exact:
  "(\<exists>r. decode_rpm (hi # lo # ds) = Some r \<and> is_fin r \<and> 0 \<le> r
      \<and> 4 * units r = (256 * uint hi + uint lo) * unit1)
   \<and> (\<exists>v. decode_speed (hi # lo # ds) = Some v \<and> is_fin v \<and> 0 \<le> v
      \<and> 2 * units v = (256 * uint hi + uint lo) * unit1)
   \<and> (\<exists>v. decode_speed [lo] = Some v \<and> is_fin v \<and> 0 \<le> v \<and> units v = uint lo * unit1)
   \<and> decode_rpm [] = None \<and> decode_rpm [lo] = None \<and> decode_speed [] = None"
  by (simp only: decoded_values_exact_facts simp_thms)

end
