(* ===== verification/Kds_Driver.thy ===== *)
theory Kds_Driver
  imports Kds_Proto
begin

text \<open>
  The K-line driver, \<open>esp32/src/kds.rs\<close>: pacing, fast init with both handshakes, the register
  queries, echo handling and the transport. The UART driver and the clock are ESP-IDF's: a
  record of operations on an environment state \<open>'s\<close>. Times are microseconds. Log lines are
  left out. An outer \<open>None\<close> is a panic or a loop that never ends.
\<close>

section \<open>Constants and state\<close>

definition RSP_TIMEOUT :: nat where "RSP_TIMEOUT = 250000"
definition TX_BYTE_GAP :: nat where "TX_BYTE_GAP = 2000"
definition REQUEST_GAP :: nat where "REQUEST_GAP = 60000"
definition KDS_BAUD :: nat where "KDS_BAUD = 10400"
definition BREAK_BAUD :: nat where "BREAK_BAUD = 360"
definition FAST_INIT_IDLE :: nat where "FAST_INIT_IDLE = 300000"

text \<open>
  Each fallible operation returns whether it succeeded; \<open>uart_read\<close> takes the buffer length
  and the timeout and returns the bytes read, or \<open>None\<close> for an error.
\<close>

record 's uart =
  change_baudrate :: "nat \<Rightarrow> 's \<Rightarrow> bool \<times> 's"
  uart_write :: "u8 list \<Rightarrow> 's \<Rightarrow> bool \<times> 's"
  wait_tx_done :: "nat \<Rightarrow> 's \<Rightarrow> 's"
  uart_read :: "nat \<Rightarrow> nat \<Rightarrow> 's \<Rightarrow> u8 list option \<times> 's"
  sleep :: "nat \<Rightarrow> 's \<Rightarrow> 's"
  now :: "'s \<Rightarrow> nat"

record 's kds =
  k_io :: 's
  k_connected :: bool
  k_last_activity :: "nat option"

definition kds_new :: "'s \<Rightarrow> 's kds" where
  "kds_new s = \<lparr>k_io = s, k_connected = False, k_last_activity = None\<rparr>"

definition pace :: "'s uart \<Rightarrow> 's kds \<Rightarrow> 's kds" where
  "pace u k =
     (case k_last_activity k of
        None \<Rightarrow> k
      | Some t \<Rightarrow> let elapsed = now u (k_io k) - t in
          if elapsed < REQUEST_GAP then k\<lparr>k_io := sleep u (REQUEST_GAP - elapsed) (k_io k)\<rparr> else k)"

section \<open>Transport\<close>

partial_function (option) drain_rx :: "'s uart \<Rightarrow> 's \<Rightarrow> 's option" where
  "drain_rx u s =
     (case uart_read u 16 0 s of
        (Some bs, s') \<Rightarrow> if bs \<noteq> [] then drain_rx u s' else Some s'
      | (None, s') \<Rightarrow> Some s')"

definition read_byte_inner :: "'s uart \<Rightarrow> 's \<Rightarrow> u8 option \<times> 's" where
  "read_byte_inner u s =
     (case uart_read u 1 RSP_TIMEOUT s of
        (Some [b], s') \<Rightarrow> (Some b, s')
      | (_, s') \<Rightarrow> (None, s'))"

fun read_exact :: "('s \<Rightarrow> u8 option \<times> 's) \<Rightarrow> nat \<Rightarrow> u8 list \<Rightarrow> 's \<Rightarrow> u8 list \<times> 's" where
  "read_exact rd 0 acc s = (acc, s)"
| "read_exact rd (Suc n) acc s =
     (case rd s of (Some b, s') \<Rightarrow> read_exact rd n (acc @ [b]) s' | (None, s') \<Rightarrow> (acc, s'))"

fun send_bytes :: "'s uart \<Rightarrow> u8 list \<Rightarrow> 's \<Rightarrow> bool \<times> 's" where
  "send_bytes u [] s = (True, s)"
| "send_bytes u (b # bs) s =
     (case uart_write u [b] s of
        (False, s') \<Rightarrow> (False, s')
      | (True, s') \<Rightarrow> send_bytes u bs (sleep u TX_BYTE_GAP (wait_tx_done u RSP_TIMEOUT s')))"

definition send_request :: "'s uart \<Rightarrow> u8 list \<Rightarrow> 's kds \<Rightarrow> (bool \<times> 's kds) option" where
  "send_request u payload k =
     (case build_request payload of
        None \<Rightarrow> None
      | Some fr \<Rightarrow>
          (case send_bytes u fr (k_io k) of
             (False, s1) \<Rightarrow> Some (False, k\<lparr>k_io := s1\<rparr>)
           | (True, s1) \<Rightarrow>
               let (echo, s2) = read_exact (read_byte_inner u) (length fr) [] s1
               in Some (True, k\<lparr>k_io := s2, k_last_activity := Some (now u s2)\<rparr>)))"

definition read_response :: "'s uart \<Rightarrow> 's kds \<Rightarrow> u8 list option \<times> 's kds" where
  "read_response u k =
     (let (parsed, s1) = parse_response (read_byte_inner u) (k_io k);
          k1 = k\<lparr>k_io := s1, k_last_activity := Some (now u s1)\<rparr>
      in case parsed of Inr f \<Rightarrow> (Some (f_payload f), k1) | Inl _ \<Rightarrow> (None, k1))"

section \<open>Fast init\<close>

text \<open>One handshake step: send, read, require the positive service byte in the reply.\<close>

definition handshake :: "'s uart \<Rightarrow> u8 list \<Rightarrow> u8 \<Rightarrow> 's kds \<Rightarrow> (bool \<times> 's kds) option" where
  "handshake u payload ok_byte k =
     (case send_request u payload k of
        None \<Rightarrow> None
      | Some (False, k1) \<Rightarrow> Some (False, k1)
      | Some (True, k1) \<Rightarrow>
          (case read_response u k1 of
             (Some p, k2) \<Rightarrow> Some (ok_byte \<in> set p, k2)
           | (None, k2) \<Rightarrow> Some (False, k2)))"

text \<open>The low pulse: a 0x00 byte at the break baud rate, then the K-line rate again.\<close>

definition fast_init_pulse :: "'s uart \<Rightarrow> 's \<Rightarrow> bool \<times> 's" where
  "fast_init_pulse u s =
     (let (ok1, s1) = change_baudrate u BREAK_BAUD s;
          (ok2, s2) = (if ok1 then uart_write u [0x00] s1 else (False, s1))
      in if \<not> (ok1 \<and> ok2) then (False, snd (change_baudrate u KDS_BAUD s2))
         else change_baudrate u KDS_BAUD (wait_tx_done u RSP_TIMEOUT s2))"

definition start_communication :: "'s uart \<Rightarrow> 's kds \<Rightarrow> (bool \<times> 's kds) option" where
  "start_communication u k =
     (let k0 = k\<lparr>k_connected := False\<rparr> in
      case drain_rx u (k_io k0) of None \<Rightarrow> None | Some s1 \<Rightarrow>
      let (ok, s2) = fast_init_pulse u (sleep u FAST_INIT_IDLE s1) in
      if \<not> ok then Some (False, k0\<lparr>k_io := s2\<rparr>)
      else (case drain_rx u (sleep u 22000 s2) of None \<Rightarrow> None | Some s3 \<Rightarrow>
        (case handshake u [SVC_START] SVC_START_OK (k0\<lparr>k_io := s3\<rparr>) of
           None \<Rightarrow> None
         | Some (False, k1) \<Rightarrow> Some (False, k1)
         | Some (True, k1) \<Rightarrow>
             (case handshake u [SVC_SESSION, SVC_SESSION_KDS] SVC_SESSION_OK (pace u k1) of
                None \<Rightarrow> None
              | Some (False, k2) \<Rightarrow> Some (False, k2)
              | Some (True, k2) \<Rightarrow> Some (True, k2\<lparr>k_connected := True\<rparr>)))))"

section \<open>Queries\<close>

text \<open>The shape the three read services share.\<close>

definition exchange :: "'s uart \<Rightarrow> u8 list \<Rightarrow> u8 \<Rightarrow> u8 list \<Rightarrow> 's kds \<Rightarrow> (u8 list option \<times> 's kds) option" where
  "exchange u payload ok_service ident k =
     (case send_request u payload k of
        None \<Rightarrow> None
      | Some (False, k1) \<Rightarrow> Some (None, k1)
      | Some (True, k1) \<Rightarrow>
          (case read_response u k1 of
             (None, k2) \<Rightarrow> Some (None, k2)
           | (Some p, k2) \<Rightarrow> Some (positive_data p ok_service ident, k2)))"

definition query :: "'s uart \<Rightarrow> u8 list \<Rightarrow> u8 \<Rightarrow> u8 list \<Rightarrow> 's kds \<Rightarrow> (u8 list option \<times> 's kds) option" where
  "query u payload ok_service ident k =
     (if \<not> k_connected k then Some (None, k) else exchange u payload ok_service ident (pace u k))"

definition read_register :: "'s uart \<Rightarrow> u8 \<Rightarrow> 's kds \<Rightarrow> (u8 list option \<times> 's kds) option" where
  "read_register u reg k = query u [SVC_READ, reg] SVC_READ_OK [reg] k"

definition read_common :: "'s uart \<Rightarrow> u16 \<Rightarrow> 's kds \<Rightarrow> (u8 list option \<times> 's kds) option" where
  "read_common u ident k =
     (let hi = ucast (drop_bit 8 ident); lo = ucast ident
      in query u [SVC_READ_COMMON, hi, lo] SVC_READ_COMMON_OK [hi, lo] k)"

definition read_ident :: "'s uart \<Rightarrow> u8 \<Rightarrow> 's kds \<Rightarrow> (u8 list option \<times> 's kds) option" where
  "read_ident u ident k = query u [SVC_READ_IDENT, ident] SVC_READ_IDENT_OK [ident] k"

fun scan_from :: "'s uart \<Rightarrow> u8 list \<Rightarrow> (u8 \<times> u8 list) list \<Rightarrow> 's kds
    \<Rightarrow> ((u8 \<times> u8 list) list \<times> 's kds) option" where
  "scan_from u [] found k = Some (found, k)"
| "scan_from u (reg # regs) found k =
     (case read_register u reg k of
        None \<Rightarrow> None
      | Some (Some d, k1) \<Rightarrow> scan_from u regs (found @ [(reg, d)]) k1
      | Some (None, k1) \<Rightarrow> scan_from u regs found k1)"

definition scan_registers :: "'s uart \<Rightarrow> 's kds \<Rightarrow> ((u8 \<times> u8 list) list \<times> 's kds) option" where
  "scan_registers u k = scan_from u (map of_nat [0..<256]) [] k"

definition read_rpm :: "'s uart \<Rightarrow> 's kds \<Rightarrow> (f32 option \<times> 's kds) option" where
  "read_rpm u k = map_option (\<lambda>(d, k1). (Option.bind d decode_rpm, k1)) (read_register u REG_RPM k)"

definition read_speed :: "'s uart \<Rightarrow> 's kds \<Rightarrow> (f32 option \<times> 's kds) option" where
  "read_speed u k = map_option (\<lambda>(d, k1). (Option.bind d decode_speed, k1)) (read_register u REG_SPEED k)"

definition odd_raw :: "u8 list \<Rightarrow> u16" where
  "odd_raw data = be16 (case data of [] \<Rightarrow> 0 | a # _ \<Rightarrow> a) (case data of _ # b # _ \<Rightarrow> b | _ \<Rightarrow> 0)"

definition read_interlock :: "'s uart \<Rightarrow> 's kds \<Rightarrow> ((u16 + bool option) \<times> 's kds) option" where
  "read_interlock u k =
     map_option (\<lambda>(d, k1). (case d of
         None \<Rightarrow> Inr None
       | Some data \<Rightarrow> (case decode_interlock data of Some v \<Rightarrow> Inr (Some v) | None \<Rightarrow> Inl (odd_raw data)), k1))
       (read_register u REG_INTERLOCK k)"

lemmas driver_defs [model_defs] = RSP_TIMEOUT_def TX_BYTE_GAP_def REQUEST_GAP_def KDS_BAUD_def
  BREAK_BAUD_def FAST_INIT_IDLE_def kds_new_def pace_def read_byte_inner_def send_request_def
  read_response_def handshake_def fast_init_pulse_def start_communication_def exchange_def query_def
  read_register_def read_common_def read_ident_def scan_registers_def read_rpm_def read_speed_def
  odd_raw_def read_interlock_def

section \<open>What a byte source gives the transport\<close>

context byte_source begin

lemma read_exact_ok:
  "n \<le> length (pending s) \<Longrightarrow>
    \<exists>s'. read_exact rd n acc s = (acc @ take n (pending s), s') \<and> pending s' = drop n (pending s)"
proof (induction n arbitrary: acc s)
  case (Suc n)
  then obtain b bs where p: "pending s = b # bs" by (cases "pending s") auto
  from read_byte [OF p] obtain s1 where s1: "rd s = (Some b, s1)" "pending s1 = bs" by blast
  then show ?case using Suc.IH [of s1 "acc @ [b]"] Suc.prems p by auto
qed simp

end

lemma send_request_ok:
  assumes "byte_source (read_byte_inner u) pend" "build_request p = Some fr"
    "send_bytes u fr (k_io k) = (True, s1)" "length fr \<le> length (pend s1)"
  shows "\<exists>s2. send_request u p k = Some (True, k\<lparr>k_io := s2, k_last_activity := Some (now u s2)\<rparr>)
    \<and> pend s2 = drop (length fr) (pend s1)"
proof -
  from byte_source.read_exact_ok [OF assms(1,4), of "[]"] obtain s2
    where "read_exact (read_byte_inner u) (length fr) [] s1 = (take (length fr) (pend s1), s2)"
      "pend s2 = drop (length fr) (pend s1)" by auto
  with assms(2,3) show ?thesis by (intro exI [of _ s2]) (simp add: send_request_def)
qed

lemma read_response_spec:
  assumes "byte_source (read_byte_inner u) pend"
  shows "\<exists>s. read_response u k = (case frame_spec (pend (k_io k)) of
      Inr f \<Rightarrow> Some (f_payload f) | Inl _ \<Rightarrow> None, k\<lparr>k_io := s, k_last_activity := Some (now u s)\<rparr>)"
  using byte_source.parse_frame_spec [OF assms, of "k_io k"]
  by (cases "parse_response (read_byte_inner u) (k_io k)")
    (auto simp: read_response_def split: sum.split)

lemma pace_fields: "k_connected (pace u k) = k_connected k" "k_last_activity (pace u k) = k_last_activity k"
  by (simp_all add: pace_def Let_def split: option.split)

lemma send_request_fields:
  "send_request u p k = Some (b, k') \<Longrightarrow> k_connected k' = k_connected k"
  by (auto simp: send_request_def split: option.splits prod.splits bool.splits)

lemma read_response_fields:
  "read_response u k = (r, k') \<Longrightarrow> k_connected k' = k_connected k"
  by (auto simp: read_response_def Let_def split: prod.splits sum.splits)

lemma handshake_fields:
  "handshake u p ok k = Some (b, k') \<Longrightarrow> k_connected k' = k_connected k"
  using send_request_fields read_response_fields
  by (fastforce simp: handshake_def split: option.splits prod.splits bool.splits)

lemma handshake_true:
  "handshake u p ok k = Some (True, k') \<Longrightarrow>
    \<exists>k1 r. send_request u p k = Some (True, k1) \<and> read_response u k1 = (Some r, k') \<and> ok \<in> set r"
  by (auto simp: handshake_def split: option.splits prod.splits bool.splits)

section \<open>Returning\<close>

definition drains :: "'s uart \<Rightarrow> ('s \<Rightarrow> nat) \<Rightarrow> bool" where
  "drains u left \<longleftrightarrow> (\<forall>s bs s'. uart_read u 16 0 s = (Some bs, s') \<longrightarrow> bs \<noteq> [] \<longrightarrow> left s' < left s)"

lemma drain_returns: "drains u left \<Longrightarrow> \<exists>s'. drain_rx u s = Some s'"
proof (induction "left s" arbitrary: s rule: less_induct)
  case less
  obtain r s1 where r: "uart_read u 16 0 s = (r, s1)" by fastforce
  show ?case
  proof (cases "\<exists>bs. r = Some bs \<and> bs \<noteq> []")
    case True
    then have "left s1 < left s" using less.prems r unfolding drains_def by blast
    from less.hyps [OF this less.prems] show ?thesis
      using True r by (subst drain_rx.simps) auto
  next
    case False
    then show ?thesis using r by (subst drain_rx.simps) (auto split: option.split)
  qed
qed

lemma send_request_returns:
  "p \<noteq> [] \<Longrightarrow> length p \<le> MAX_PAYLOAD \<Longrightarrow> \<exists>x. send_request u p k = Some x"
  by (auto simp: send_request_def build_request_def Let_def split: prod.split bool.split)

lemma handshake_returns: "p \<noteq> [] \<Longrightarrow> length p \<le> MAX_PAYLOAD \<Longrightarrow> \<exists>x. handshake u p ok k = Some x"
  using send_request_returns [of p u k]
  by (auto simp: handshake_def split: prod.split bool.split option.split)

lemma start_returns:
  assumes "drains u left"
  shows "\<exists>ok k'. start_communication u k = Some (ok, k')"
proof -
  have h: "\<exists>x. handshake u p ok k = Some x" if "p \<in> {[SVC_START], [SVC_SESSION, SVC_SESSION_KDS]}" for p ok k
    using that by (intro handshake_returns) (auto simp: MAX_PAYLOAD_def)
  obtain s1 where s1: "drain_rx u (k_io k) = Some s1" using drain_returns [OF assms] by blast
  obtain p s2 where p: "fast_init_pulse u (sleep u FAST_INIT_IDLE s1) = (p, s2)" by fastforce
  obtain s3 where s3: "drain_rx u (sleep u 22000 s2) = Some s3" using drain_returns [OF assms] by blast
  obtain b1 k1 where h1: "handshake u [SVC_START] SVC_START_OK (k\<lparr>k_connected := False, k_io := s3\<rparr>) = Some (b1, k1)"
    using h by fastforce
  obtain b2 k2 where h2: "handshake u [SVC_SESSION, SVC_SESSION_KDS] SVC_SESSION_OK (pace u k1) = Some (b2, k2)"
    using h by fastforce
  show ?thesis
    using s1 p s3 h1 h2 by (cases p; cases b1; cases b2) (auto simp: start_communication_def Let_def)
qed

lemma query_returns:
  assumes "p \<noteq> []" "length p \<le> MAX_PAYLOAD"
  shows "\<exists>d k'. query u p ok ident k = Some (d, k') \<and> k_connected k' = k_connected k"
proof -
  obtain b k1 where s: "send_request u p (pace u k) = Some (b, k1)"
    using send_request_returns [OF assms, of u "pace u k"] by auto
  then have c1: "k_connected k1 = k_connected k" using send_request_fields [OF s] by (simp add: pace_fields)
  obtain r k2 where r: "read_response u k1 = (r, k2)" by fastforce
  then have "k_connected k2 = k_connected k" using read_response_fields [OF r] c1 by simp
  then show ?thesis using s r c1
    by (cases b; cases r) (auto simp: query_def exchange_def)
qed

lemma register_returns:
  "\<exists>d k'. read_register u reg k = Some (d, k') \<and> k_connected k' = k_connected k"
  unfolding read_register_def by (rule query_returns) (simp_all add: MAX_PAYLOAD_def)

text \<open>How fast init ends: early, at a failed handshake, or after both.\<close>

lemma start_cases:
  assumes "start_communication u k = Some (ok, k')"
  shows "\<not> ok \<and> \<not> k_connected k' \<or>
    ok \<and> k_connected k' \<and> (\<exists>k1 k2 k3 k4 k5 r1 r2. send_request u [SVC_START] k1 = Some (True, k2)
        \<and> read_response u k2 = (Some r1, k3) \<and> SVC_START_OK \<in> set r1
        \<and> send_request u [SVC_SESSION, SVC_SESSION_KDS] (pace u k3) = Some (True, k4)
        \<and> read_response u k4 = (Some r2, k5) \<and> SVC_SESSION_OK \<in> set r2
        \<and> k' = k5\<lparr>k_connected := True\<rparr>)"
proof -
  let ?k0 = "k\<lparr>k_connected := False\<rparr>"
  obtain s1 where s1: "drain_rx u (k_io k) = Some s1"
    using assms by (auto simp: start_communication_def Let_def split: option.splits)
  obtain p s2 where p: "fast_init_pulse u (sleep u FAST_INIT_IDLE s1) = (p, s2)" by fastforce
  show ?thesis
  proof (cases p)
    case False
    then show ?thesis using assms s1 p by (auto simp: start_communication_def Let_def)
  next
    case True
    then obtain s3 where s3: "drain_rx u (sleep u 22000 s2) = Some s3"
      using assms s1 p by (auto simp: start_communication_def Let_def split: option.splits)
    obtain b1 k1 where h1: "handshake u [SVC_START] SVC_START_OK (?k0\<lparr>k_io := s3\<rparr>) = Some (b1, k1)"
      using assms s1 p s3 True by (auto simp: start_communication_def Let_def split: option.splits)
    have c1: "\<not> k_connected k1" using handshake_fields [OF h1] by simp
    show ?thesis
    proof (cases b1)
      case False
      then show ?thesis using assms s1 p s3 h1 True c1 by (auto simp: start_communication_def Let_def)
    next
      case b1: True
      obtain b2 k2 where h2: "handshake u [SVC_SESSION, SVC_SESSION_KDS] SVC_SESSION_OK (pace u k1) = Some (b2, k2)"
        using assms s1 p s3 h1 True b1 by (auto simp: start_communication_def Let_def split: option.splits)
      have c2: "\<not> k_connected k2" using handshake_fields [OF h2] c1 by (simp add: pace_fields)
      show ?thesis
      proof (cases b2)
        case False
        then show ?thesis using assms s1 p s3 h1 h2 True b1 c2 by (auto simp: start_communication_def Let_def)
      next
        case b2: True
        then have "ok" "k' = k2\<lparr>k_connected := True\<rparr>"
          using assms s1 p s3 h1 h2 True b1 by (auto simp: start_communication_def Let_def)
        then show ?thesis
          using handshake_true [OF h1 [unfolded b1 [THEN eqTrueI]]] handshake_true [OF h2 [unfolded b2 [THEN eqTrueI]]]
          by auto blast
      qed
    qed
  qed
qed

section \<open>Properties\<close>

lemma connected_after_both_handshakes_facts:
  assumes "start_communication u k = Some (ok, k')"
  shows "k_connected k' = ok"
    and "ok \<longrightarrow> (\<exists>k1 k2 k3 k4 k5 r1 r2. send_request u [SVC_START] k1 = Some (True, k2)
        \<and> read_response u k2 = (Some r1, k3) \<and> SVC_START_OK \<in> set r1
        \<and> send_request u [SVC_SESSION, SVC_SESSION_KDS] (pace u k3) = Some (True, k4)
        \<and> read_response u k4 = (Some r2, k5) \<and> SVC_SESSION_OK \<in> set r2
        \<and> k' = k5\<lparr>k_connected := True\<rparr>)"
  using start_cases [OF assms] by fastforce+

definition list_uart :: "(nat \<times> u8 list) uart" where
  "list_uart = \<lparr>change_baudrate = \<lambda>_ s. (True, s), uart_write = \<lambda>_ s. (True, s),
     wait_tx_done = \<lambda>_ s. s, uart_read = \<lambda>n _ s. (Some (take n (snd s)), (fst s, drop n (snd s))),
     sleep = \<lambda>d s. (fst s + d, snd s), now = fst\<rparr>"

lemma list_uart_source: "byte_source (read_byte_inner list_uart) snd"
  by unfold_locales (auto simp: read_byte_inner_def list_uart_def)

lemma list_uart_drains: "drains list_uart (length \<circ> snd)"
  by (auto simp: drains_def list_uart_def)

text \<open>
  Connected means both handshakes: fast init reports success exactly when it leaves the driver
  connected, and then the reply to startCommunication contained 0xC1 and the reply to
  startDiagnosticSession 0x50.
\<close>

lemma connected_after_both_handshakes:
  assumes "start_communication u k = Some (ok, k')"
  shows "k_connected k' = ok
    \<and> (ok \<longrightarrow> (\<exists>k1 k2 k3 k4 k5 r1 r2. send_request u [SVC_START] k1 = Some (True, k2)
        \<and> read_response u k2 = (Some r1, k3) \<and> SVC_START_OK \<in> set r1
        \<and> send_request u [SVC_SESSION, SVC_SESSION_KDS] (pace u k3) = Some (True, k4)
        \<and> read_response u k4 = (Some r2, k5) \<and> SVC_SESSION_OK \<in> set r2
        \<and> k' = k5\<lparr>k_connected := True\<rparr>))"
  using connected_after_both_handshakes_facts [OF assms] by blast

lemma connected_after_both_handshakes_witness:
  "\<exists>k'. start_communication list_uart (kds_new (0, [])) = Some (False, k') \<and> k_connected k' = False"
proof -
  have "\<exists>k'. start_communication list_uart (kds_new (0, [])) = Some (False, k')"
    by (simp add: start_communication_def kds_new_def drain_rx.simps list_uart_def fast_init_pulse_def
        handshake_def send_request_def build_request_def read_response_def parse_response_def
        read_byte_inner_def Let_def MAX_PAYLOAD_def)
  then obtain k' where k': "start_communication list_uart (kds_new (0, [])) = Some (False, k')" by blast
  from connected_after_both_handshakes [OF k'] k' show ?thesis by blast
qed

text \<open>
  Fast init always comes back, given a receive buffer that empties: it neither panics nor
  drains for ever.
\<close>

lemma start_communication_returns:
  assumes "drains u left"
  shows "\<exists>ok k'. start_communication u k = Some (ok, k')"
  by (rule start_returns [OF assms])

lemma start_communication_returns_witness:
  "drains list_uart (length \<circ> snd)
   \<and> (\<exists>ok k'. start_communication list_uart (kds_new (0, [0, 1, 2])) = Some (ok, k'))"
  using list_uart_drains start_communication_returns [OF list_uart_drains] by blast

text \<open>
  C32. Pacing: given a sleep that lasts at least as long as asked, a query on a connected driver
  transmits its first byte no sooner than 60 ms after the last bus activity; a query on a
  driver that is not connected does nothing at all.
\<close>

theorem query_respects_p3min:
  assumes "\<And>d s. now u s + d \<le> now u (sleep u d s)" and "k_last_activity k = Some t"
    and "t \<le> now u (k_io k)" and "k_connected k"
  shows "\<exists>s. t + 60000 \<le> now u s \<and> query u p sv ident k = exchange u p sv ident (k\<lparr>k_io := s\<rparr>)"
proof -
  let ?s = "k_io (pace u k)"
  have "t + 60000 \<le> now u ?s"
    using assms(1) [of "k_io k" "REQUEST_GAP - (now u (k_io k) - t)"] assms(2,3)
    by (auto simp: pace_def Let_def REQUEST_GAP_def)
  moreover have "pace u k = k\<lparr>k_io := ?s\<rparr>"
    by (simp add: pace_def Let_def split: option.split)
  ultimately show ?thesis using assms(4) by (metis query_def)
qed

theorem query_respects_p3min_witness:
  "\<exists>s. 5 + 60000 \<le> now list_uart s
     \<and> query list_uart [SVC_READ, 9] SVC_READ_OK [9] \<lparr>k_io = (1000, []), k_connected = True, k_last_activity = Some 5\<rparr>
       = exchange list_uart [SVC_READ, 9] SVC_READ_OK [9]
           (\<lparr>k_io = (1000, []), k_connected = True, k_last_activity = Some 5\<rparr>\<lparr>k_io := s\<rparr>)"
  by (rule query_respects_p3min) (simp_all add: list_uart_def)

text \<open>
  C33. End to end: when the transmitted bytes come back as echo, what follows them on the line
  decides the query: a well-framed reply delivers its positive data, whatever its checksum, anything
  else delivers nothing; the driver stays connected.
\<close>

theorem reply_is_delivered:
  assumes "byte_source (read_byte_inner u) pend" and "k_connected k"
    and "build_request p = Some fr" and "send_bytes u fr (k_io (pace u k)) = (True, s1)"
    and "pend s1 = echo @ reply" and "length echo = length fr"
  shows "\<exists>k'. query u p sv ident k = Some
      (case frame_spec reply of Inr f \<Rightarrow> positive_data (f_payload f) sv ident | Inl _ \<Rightarrow> None, k')
    \<and> k_connected k'"
proof -
  obtain s2 where s2: "send_request u p (pace u k)
      = Some (True, (pace u k)\<lparr>k_io := s2, k_last_activity := Some (now u s2)\<rparr>)" "pend s2 = reply"
    using send_request_ok [OF assms(1,3,4)] assms(5,6) by auto
  let ?k1 = "(pace u k)\<lparr>k_io := s2, k_last_activity := Some (now u s2)\<rparr>"
  obtain s3 where s3: "read_response u ?k1 = (case frame_spec reply of
      Inr f \<Rightarrow> Some (f_payload f) | Inl _ \<Rightarrow> None, ?k1\<lparr>k_io := s3, k_last_activity := Some (now u s3)\<rparr>)"
    using read_response_spec [OF assms(1), of ?k1] s2(2) by auto
  show ?thesis
    using assms(2) s2(1) s3
    by (cases "frame_spec reply") (auto simp: query_def exchange_def pace_fields)
qed

theorem reply_is_delivered_witness:
  "\<exists>k'. query list_uart [SVC_READ, REG_RPM] SVC_READ_OK [REG_RPM]
      \<lparr>k_io = (0, [0, 0, 0, 0, 0, 0] @ [0x84, 0xF2, 0x11, 0x61, 0x09, 0x1C, 0x52, 0]), k_connected = True,
        k_last_activity = None\<rparr> = Some (Some [0x1C, 0x52], k') \<and> k_connected k'"
proof -
  let ?reply = "[0x84, 0xF2, 0x11, 0x61, 0x09, 0x1C, 0x52, 0] :: u8 list"
  let ?k = "\<lparr>k_io = (0, [0, 0, 0, 0, 0, 0] @ ?reply), k_connected = True, k_last_activity = None\<rparr>"
  have b: "build_request [SVC_READ, REG_RPM] = Some [0x82, 0x11, 0xF2, 0x21, 0x09, 0xAF]" by code_simp
  have f: "frame_spec ?reply = Inr \<lparr>f_raw = ?reply, f_payload = [0x61, 0x09, 0x1C, 0x52], f_checksum_ok = False\<rparr>"
    by code_simp
  have d: "positive_data [0x61, 0x09, 0x1C, 0x52] SVC_READ_OK [REG_RPM] = Some [0x1C, 0x52]" by code_simp
  obtain c where s: "send_bytes list_uart [0x82, 0x11, 0xF2, 0x21, 0x09, 0xAF] (k_io (pace list_uart ?k))
      = (True, (c, [0, 0, 0, 0, 0, 0] @ ?reply))"
    by (simp add: list_uart_def pace_def)
  have "\<exists>k'. query list_uart [SVC_READ, REG_RPM] SVC_READ_OK [REG_RPM] ?k = Some
      (case frame_spec ?reply of Inr f \<Rightarrow> positive_data (f_payload f) SVC_READ_OK [REG_RPM] | Inl _ \<Rightarrow> None, k')
    \<and> k_connected k'"
    by (rule reply_is_delivered [OF list_uart_source _ b s, of "[0, 0, 0, 0, 0, 0]"]) simp_all
  then show ?thesis by (simp only: f sum.case frame.select_convs d)
qed

end
