(* ===== verification/Learn_Store.thy ===== *)
theory Learn_Store
  imports Ble_Json
begin

text \<open>
  Flash persistence of the learner, \<open>esp32/src/learn_store.rs\<close>: the ride tallies and their
  64-byte blob, and the learner's load, save, wipe and counting operations. Flash (ESP-IDF's
  NVS), the reset reason and the free heap come from the platform: the flash operations are
  the parameter \<open>nv\<close>, the two readings are arguments. Counters wrap as in a release build.
\<close>

section \<open>Flash operations\<close>

text \<open>
  \<open>get_blob\<close> of a key into a buffer of a length: an error, or the stored bytes if any;
  \<open>set_blob\<close>: whether it succeeded and the new flash.
\<close>

record 'n nvs_ops =
  get_blob :: "'n \<Rightarrow> string \<Rightarrow> nat \<Rightarrow> unit + u8 list option"
  set_blob :: "'n \<Rightarrow> string \<Rightarrow> u8 list \<Rightarrow> bool \<times> 'n"

definition NVS_KEY :: string where "NVS_KEY = ''hist''"
definition NVS_DBG_KEY :: string where "NVS_DBG_KEY = ''dbg''"
definition DBG_LEN :: nat where "DBG_LEN = 16 * 4"

section \<open>Ride tallies\<close>

record ride_debug =
  r_outcomes :: "u32 list"
  r_boots :: u32
  r_link_drops :: u32
  r_abnormal_resets :: u32
  r_last_reset_reason :: u32
  r_max_rpm :: f32
  r_max_speed :: f32
  r_min_free_heap :: u32
  r_interlock_odd :: u32
  r_interlock_last_odd :: u32

definition default_debug :: ride_debug where
  "default_debug = \<lparr>r_outcomes = replicate 7 0, r_boots = 0, r_link_drops = 0, r_abnormal_resets = 0,
     r_last_reset_reason = 0, r_max_rpm = 0, r_max_speed = 0, r_min_free_heap = 0,
     r_interlock_odd = 0, r_interlock_last_odd = 0\<rparr>"

definition reset_reason_name :: "u32 \<Rightarrow> string" where
  "reset_reason_name r =
     (if r = 1 then ''power-on'' else if r = 3 then ''software'' else if r = 4 then ''panic''
      else if 5 \<le> r \<and> r \<le> 7 then ''watchdog'' else if r = 8 then ''deep-sleep''
      else if r = 9 then ''brownout'' else if r = 10 then ''sdio'' else ''unknown'')"

fun outcome_index :: "sample_outcome \<Rightarrow> nat" where
  "outcome_index Accepted = 0"
| "outcome_index ClutchPulled = 1"
| "outcome_index InNeutral = 2"
| "outcome_index RpmLow = 3"
| "outcome_index SpeedLow = 4"
| "outcome_index OutOfRange = 5"
| "outcome_index BinFull = 6"

definition debug_record :: "ride_debug \<Rightarrow> sample_outcome \<Rightarrow> f32 \<Rightarrow> f32 \<Rightarrow> ride_debug" where
  "debug_record d out r s =
     (if r < 1 \<and> s < 1 then d
      else let i = outcome_index out in
        d\<lparr>r_outcomes := (r_outcomes d)[i := r_outcomes d ! i + 1],
          r_max_rpm := f32_max (r_max_rpm d) r, r_max_speed := f32_max (r_max_speed d) s\<rparr>)"

definition debug_words :: "ride_debug \<Rightarrow> u32 list" where
  "debug_words d = r_outcomes d @ [r_boots d, r_link_drops d, r_abnormal_resets d,
     r_last_reset_reason d, to_bits (r_max_rpm d), to_bits (r_max_speed d), r_min_free_heap d,
     r_interlock_odd d, r_interlock_last_odd d]"

definition debug_to_blob :: "ride_debug \<Rightarrow> u8 list" where
  "debug_to_blob d = concat (map u32_le (debug_words d))"

definition le_word :: "u8 list \<Rightarrow> nat \<Rightarrow> u32" where
  "le_word bs i = u32_of_le (bs ! (i * 4)) (bs ! (i * 4 + 1)) (bs ! (i * 4 + 2)) (bs ! (i * 4 + 3))"

definition debug_from_blob :: "u8 list \<Rightarrow> ride_debug option" where
  "debug_from_blob bs =
     (if length bs \<noteq> DBG_LEN then None
      else Some \<lparr>r_outcomes = map (le_word bs) [0..<7], r_boots = le_word bs 7,
        r_link_drops = le_word bs 8, r_abnormal_resets = le_word bs 9,
        r_last_reset_reason = le_word bs 10, r_max_rpm = F32 (le_word bs 11),
        r_max_speed = F32 (le_word bs 12), r_min_free_heap = le_word bs 13,
        r_interlock_odd = le_word bs 14, r_interlock_last_odd = le_word bs 15\<rparr>)"

section \<open>The learner\<close>

record 'n learner =
  ln_nvs :: 'n
  ln_hist :: ratio_histogram
  ln_dirty :: bool
  ln_debug :: ride_debug

definition load_debug :: "'n nvs_ops \<Rightarrow> 'n \<Rightarrow> u32 \<Rightarrow> ride_debug" where
  "load_debug nv n reason =
     (let d0 = (case get_blob nv n NVS_DBG_KEY DBG_LEN of
                  Inr (Some data) \<Rightarrow> (case debug_from_blob data of Some d \<Rightarrow> d | None \<Rightarrow> default_debug)
                | _ \<Rightarrow> default_debug);
          d1 = d0\<lparr>r_boots := r_boots d0 + 1, r_last_reset_reason := reason\<rparr>
      in if reason = 1 \<or> reason = 3 then d1
         else d1\<lparr>r_abnormal_resets := r_abnormal_resets d1 + 1\<rparr>)"

definition load_hist :: "'n nvs_ops \<Rightarrow> 'n \<Rightarrow> ratio_histogram" where
  "load_hist nv n =
     (case get_blob nv n NVS_KEY BLOB_LEN of
        Inr (Some data) \<Rightarrow> (case from_blob data of Some h \<Rightarrow> h | None \<Rightarrow> new_hist)
      | _ \<Rightarrow> new_hist)"

definition learner_new :: "'n nvs_ops \<Rightarrow> 'n \<Rightarrow> u32 \<Rightarrow> 'n learner" where
  "learner_new nv n reason =
     (let (h, marked) = debug_mark (load_hist nv n)
      in \<lparr>ln_nvs = n, ln_hist = h, ln_dirty = marked, ln_debug = load_debug nv n reason\<rparr>)"

definition floor_heap :: "ride_debug \<Rightarrow> u32 \<Rightarrow> ride_debug" where
  "floor_heap d free = (if r_min_free_heap d = 0 \<or> free < r_min_free_heap d
     then d\<lparr>r_min_free_heap := free\<rparr> else d)"

definition learner_save :: "'n nvs_ops \<Rightarrow> u32 \<Rightarrow> 'n learner \<Rightarrow> bool \<times> 'n learner" where
  "learner_save nv free l =
     (let d = floor_heap (ln_debug l) free;
          (_, n1) = set_blob nv (ln_nvs l) NVS_DBG_KEY (debug_to_blob d);
          l1 = l\<lparr>ln_debug := d, ln_nvs := n1\<rparr>
      in if \<not> ln_dirty l then (False, l1)
         else let (ok, n2) = set_blob nv n1 NVS_KEY (to_blob (ln_hist l))
              in if ok then (True, l1\<lparr>ln_nvs := n2, ln_dirty := False\<rparr>)
                 else (False, l1\<lparr>ln_nvs := n2\<rparr>))"

definition learner_black_box :: "'n learner \<Rightarrow> black_box" where
  "learner_black_box l = (let d = ln_debug l in
     \<lparr>b_boots = r_boots d, b_abnormal_resets = r_abnormal_resets d,
      b_last_reset_reason = reset_reason_name (r_last_reset_reason d),
      b_link_drops = r_link_drops d, b_min_free_heap = r_min_free_heap d,
      b_interlock_odd = r_interlock_odd d, b_interlock_last_odd = ucast (r_interlock_last_odd d),
      b_max_rpm = r_max_rpm d, b_max_speed = r_max_speed d, b_outcomes = r_outcomes d\<rparr>)"

definition learner_clear_black_box :: "'n nvs_ops \<Rightarrow> 'n learner \<Rightarrow> 'n learner" where
  "learner_clear_black_box nv l =
     (let d = default_debug\<lparr>r_boots := 1\<rparr>;
          (_, n) = set_blob nv (ln_nvs l) NVS_DBG_KEY (debug_to_blob d)
      in l\<lparr>ln_debug := d, ln_nvs := n\<rparr>)"

definition learner_clear :: "'n nvs_ops \<Rightarrow> u32 \<Rightarrow> 'n learner \<Rightarrow> 'n learner" where
  "learner_clear nv free l =
     snd (learner_save nv free (l\<lparr>ln_hist := clear_hist (ln_hist l), ln_debug := default_debug,
       ln_dirty := True\<rparr>))"

definition note_link_drop :: "'n learner \<Rightarrow> 'n learner" where
  "note_link_drop l = (let d = ln_debug l in l\<lparr>ln_debug := d\<lparr>r_link_drops := r_link_drops d + 1\<rparr>\<rparr>)"

definition note_interlock_odd :: "u16 \<Rightarrow> 'n learner \<Rightarrow> 'n learner" where
  "note_interlock_odd raw l = (let d = ln_debug l in
     l\<lparr>ln_debug := d\<lparr>r_interlock_odd := r_interlock_odd d + 1, r_interlock_last_odd := ucast raw\<rparr>\<rparr>)"

definition learner_add :: "f32 \<Rightarrow> f32 \<Rightarrow> bool \<Rightarrow> bool \<Rightarrow> 'n learner \<Rightarrow> 'n learner" where
  "learner_add r s clutch neutral l =
     (let (h, out) = add_sample (ln_hist l) r s clutch neutral
      in l\<lparr>ln_hist := h, ln_debug := debug_record (ln_debug l) out r s,
           ln_dirty := (out = Accepted \<or> ln_dirty l)\<rparr>)"

definition learner_derive :: "'n learner \<Rightarrow> f32 list \<Rightarrow> (f32 list \<times> nat) option option" where
  "learner_derive l refs = derive_bands (ln_hist l) refs"

lemmas store_defs [model_defs] = NVS_KEY_def NVS_DBG_KEY_def DBG_LEN_def default_debug_def
  reset_reason_name_def debug_record_def debug_words_def debug_to_blob_def le_word_def
  debug_from_blob_def load_debug_def load_hist_def learner_new_def floor_heap_def learner_save_def
  learner_black_box_def learner_clear_black_box_def learner_clear_def note_link_drop_def
  note_interlock_odd_def learner_add_def learner_derive_def

section \<open>The tallies' blob\<close>

lemma concat_u32_len [simp]: "length (concat (map u32_le ws)) = 4 * length ws"
  by (rule concat_len_const) simp

lemma le_word_concat: "i < length ws \<Longrightarrow> le_word (concat (map u32_le ws)) i = ws ! i"
proof (induction ws arbitrary: i)
  case (Cons w ws)
  have c: "concat (map u32_le (w # ws)) = u32_le w @ concat (map u32_le ws)" by simp
  show ?case
  proof (cases i)
    case 0
    then show ?thesis by (simp add: le_word_def u32_le_def)
  next
    case (Suc j)
    have "le_word (u32_le w @ bs) (Suc j) = le_word bs j" for bs
      by (simp add: le_word_def nth_append add.commute [of 3])
    then show ?thesis using Suc Cons by simp
  qed
qed simp

text \<open>Two byte strings of whole words are equal when their words are.\<close>

lemma words_of_bytes: "length bs = 4 * n \<Longrightarrow> concat (map u32_le (map (le_word bs) [0..<n])) = bs"
proof (induction n arbitrary: bs)
  case (Suc n)
  have split: "[bs ! 0, bs ! 1, bs ! 2, bs ! 3] @ drop 4 bs = bs" using Suc.prems by (intro split4) simp
  have "le_word bs (Suc i) = le_word (drop 4 bs) i" if "i < n" for i
    using Suc.prems that by (simp add: le_word_def add.commute)
  then have "map (le_word bs) [0..<Suc n] = le_word bs 0 # map (le_word (drop 4 bs)) [0..<n]"
    by (simp add: upt_conv_Cons map_Suc_upt [symmetric] del: upt_Suc)
  moreover have "u32_le (le_word bs 0) = [bs ! 0, bs ! 1, bs ! 2, bs ! 3]"
    by (simp add: le_word_def numeral_2_eq_2)
  moreover have "concat (map u32_le (map (le_word (drop 4 bs)) [0..<n])) = drop 4 bs"
    using Suc.prems by (intro Suc.IH) simp
  ultimately show ?case using split by simp
qed simp

interpretation debug_blob: fixed_codec debug_to_blob debug_from_blob "\<lambda>d. length (r_outcomes d) = 7" DBG_LEN
proof
  fix d :: ride_debug and bs :: "u8 list"
  have ws: "length (debug_words d) = 16" if "length (r_outcomes d) = 7"
    using that by (simp add: debug_words_def)
  show "length (debug_to_blob d) = DBG_LEN" if "length (r_outcomes d) = 7"
    using ws [OF that] by (simp add: debug_to_blob_def DBG_LEN_def)
  show "debug_from_blob (debug_to_blob d) = Some d" if o7: "length (r_outcomes d) = 7"
  proof -
    have w: "le_word (debug_to_blob d) i = debug_words d ! i" if "i < 16" for i
      unfolding debug_to_blob_def using that ws [OF o7] by (intro le_word_concat) simp
    have "map (le_word (debug_to_blob d)) [0..<7] = r_outcomes d"
      by (rule nth_equalityI) (auto simp: o7 w debug_words_def nth_append simp del: upt_rec_numeral)
    moreover have "length (debug_to_blob d) = DBG_LEN"
      using ws [OF o7] by (simp add: debug_to_blob_def DBG_LEN_def)
    ultimately show ?thesis
      by (simp add: debug_from_blob_def w del: upt_rec_numeral) (simp add: debug_words_def nth_append o7)
  qed
  show "length bs = DBG_LEN" if "debug_from_blob bs = Some d"
    using that by (simp add: debug_from_blob_def split: if_splits)
  show "length (r_outcomes d) = 7" if "debug_from_blob bs = Some d"
    using that by (auto simp: debug_from_blob_def split: if_splits)
  show "\<exists>d. debug_from_blob bs = Some d \<and> debug_to_blob d = bs" if "length bs = DBG_LEN"
  proof -
    have "[0..<16] = [0..<7] @ [7, 8, 9, 10, 11, 12, 13, 14, 15]" by code_simp
    then have "concat (map u32_le (map (le_word bs) ([0..<7] @ [7, 8, 9, 10, 11, 12, 13, 14, 15]))) = bs"
      using words_of_bytes [of bs 16] that by (simp add: DBG_LEN_def del: upt_rec_numeral)
    then show ?thesis
      using that by (simp add: debug_from_blob_def debug_to_blob_def debug_words_def del: upt_rec_numeral)
  qed
qed

section \<open>What flash promises\<close>

text \<open>
  NVS as documented: a successful write is read back through any buffer that holds it, and a
  write, successful or not, leaves the other keys as they were.
\<close>

definition nvs_lawful :: "'n nvs_ops \<Rightarrow> bool" where
  "nvs_lawful nv \<longleftrightarrow> (\<forall>n k b. let (ok, n') = set_blob nv n k b in
     (ok \<longrightarrow> (\<forall>len. length b \<le> len \<longrightarrow> get_blob nv n' k len = Inr (Some b)))
     \<and> (\<forall>k' len. k' \<noteq> k \<longrightarrow> get_blob nv n' k' len = get_blob nv n k' len))"

lemma lawful_ok:
  assumes "nvs_lawful nv" "set_blob nv n k b = (True, n')" "length b \<le> len"
  shows "get_blob nv n' k len = Inr (Some b)"
proof -
  have "let (ok, n') = set_blob nv n k b in
     (ok \<longrightarrow> (\<forall>len. length b \<le> len \<longrightarrow> get_blob nv n' k len = Inr (Some b)))
     \<and> (\<forall>k' len. k' \<noteq> k \<longrightarrow> get_blob nv n' k' len = get_blob nv n k' len)"
    using assms(1) unfolding nvs_lawful_def by blast
  then show ?thesis using assms(2,3) by simp
qed

lemma lawful_other:
  assumes "nvs_lawful nv" "set_blob nv n k b = (ok, n')" "k' \<noteq> k"
  shows "get_blob nv n' k' len = get_blob nv n k' len"
proof -
  have "let (ok, n') = set_blob nv n k b in
     (ok \<longrightarrow> (\<forall>len. length b \<le> len \<longrightarrow> get_blob nv n' k len = Inr (Some b)))
     \<and> (\<forall>k' len. k' \<noteq> k \<longrightarrow> get_blob nv n' k' len = get_blob nv n k' len)"
    using assms(1) unfolding nvs_lawful_def by blast
  then show ?thesis using assms(2,3) by simp
qed

lemma keys_differ: "NVS_KEY \<noteq> NVS_DBG_KEY"
  by (simp add: NVS_KEY_def NVS_DBG_KEY_def)

definition stored :: "'n nvs_ops \<Rightarrow> 'n \<Rightarrow> ratio_histogram \<Rightarrow> bool" where
  "stored nv n h \<longleftrightarrow> get_blob nv n NVS_KEY BLOB_LEN = Inr (Some (to_blob h))"

lemma stored_loads: "stored nv n h \<Longrightarrow> length (h_counts h) = BINS \<Longrightarrow> load_hist nv n = h"
  by (simp add: stored_def load_hist_def hist_blob.dec_enc)

lemma stored_dbg: "nvs_lawful nv \<Longrightarrow> set_blob nv n NVS_DBG_KEY b = (ok, n') \<Longrightarrow> stored nv n' h = stored nv n h"
  using lawful_other keys_differ by (metis stored_def)

definition learner_inv :: "'n nvs_ops \<Rightarrow> 'n learner \<Rightarrow> bool" where
  "learner_inv nv l \<longleftrightarrow> length (h_counts (ln_hist l)) = BINS
     \<and> (\<not> ln_dirty l \<longrightarrow> stored nv (ln_nvs l) (ln_hist l))"

datatype learner_event = LAdd f32 f32 bool bool | LSave u32 | LClear u32 | LClearBox
  | LDrop | LOdd u16

fun learner_step :: "'n nvs_ops \<Rightarrow> 'n learner \<Rightarrow> learner_event \<Rightarrow> 'n learner" where
  "learner_step nv l (LAdd r s c n) = learner_add r s c n l"
| "learner_step nv l (LSave free) = snd (learner_save nv free l)"
| "learner_step nv l (LClear free) = learner_clear nv free l"
| "learner_step nv l LClearBox = learner_clear_black_box nv l"
| "learner_step nv l LDrop = note_link_drop l"
| "learner_step nv l (LOdd raw) = note_interlock_odd raw l"

lemma mark_len: "length (h_counts (fst (debug_mark h))) = length (h_counts h)"
  by (simp add: debug_mark_def)

lemma load_hist_cases:
  "load_hist nv n = new_hist \<or> (length (h_counts (load_hist nv n)) = BINS \<and> stored nv n (load_hist nv n))"
proof (cases "get_blob nv n NVS_KEY BLOB_LEN")
  case (Inr o')
  then show ?thesis
    using hist_blob.enc_dec hist_blob.dec_valid
    by (cases o') (auto simp: load_hist_def stored_def split: option.split)
qed (simp add: load_hist_def)

lemma learner_inv_new [inv_intros]: "learner_inv nv (learner_new nv n reason)"
proof (cases "load_hist nv n = new_hist")
  case True
  have "\<not> (5 :: u16) \<le> 0" by code_simp
  then have "snd (debug_mark new_hist)" by (simp add: debug_mark_def new_hist_def BINS_def)
  then show ?thesis
    using mark_len [of new_hist]
    by (simp add: learner_inv_def learner_new_def True case_prod_beta new_hist_def)
next
  case False
  then have h: "length (h_counts (load_hist nv n)) = BINS" "stored nv n (load_hist nv n)"
    using load_hist_cases [of nv n] by blast+
  have "\<not> snd (debug_mark h) \<Longrightarrow> fst (debug_mark h) = h" for h
    by (auto simp: debug_mark_def split: if_splits)
  then show ?thesis
    using h mark_len [of "load_hist nv n"]
    by (auto simp: learner_inv_def learner_new_def case_prod_beta)
qed

lemma learner_inv_save [inv_intros]:
  assumes "nvs_lawful nv" "length (h_counts (ln_hist l)) = BINS"
    "\<not> ln_dirty l \<longrightarrow> stored nv (ln_nvs l) (ln_hist l)"
  shows "learner_inv nv (snd (learner_save nv free l))"
    and "ln_hist (snd (learner_save nv free l)) = ln_hist l"
    and "fst (learner_save nv free l) \<Longrightarrow> \<not> ln_dirty (snd (learner_save nv free l))"
proof -
  obtain ok1 n1 where s1: "set_blob nv (ln_nvs l) NVS_DBG_KEY (debug_to_blob (floor_heap (ln_debug l) free)) = (ok1, n1)"
    by fastforce
  obtain ok2 n2 where s2: "set_blob nv n1 NVS_KEY (to_blob (ln_hist l)) = (ok2, n2)" by fastforce
  have "stored nv n2 (ln_hist l)" if ok2
    using lawful_ok [OF assms(1), of n1 NVS_KEY "to_blob (ln_hist l)" n2 BLOB_LEN] s2 that assms(2)
    by (simp add: stored_def hist_blob.enc_len)
  then show "learner_inv nv (snd (learner_save nv free l))"
    "ln_hist (snd (learner_save nv free l)) = ln_hist l"
    "fst (learner_save nv free l) \<Longrightarrow> \<not> ln_dirty (snd (learner_save nv free l))"
    using assms(2,3) stored_dbg [OF assms(1) s1]
    by (auto simp: learner_save_def learner_inv_def s1 s2 Let_def)
qed

lemma learner_inv_step [inv_intros]:
  assumes "nvs_lawful nv" "learner_inv nv l"
  shows "learner_inv nv (learner_step nv l e)"
proof (cases e)
  case (LAdd r s c n)
  obtain h out where a: "add_sample (ln_hist l) r s c n = (h, out)" by fastforce
  show ?thesis
    using add_sample_cases [OF a] assms(2) LAdd a by (fastforce simp: learner_add_def learner_inv_def)
next
  case (LSave free)
  then show ?thesis using assms learner_inv_save(1) by (auto simp: learner_inv_def)
next
  case (LClear free)
  then show ?thesis
    using assms(1) by (auto simp: learner_clear_def clear_hist_def BINS_def intro!: learner_inv_save(1))
next
  case LClearBox
  obtain ok n where s: "set_blob nv (ln_nvs l) NVS_DBG_KEY (debug_to_blob (default_debug\<lparr>r_boots := 1\<rparr>)) = (ok, n)"
    by fastforce
  show ?thesis
    using assms(2) stored_dbg [OF assms(1) s]
    by (simp add: LClearBox learner_clear_black_box_def Let_def s learner_inv_def)
qed (use assms in \<open>simp_all add: learner_inv_def note_link_drop_def note_interlock_odd_def Let_def\<close>)

lemma learner_inv_run:
  "nvs_lawful nv \<Longrightarrow> learner_inv nv l \<Longrightarrow> learner_inv nv (run (learner_step nv) l evs)"
  by (induction evs arbitrary: l) (auto intro: inv_intros)

section \<open>Properties\<close>

lemma clean_learner_is_stored_facts:
  assumes "nvs_lawful nv" and "l = run (learner_step nv) (learner_new nv n reason) evs"
  shows "\<not> ln_dirty l \<longrightarrow> load_hist nv (ln_nvs l) = ln_hist l"
    and "fst (learner_save nv free l)
      \<longrightarrow> load_hist nv (ln_nvs (snd (learner_save nv free l))) = ln_hist l"
proof -
  have i: "learner_inv nv l"
    unfolding assms(2) by (intro learner_inv_run assms inv_intros)
  then show "\<not> ln_dirty l \<longrightarrow> load_hist nv (ln_nvs l) = ln_hist l"
    using stored_loads [of nv "ln_nvs l" "ln_hist l"] by (auto simp: learner_inv_def)
  show "fst (learner_save nv free l)
      \<longrightarrow> load_hist nv (ln_nvs (snd (learner_save nv free l))) = ln_hist l"
    using learner_inv_save [OF assms(1), of l free] i
      stored_loads [of nv "ln_nvs (snd (learner_save nv free l))" "ln_hist l"]
    by (auto simp: learner_inv_def)
qed

text \<open>A flash that is a map from keys to bytes.\<close>

definition map_flash :: "(string \<rightharpoonup> u8 list) nvs_ops" where
  "map_flash = \<lparr>get_blob = \<lambda>n k len. (case n k of None \<Rightarrow> Inr None
       | Some b \<Rightarrow> if length b \<le> len then Inr (Some b) else Inl ()),
     set_blob = \<lambda>n k b. (True, n(k \<mapsto> b))\<rparr>"

lemma map_flash_lawful: "nvs_lawful map_flash"
  by (simp add: nvs_lawful_def map_flash_def)

text \<open>
  Nothing learned is lost silently: whatever has happened since boot, a learner that is not
  dirty has its exact histogram in flash, where the next boot loads it; and a save that
  reports a write leaves the learner not dirty, with its histogram in flash.
\<close>

lemma clean_learner_is_stored:
  assumes "nvs_lawful nv" and "l = run (learner_step nv) (learner_new nv n reason) evs"
  shows "(\<not> ln_dirty l \<longrightarrow> load_hist nv (ln_nvs l) = ln_hist l)
    \<and> (fst (learner_save nv free l)
      \<longrightarrow> load_hist nv (ln_nvs (snd (learner_save nv free l))) = ln_hist l)"
  using clean_learner_is_stored_facts [OF assms] by blast

lemma clean_learner_is_stored_witness:
  "nvs_lawful map_flash
   \<and> load_hist map_flash (ln_nvs (snd (learner_save map_flash 1000 (learner_new map_flash Map.empty 1))))
       = ln_hist (learner_new map_flash Map.empty 1)"
proof -
  let ?l = "learner_new map_flash Map.empty 1"
  have "ln_dirty ?l"
  proof -
    have "\<not> (5 :: u16) \<le> 0" by code_simp
    then show ?thesis
      by (simp add: learner_new_def load_hist_def map_flash_def debug_mark_def new_hist_def BINS_def)
  qed
  then have "fst (learner_save map_flash 1000 ?l)"
    by (simp add: learner_save_def Let_def map_flash_def)
  then show ?thesis
    using clean_learner_is_stored [OF map_flash_lawful, of ?l Map.empty 1 "[]" 1000] map_flash_lawful
    by simp
qed

lemma ride_tallies_roundtrip_facts:
  "length (r_outcomes d) = 7 \<Longrightarrow> debug_from_blob (debug_to_blob d) = Some d"
  "debug_from_blob bs = Some d' \<Longrightarrow> debug_to_blob d' = bs"
  "debug_from_blob bs = None \<longleftrightarrow> length bs \<noteq> 64"
  using debug_blob.dec_enc debug_blob.enc_dec debug_blob.dec_None_iff
  by (simp_all add: DBG_LEN_def)

text \<open>
  The ride tallies survive reboots bit for bit: 64 bytes, every field read back, floats by
  their bits, and bytes fail to load exactly when their length differs.
\<close>

lemma ride_tallies_roundtrip:
  "(length (r_outcomes d) = 7 \<longrightarrow> debug_from_blob (debug_to_blob d) = Some d)
   \<and> (debug_from_blob bs = Some d' \<longrightarrow> debug_to_blob d' = bs)
   \<and> (debug_from_blob bs = None \<longleftrightarrow> length bs \<noteq> 64)"
  using ride_tallies_roundtrip_facts(1) [of d] ride_tallies_roundtrip_facts(2) [of bs d']
    ride_tallies_roundtrip_facts(3) [of bs] by blast

lemma ride_tallies_roundtrip_witness:
  "debug_from_blob (debug_to_blob (default_debug\<lparr>r_boots := 7\<rparr>)) = Some (default_debug\<lparr>r_boots := 7\<rparr>)"
proof -
  have h: "length (r_outcomes (default_debug\<lparr>r_boots := 7\<rparr>)) = 7" by (simp add: default_debug_def)
  then show ?thesis using ride_tallies_roundtrip by blast
qed

end
