(* ===== verification/Display.thy ===== *)
theory Display
  imports Gear
begin

text \<open>
  The 5x5 matrix, \<open>core/src/display.rs\<close>: glyphs, brightness scaling, the gear frame, the
  update progress bar and the update outcome. A frame buffer is a list of 25 pixels.
\<close>

section \<open>Colours and glyphs\<close>

datatype rgb = RGB8 (red: u8) (green: u8) (blue: u8)

definition GLYPH_N :: "u8 list" where "GLYPH_N = [0b10001, 0b11001, 0b10101, 0b10011, 0b10001]"
definition GLYPH_1 :: "u8 list" where "GLYPH_1 = [0b00100, 0b01100, 0b00100, 0b00100, 0b01110]"
definition GLYPH_2 :: "u8 list" where "GLYPH_2 = [0b01110, 0b00010, 0b01110, 0b01000, 0b01110]"
definition GLYPH_3 :: "u8 list" where "GLYPH_3 = [0b01110, 0b00010, 0b00110, 0b00010, 0b01110]"
definition GLYPH_4 :: "u8 list" where "GLYPH_4 = [0b01010, 0b01010, 0b01110, 0b00010, 0b00010]"
definition GLYPH_5 :: "u8 list" where "GLYPH_5 = [0b01110, 0b01000, 0b01110, 0b00010, 0b01110]"
definition GLYPH_6 :: "u8 list" where "GLYPH_6 = [0b01110, 0b01000, 0b01110, 0b01010, 0b01110]"
definition GLYPH_DASH :: "u8 list" where "GLYPH_DASH = [0b00000, 0b00000, 0b01110, 0b00000, 0b00000]"
definition GLYPH_CHECK :: "u8 list" where "GLYPH_CHECK = [0b00000, 0b00001, 0b00010, 0b10100, 0b01000]"
definition GLYPH_CROSS :: "u8 list" where "GLYPH_CROSS = [0b10001, 0b01010, 0b00100, 0b01010, 0b10001]"

definition GREEN :: rgb where "GREEN = RGB8 0 255 40"
definition CYAN :: rgb where "CYAN = RGB8 0 180 255"
definition DIM_RED :: rgb where "DIM_RED = RGB8 120 10 0"
definition DIM_GREEN :: rgb where "DIM_GREEN = RGB8 0 140 20"
definition STATUS_RED :: rgb where "STATUS_RED = RGB8 255 0 0"
definition BLUE :: rgb where "BLUE = RGB8 0 40 255"
definition OFF :: rgb where "OFF = RGB8 0 0 0"

lemmas glyphs [model_defs] = GLYPH_N_def GLYPH_1_def GLYPH_2_def GLYPH_3_def GLYPH_4_def
  GLYPH_5_def GLYPH_6_def GLYPH_DASH_def GLYPH_CHECK_def GLYPH_CROSS_def

lemmas colours [model_defs] = GREEN_def CYAN_def DIM_RED_def DIM_GREEN_def STATUS_RED_def
  BLUE_def OFF_def

section \<open>Rendering\<close>

definition scale_ch :: "u8 \<Rightarrow> u8 \<Rightarrow> u8" where
  "scale_ch brightness v = ucast ((ucast v * ucast brightness :: u16) div 255)"

definition scale :: "rgb \<Rightarrow> u8 \<Rightarrow> rgb" where
  "scale c brightness = (let s = scale_ch brightness in RGB8 (s (red c)) (s (green c)) (s (blue c)))"

text \<open>The loop that sets a pixel where the row mask has its bit, bit 4 leftmost.\<close>

definition draw_glyph :: "u8 list \<Rightarrow> rgb \<Rightarrow> rgb list" where
  "draw_glyph glyph colour =
     concat (map (\<lambda>mask. map (\<lambda>col. if mask AND push_bit (4 - col) 1 \<noteq> 0 then colour else OFF) [0..<5]) glyph)"

definition glyph_of :: "gear \<Rightarrow> bool \<Rightarrow> u8 list \<times> rgb" where
  "glyph_of g learn_flash =
     (let dash = (if learn_flash then DIM_GREEN else DIM_RED) in
      case g of
        Neutral \<Rightarrow> (GLYPH_N, GREEN)
      | G n \<Rightarrow> if n = 1 then (GLYPH_1, CYAN) else if n = 2 then (GLYPH_2, CYAN)
              else if n = 3 then (GLYPH_3, CYAN) else if n = 4 then (GLYPH_4, CYAN)
              else if n = 5 then (GLYPH_5, CYAN) else if n = 6 then (GLYPH_6, CYAN)
              else (GLYPH_DASH, dash)
      | Unknown \<Rightarrow> (GLYPH_DASH, dash))"

definition render :: "gear \<Rightarrow> bool \<Rightarrow> u8 \<Rightarrow> bool \<Rightarrow> rgb list" where
  "render g link_up brightness learn_flash =
     (if \<not> link_up then replicate 25 (scale STATUS_RED brightness)
      else let (glyph, colour) = glyph_of g learn_flash
           in draw_glyph glyph (scale colour brightness))"

definition render_progress :: "u8 \<Rightarrow> u8 \<Rightarrow> rgb list" where
  "render_progress percent brightness =
     (let lit = (min (unat percent) 100 * 25 + 99) div 100
      in replicate lit (scale BLUE brightness) @ replicate (25 - lit) OFF)"

definition render_ota_result :: "bool \<Rightarrow> u8 \<Rightarrow> rgb list" where
  "render_ota_result ok brightness =
     (let (glyph, colour) = (if ok then (GLYPH_CHECK, GREEN) else (GLYPH_CROSS, STATUS_RED))
      in draw_glyph glyph (scale colour brightness))"

lemmas display_defs [model_defs] = scale_ch_def scale_def draw_glyph_def glyph_of_def render_def
  render_progress_def render_ota_result_def

section \<open>Scaling\<close>

lemma scale_ch_value: "uint (scale_ch b v) = uint v * uint b div 255"
proof -
  have v: "uint v \<le> 255" "uint b \<le> 255" "0 \<le> uint v" "0 \<le> uint b"
    using uint_lt2p [of v] uint_lt2p [of b] by simp_all
  then have m: "uint v * uint b \<le> 255 * 255" by (intro mult_mono) auto
  moreover have u: "uint (ucast x :: u16) = uint (x :: u8)" for x by (simp add: uint_up_ucast is_up)
  ultimately have "uint (ucast v * ucast b :: u16) = uint v * uint b"
    using uint_mult_lem [of "ucast v :: u16" "ucast b :: u16"] by (simp add: u)
  then have d: "uint ((ucast v * ucast b :: u16) div 255) = uint v * uint b div 255"
    by (simp add: uint_div)
  have "uint v * uint b div 255 \<le> 255 * 255 div 255" using m by (rule zdiv_mono1) simp
  then have "uint v * uint b div 255 < 2 ^ 8" "0 \<le> uint v * uint b div 255"
    using v by (simp_all add: pos_imp_zdiv_nonneg_iff)
  then show ?thesis
    unfolding scale_ch_def by (simp add: unsigned_ucast_eq d take_bit_int_eq_self take_bit_word_def)
qed

lemma scale_full: "v * b div 255 = b" if "v = (255 :: int)"
  using that by simp

lemma bright_on:
  assumes "0 < b" "red c = 255 \<or> green c = 255 \<or> blue c = 255"
  shows "scale c b \<noteq> OFF"
proof -
  have "scale_ch b 255 = b"
    using scale_ch_value [of b 255] by (simp add: word_uint_eq_iff)
  then show ?thesis using assms by (auto simp: scale_def Let_def OFF_def)
qed

section \<open>What is lit\<close>

definition lit_mask :: "rgb list \<Rightarrow> bool list" where
  "lit_mask px = map (\<lambda>p. p \<noteq> OFF) px"

definition glyph_bits :: "u8 list \<Rightarrow> bool list" where
  "glyph_bits glyph = concat (map (\<lambda>mask. map (\<lambda>col. mask AND push_bit (4 - col) 1 \<noteq> 0) [0..<5]) glyph)"

lemma lit_draw: "colour \<noteq> OFF \<Longrightarrow> lit_mask (draw_glyph glyph colour) = glyph_bits glyph"
  by (simp add: lit_mask_def draw_glyph_def glyph_bits_def map_concat comp_def cong: if_cong)

lemma lit_dark: "lit_mask (draw_glyph glyph OFF) = replicate (5 * length glyph) False"
proof -
  have "map (\<lambda>col. if m AND push_bit (4 - col) 1 \<noteq> 0 then OFF else OFF) [0..<5] = replicate 5 OFF" for m :: u8
    by (simp add: map_replicate_const)
  then show ?thesis
    by (induction glyph) (simp_all add: lit_mask_def draw_glyph_def replicate_add [symmetric] add.commute)
qed

text \<open>The picture a gear stands for: the dash for everything but N and the six digits.\<close>

definition shown :: "gear \<Rightarrow> gear" where
  "shown g = (case g of Neutral \<Rightarrow> Neutral | Unknown \<Rightarrow> Unknown
     | G n \<Rightarrow> if 1 \<le> n \<and> n \<le> 6 then G n else Unknown)"

definition pictures :: "gear list" where
  "pictures = [Neutral, G 1, G 2, G 3, G 4, G 5, G 6, Unknown]"

lemma six: "1 \<le> n \<Longrightarrow> n \<le> 6 \<Longrightarrow> n = 1 \<or> n = 2 \<or> n = 3 \<or> n = 4 \<or> n = 5 \<or> n = (6 :: u8)"
proof -
  assume "1 \<le> n" "n \<le> 6"
  then have "uint n \<in> {1..6}" by (simp add: word_le_def)
  then have "uint n = 1 \<or> uint n = 2 \<or> uint n = 3 \<or> uint n = 4 \<or> uint n = 5 \<or> uint n = 6" by auto
  then show ?thesis by (simp add: word_uint_eq_iff)
qed

lemma shown_cases: "shown g \<in> set pictures"
  using six by (cases g) (auto simp: shown_def pictures_def)

lemma glyph_shown: "glyph_of g f = glyph_of (shown g) f"
proof (cases g)
  case (G n)
  then show ?thesis by (auto simp: shown_def glyph_of_def word_le_def)
qed (simp_all add: shown_def)

text \<open>The lit mask of each picture; the dash may be dark at the lowest brightness.\<close>

lemma lit_render:
  assumes "0 < b"
  shows "lit_mask (render g True b f) = glyph_bits (fst (glyph_of g f))
    \<or> shown g = Unknown \<and> lit_mask (render g True b f) = replicate 25 False"
proof (cases "shown g = Unknown")
  case True
  then have "fst (glyph_of g f) = GLYPH_DASH" unfolding glyph_shown [of g f] by (simp add: glyph_of_def)
  then show ?thesis
    using True lit_draw lit_dark [of GLYPH_DASH]
    by (cases "scale (snd (glyph_of g f)) b = OFF") (auto simp: render_def case_prod_beta GLYPH_DASH_def)
next
  case False
  then have "snd (glyph_of g f) = GREEN \<or> snd (glyph_of g f) = CYAN"
    using shown_cases [of g] unfolding glyph_shown [of g f] pictures_def by (auto simp: glyph_of_def)
  then have "scale (snd (glyph_of g f)) b \<noteq> OFF"
    using bright_on [OF assms] by (auto simp: GREEN_def CYAN_def)
  then show ?thesis by (simp add: render_def case_prod_beta lit_draw)
qed

definition masks :: "gear \<Rightarrow> bool list list" where
  "masks g = glyph_bits (fst (glyph_of g False)) # (if g = Unknown then [replicate 25 False] else [])"

lemma masks_disjoint:
  "list_all (\<lambda>g. list_all (\<lambda>g'. list_all (\<lambda>m. list_all (\<lambda>m'. m = m' \<longrightarrow> g = g') (masks g')) (masks g)) pictures) pictures"
  "list_all (\<lambda>g. list_all (\<lambda>m. m \<noteq> replicate 25 True) (masks g)) pictures"
  by code_simp+

lemma lit_masks: "0 < b \<Longrightarrow> lit_mask (render g True b f) \<in> set (masks (shown g))"
proof -
  assume "0 < b"
  have "fst (glyph_of g f) = fst (glyph_of (shown g) False)"
    unfolding glyph_shown [of g f] by (simp add: glyph_of_def split: gear.split)
  then show ?thesis using lit_render [OF \<open>0 < b\<close>, of g f] by (auto simp: masks_def)
qed

section \<open>Properties\<close>

lemma frames_distinguish_gears_facts:
  assumes "0 < b"
  shows "render g True b f = render g' True b f' \<Longrightarrow> shown g = shown g'"
    and "render g True b f \<noteq> render g' False b f'"
    and "render g False b f = replicate 25 (scale STATUS_RED b)"
proof -
  show "shown g = shown g'" if "render g True b f = render g' True b f'"
    using that lit_masks [OF assms, of g f] lit_masks [OF assms, of g' f'] masks_disjoint(1)
      shown_cases [of g] shown_cases [of g'] unfolding list_all_iff by metis
  have "scale STATUS_RED b \<noteq> OFF" using bright_on [OF assms] by (simp add: STATUS_RED_def)
  then have "lit_mask (render g' False b f') = replicate 25 True" by (simp add: render_def lit_mask_def)
  then show "render g True b f \<noteq> render g' False b f'"
    using lit_masks [OF assms, of g f] masks_disjoint(2) shown_cases [of g]
    unfolding list_all_iff by metis
  show "render g False b f = replicate 25 (scale STATUS_RED b)" by (simp add: render_def)
qed

text \<open>
  C37. The matrix tells the gears apart: at any non-zero brightness, two frames with the link up are
  equal only when they stand for the same picture (N, a digit, the dash), whatever the
  learning flash; and no such frame is the all-red frame of a lost link, which does not
  depend on the gear.
\<close>

theorem frames_distinguish_gears:
  assumes "0 < b"
  shows "(render g True b f = render g' True b f' \<longrightarrow> shown g = shown g')
    \<and> render g True b f \<noteq> render g' False b f'
    \<and> render g False b f = replicate 25 (scale STATUS_RED b)"
  using frames_distinguish_gears_facts [OF assms] by blast

theorem frames_distinguish_gears_witness:
  "render (G 2) True 40 False \<noteq> render (G 3) False 40 True
   \<and> (render (G 2) True 40 False = render (G 9) True 40 True) = False"
proof -
  have b: "(0 :: u8) < 40" "shown (G 2) \<noteq> shown (G 9)" by code_simp+
  from frames_distinguish_gears [OF b(1), of "G 2" False "G 9" True] b(2)
    frames_distinguish_gears [OF b(1), of "G 2" False "G 3" True]
  show ?thesis by blast
qed

lemma div_ceil_25: "k \<le> 100 \<Longrightarrow> (k * 25 + 99) div 100 = (k + 3) div (4 :: nat)"
  by linarith

lemma progress_bar_exact_facts:
  assumes "0 < b"
  shows "lit_mask (render_progress p b)
    = replicate ((min (unat p) 100 + 3) div 4) True @ replicate (25 - (min (unat p) 100 + 3) div 4) False"
    and "length (render_progress p b) = 25"
proof -
  let ?k = "min (unat p) 100"
  have "(?k * 25 + 99) div 100 = (?k + 3) div 4" by (rule div_ceil_25) simp
  moreover have "(?k + 3) div 4 \<le> 25" by linarith
  moreover have "scale BLUE b \<noteq> OFF" using bright_on [OF assms] by (simp add: BLUE_def)
  ultimately show "lit_mask (render_progress p b)
    = replicate ((?k + 3) div 4) True @ replicate (25 - (?k + 3) div 4) False"
    "length (render_progress p b) = 25"
    by (simp_all add: render_progress_def lit_mask_def Let_def)
qed

text \<open>
  The progress bar: a frame of 25 pixels whose lit ones are a prefix of a quarter of
  the percentage, rounded up and clamped at 100, all in the scaled blue.
\<close>

lemma progress_bar_exact:
  assumes "0 < b"
  shows "lit_mask (render_progress p b)
      = replicate ((min (unat p) 100 + 3) div 4) True @ replicate (25 - (min (unat p) 100 + 3) div 4) False
    \<and> length (render_progress p b) = 25"
  using progress_bar_exact_facts [OF assms] by blast

lemma progress_bar_exact_witness:
  "lit_mask (render_progress 37 40) = replicate 10 True @ replicate 15 False"
proof -
  have "(0 :: u8) < 40" by simp
  from progress_bar_exact [OF this, of 37] show ?thesis by simp
qed

text \<open>
  Brightness scaling computes the exact quotient in 16 bits: no channel overflows, none
  exceeds its colour or the brightness, and full brightness is the identity.
\<close>

lemma scale_exact:
  "uint (red (scale c b)) = uint (red c) * uint b div 255"
  "uint (green (scale c b)) = uint (green c) * uint b div 255"
  "uint (blue (scale c b)) = uint (blue c) * uint b div 255"
  "scale c 255 = c"
proof -
  have "scale_ch 255 v = v" for v using scale_ch_value [of 255 v] by (simp add: word_uint_eq_iff)
  then show "scale c 255 = c" by (simp add: scale_def)
qed (simp_all add: scale_def Let_def scale_ch_value)

end
