(* ===== verification/Ota_Manifest.thy ===== *)
theory Ota_Manifest
  imports Rust_Str "HOL-Library.Product_Lexorder"
begin

text \<open>
  The update manifest, \<open>core/src/ota_manifest.rs\<close>: validation after JSON decoding, the digest
  bytes, version parsing and the install decision. The JSON decoder is \<open>serde_json\<close>, a
  third-party crate: a parameter \<open>from_str\<close>, an error text or the decoded record.
\<close>

section \<open>Data\<close>

definition PROJECT_NAME :: string where "PROJECT_NAME = ''w230-gear-indicator''"
definition MAX_IMAGE_SIZE :: u32 where "MAX_IMAGE_SIZE = 0x1E0000"

record manifest =
  m_project :: string
  m_version :: string
  m_url :: string
  m_sha256 :: string
  m_size :: u32
  m_min_version :: "string option"
  m_notes :: "string option"

datatype manifest_error = Json string | WrongProject string | BadVersion string
  | InsecureUrl | BadSha256 | BadSize

definition show_manifest_error :: "manifest_error \<Rightarrow> string" where
  "show_manifest_error e = (case e of
     Json t \<Rightarrow> ''manifest is not valid JSON: '' @ t
   | WrongProject p \<Rightarrow> ''manifest is for project '' @ CHR 0x27 # p @ [CHR 0x27]
   | BadVersion v \<Rightarrow> ''manifest version '' @ CHR 0x27 # v @ CHR 0x27 # '' is not x.y.z''
   | InsecureUrl \<Rightarrow> ''firmware URL is not https''
   | BadSha256 \<Rightarrow> ''sha256 is not 64 hex chars''
   | BadSize \<Rightarrow> ''size is zero or implausible'')"

section \<open>Versions\<close>

type_synonym version = "int \<times> int \<times> int"

definition version_of_parts :: "string list \<Rightarrow> version option" where
  "version_of_parts ps = (case ps of
     a # b # c # rest \<Rightarrow>
       (case parse_u32 a of None \<Rightarrow> None | Some maj \<Rightarrow>
        case parse_u32 b of None \<Rightarrow> None | Some min' \<Rightarrow>
        case parse_u32 c of None \<Rightarrow> None | Some pat \<Rightarrow>
          if rest \<noteq> [] then None else Some (maj, min', pat))
   | _ \<Rightarrow> None)"

definition parse_version :: "string \<Rightarrow> version option" where
  "parse_version v =
     (let v1 = dropWhile (\<lambda>c. c = CHR ''v'') (trim v);
          core = hd (split_on (\<lambda>c. c = CHR ''-'' \<or> c = CHR ''+'') v1)
      in version_of_parts (split_on (\<lambda>c. c = CHR ''.'') core))"

section \<open>Validation\<close>

definition manifest_parse :: "(string \<Rightarrow> string + manifest) \<Rightarrow> string \<Rightarrow> manifest_error + manifest" where
  "manifest_parse from_str json =
     (case from_str json of
        Inl e \<Rightarrow> Inl (Json e)
      | Inr m \<Rightarrow>
          if m_project m \<noteq> PROJECT_NAME then Inl (WrongProject (m_project m))
          else if parse_version (m_version m) = None then Inl (BadVersion (m_version m))
          else case (case m_min_version m of
                 Some mv \<Rightarrow> if parse_version mv = None then Some (BadVersion mv) else None
               | None \<Rightarrow> None) of
            Some e \<Rightarrow> Inl e
          | None \<Rightarrow>
              if \<not> prefix ''https://'' (m_url m) then Inl InsecureUrl
              else if length (m_sha256 m) \<noteq> 64 \<or> \<not> list_all (\<lambda>c. hex_digit c \<noteq> None) (m_sha256 m)
              then Inl BadSha256
              else if m_size m = 0 \<or> MAX_IMAGE_SIZE < m_size m then Inl BadSize
              else Inr m)"

definition hex_byte :: "char \<Rightarrow> char \<Rightarrow> u8" where
  "hex_byte a b =
     (let hi = of_nat (case hex_digit a of Some d \<Rightarrow> d | None \<Rightarrow> 0);
          lo = of_nat (case hex_digit b of Some d \<Rightarrow> d | None \<Rightarrow> 0)
      in push_bit 4 hi OR lo)"

text \<open>\<open>chunks_exact(2)\<close> over the hex text, at most 32 of them, into a zeroed array.\<close>

fun hex_pairs :: "string \<Rightarrow> u8 list" where
  "hex_pairs (a # b # s) = hex_byte a b # hex_pairs s"
| "hex_pairs _ = []"

definition sha256_bytes :: "manifest \<Rightarrow> u8 list" where
  "sha256_bytes m = (let bs = take 32 (hex_pairs (m_sha256 m)) in bs @ replicate (32 - length bs) 0)"

section \<open>The decision\<close>

datatype update_decision = Install | UpToDate | TooOld string

definition version_or_zero :: "string \<Rightarrow> version" where
  "version_or_zero v = (case parse_version v of Some t \<Rightarrow> t | None \<Rightarrow> (0, 0, 0))"

definition decide :: "string \<Rightarrow> manifest \<Rightarrow> update_decision" where
  "decide current m =
     (let cur = version_or_zero current;
          new = version_or_zero (m_version m);
          answer = (if cur < new then Install else UpToDate)
      in case (case m_min_version m of Some mv \<Rightarrow> parse_version mv | None \<Rightarrow> None) of
           Some mv \<Rightarrow> if cur < mv
             then TooOld (case m_min_version m of Some t \<Rightarrow> t | None \<Rightarrow> []) else answer
         | None \<Rightarrow> answer)"

lemmas manifest_defs [model_defs] = PROJECT_NAME_def MAX_IMAGE_SIZE_def version_of_parts_def
  parse_version_def manifest_parse_def hex_byte_def sha256_bytes_def
  version_or_zero_def decide_def

section \<open>Version texts\<close>

definition show_version :: "version \<Rightarrow> string" where
  "show_version v = (case v of (a, b, c) \<Rightarrow>
     show_nat (nat a) @ CHR ''.'' # show_nat (nat b) @ CHR ''.'' # show_nat (nat c))"

definition version_ok :: "version \<Rightarrow> bool" where
  "version_ok v \<longleftrightarrow> (case v of (a, b, c) \<Rightarrow> list_all (\<lambda>n. 0 \<le> n \<and> n \<le> MAX_U32) [a, b, c])"

lemma digits_no: "\<not> within 48 57 c \<Longrightarrow> list_all (\<lambda>x. x \<noteq> c) (show_nat n)"
  using show_nat_digits [of n] by (auto simp: list_all_iff)

lemma parts_show: "version_ok v \<Longrightarrow> version_of_parts (split_on (\<lambda>c. c = CHR ''.'') (show_version v)) = Some v"
proof -
  assume v: "version_ok v"
  obtain a b c where abc: "v = (a, b, c)" by (cases v)
  have "\<not> within 48 57 (CHR ''.'')" by (simp add: within_def)
  note d = digits_no [OF this]
  have "split_on (\<lambda>c. c = CHR ''.'') (show_version v) = [show_nat (nat a), show_nat (nat b), show_nat (nat c)]"
    using d by (simp add: show_version_def abc split_on_sep split_on_none)
  then show ?thesis using v by (simp add: version_of_parts_def parse_show version_ok_def abc)
qed

lemma ws_no_digit: "within 48 57 c \<Longrightarrow> w \<in> set ws_chars \<Longrightarrow> c \<notin> set w"
proof -
  have "list_all (\<lambda>w. list_all (\<lambda>c. \<not> within 48 57 c) w) ws_chars" by code_simp
  then show "within 48 57 c \<Longrightarrow> w \<in> set ws_chars \<Longrightarrow> c \<notin> set w" by (auto simp: list_all_iff)
qed

lemma ws_no_v: "w \<in> set ws_chars \<Longrightarrow> CHR ''v'' \<notin> set w"
proof -
  have "list_all (\<lambda>w. list_all (\<lambda>c. c \<noteq> CHR ''v'') w) ws_chars" by code_simp
  then show "w \<in> set ws_chars \<Longrightarrow> CHR ''v'' \<notin> set w" by (auto simp: list_all_iff)
qed

text \<open>Trimming a text that starts and has inside it a character of no whitespace encoding.\<close>

lemma trim_keeps:
  assumes "\<And>w. w \<in> set ws_chars \<Longrightarrow> c \<notin> set w" "\<And>w. w \<in> set ws_chars \<Longrightarrow> d \<notin> set w"
    "xs @ [d] = c # ys"
  shows "\<exists>k. trim (xs @ d # s) = xs @ d # take k s"
proof -
  have "strip ws_chars (xs @ d # s) = xs @ d # s"
  proof -
    have "xs @ d # s = c # (ys @ s)" using assms(3) by (metis append.assoc append_Cons append_Nil)
    moreover have "w \<noteq> [] \<Longrightarrow> hd w \<noteq> c" if "w \<in> set ws_chars" for w
      using assms(1) [OF that] by (metis hd_in_set)
    ultimately show ?thesis using strip_id [of ws_chars c "ys @ s"] by metis
  qed
  moreover obtain k where "strip (map rev ws_chars) (rev s @ d # rev xs) = drop k (rev s) @ d # rev xs"
    using strip_stops [of "map rev ws_chars" d "rev s" "rev xs"] assms(2) by fastforce
  ultimately have "trim (xs @ d # s) = xs @ d # rev (drop k (rev s))" by (simp add: trim_def)
  then show ?thesis by (metis rev_drop rev_rev_ident)
qed

lemma first_last_digit:
  obtains c ys xs d where "show_version v = c # ys" "show_version v = xs @ [d]"
    "within 48 57 c" "within 48 57 d"
proof -
  obtain a b c where abc: "v = (a, b, c)" by (cases v)
  have "show_version v \<noteq> []" by (simp add: show_version_def abc)
  moreover have "within 48 57 (hd (show_version v))"
    using show_nat_digits [of "nat a"] by (cases "show_nat (nat a)") (auto simp: show_version_def abc)
  moreover have "within 48 57 (last (show_version v))"
    using show_nat_digits [of "nat c"] show_nat_ne [of "nat c"] unfolding list_all_iff
    by (simp add: show_version_def abc)
  ultimately show thesis using that by (metis append_butlast_last_id list.collapse)
qed

lemma trim_version:
  "\<exists>k. trim (replicate n (CHR ''v'') @ show_version v @ s) = replicate n (CHR ''v'') @ show_version v @ take k s"
proof -
  obtain c ys xs d where e: "show_version v = c # ys" "show_version v = xs @ [d]"
    "within 48 57 c" "within 48 57 d" by (rule first_last_digit)
  have d: "\<And>w. w \<in> set ws_chars \<Longrightarrow> d \<notin> set w" "\<And>w. w \<in> set ws_chars \<Longrightarrow> c \<notin> set w"
    using ws_no_digit e by blast+
  have "\<exists>x zs. (replicate n (CHR ''v'') @ xs) @ [d] = x # zs \<and> (\<forall>w\<in>set ws_chars. x \<notin> set w)"
    using e d ws_no_v by (cases n) auto
  then obtain x zs where x: "(replicate n (CHR ''v'') @ xs) @ [d] = x # zs"
    "\<And>w. w \<in> set ws_chars \<Longrightarrow> x \<notin> set w" by blast
  from trim_keeps [OF x(2) d(1) x(1), of s] show ?thesis by (auto simp: e(2))
qed

section \<open>Hex text\<close>

fun to_hex :: "u8 list \<Rightarrow> string" where
  "to_hex [] = []"
| "to_hex (b # bs) = hex_char (unat b div 16) # hex_char (unat b mod 16) # to_hex bs"

lemma hex_byte_chars: "hex_byte (hex_char (unat b div 16)) (hex_char (unat b mod 16)) = b"
proof -
  have l: "unat b div 16 < 16" "unat b mod 16 < 16"
    using unat_lt2p_8 [of b] by (simp_all add: div_less_iff_less_mult)
  have w: "of_nat (unat x) = x" for x :: u8 by simp
  have "of_nat (unat b div 16) = drop_bit 4 b"
  proof -
    have "unat (b div 16) = unat b div 16" by (simp add: unat_div)
    then have "of_nat (unat b div 16) = b div 16" using w by metis
    then show ?thesis by (simp add: drop_bit_eq_div)
  qed
  moreover have "of_nat (unat b mod 16) = take_bit 4 b"
  proof -
    have "unat (b mod 16) = unat b mod 16" by (simp add: unat_mod)
    then have "of_nat (unat b mod 16) = b mod 16" using w by metis
    then show ?thesis by (simp add: take_bit_eq_mod)
  qed
  moreover have "push_bit 4 (drop_bit 4 b) OR take_bit 4 b = b"
    by (rule bit_word_eqI) (auto simp: bit_simps)
  ultimately show ?thesis using l by (simp add: hex_byte_def hex_digit_char)
qed

lemma hex_pairs_to_hex: "hex_pairs (to_hex bs) = bs"
  by (induction bs) (simp_all add: hex_byte_chars)

lemma to_hex_ok: "length (to_hex bs) = 2 * length bs" "list_all (\<lambda>c. hex_digit c \<noteq> None) (to_hex bs)"
proof -
  have "unat b div 16 < 16" for b :: u8
    using unat_lt2p_8 [of b] by (simp add: div_less_iff_less_mult)
  then show "list_all (\<lambda>c. hex_digit c \<noteq> None) (to_hex bs)"
    by (induction bs) (simp_all add: hex_digit_char)
qed (induction bs, simp_all)

section \<open>Properties\<close>

text \<open>
  C18. A manifest is accepted exactly when it decodes, names this project, has parseable
  versions, an https URL, 64 hex digits and a size from one byte to the slot; the accepted
  record is the decoded one.
\<close>

theorem manifest_accepted_iff:
  "manifest_parse from_str json = Inr m \<longleftrightarrow>
     from_str json = Inr m \<and> m_project m = PROJECT_NAME \<and> parse_version (m_version m) \<noteq> None
     \<and> (case m_min_version m of None \<Rightarrow> True | Some mv \<Rightarrow> parse_version mv \<noteq> None)
     \<and> prefix ''https://'' (m_url m)
     \<and> length (m_sha256 m) = 64 \<and> list_all (\<lambda>c. hex_digit c \<noteq> None) (m_sha256 m)
     \<and> 0 < uint (m_size m) \<and> uint (m_size m) \<le> 1966080"
proof -
  have s: "(m_size m = 0 \<or> MAX_IMAGE_SIZE < m_size m) \<longleftrightarrow> \<not> (0 < uint (m_size m) \<and> uint (m_size m) \<le> 1966080)"
    for m :: manifest
  proof -
    have "MAX_IMAGE_SIZE < m_size m \<longleftrightarrow> 1966080 < uint (m_size m)"
      by (simp add: MAX_IMAGE_SIZE_def word_less_def)
    moreover have "m_size m = 0 \<longleftrightarrow> uint (m_size m) = 0" by (metis uint_0_eq uint_0_iff)
    moreover have "0 \<le> uint (m_size m)" by simp
    ultimately show ?thesis by linarith
  qed
  show ?thesis
  proof (cases "from_str json")
    case (Inl e)
    then show ?thesis by (simp add: manifest_parse_def)
  next
    case (Inr m')
    show ?thesis
    proof (cases "m_min_version m'")
      case None
      show ?thesis
        by (cases "m = m'") (auto simp add: manifest_parse_def Inr None s)
    next
      case (Some mv)
      show ?thesis
        by (cases "m = m'"; cases "parse_version mv = None") (auto simp add: manifest_parse_def Inr Some s)
    qed
  qed
qed

lemma decide_sound_facts:
  assumes "manifest_parse from_str json = Inr m"
  shows "decide cur m = Install \<longleftrightarrow> version_or_zero cur < version_or_zero (m_version m)
      \<and> (\<forall>mv. m_min_version m = Some mv \<longrightarrow> version_or_zero mv \<le> version_or_zero cur)"
    and "decide cur m = TooOld t \<longleftrightarrow> m_min_version m = Some t \<and> version_or_zero cur < version_or_zero t"
proof -
  have mv: "\<exists>v. parse_version t = Some v" if "m_min_version m = Some t" for t
    using assms that by (auto simp: manifest_parse_def split: sum.splits option.splits if_splits)
  let ?c = "version_or_zero cur" and ?n = "version_or_zero (m_version m)"
  have none: "decide cur m = (if ?c < ?n then Install else UpToDate)" if "m_min_version m = None"
    by (simp add: decide_def Let_def that)
  have some: "decide cur m = (if ?c < version_or_zero t then TooOld t
      else if ?c < ?n then Install else UpToDate)" if "m_min_version m = Some t" for t
    using mv [OF that] by (auto simp: decide_def Let_def that version_or_zero_def)
  show "decide cur m = Install \<longleftrightarrow> ?c < ?n
      \<and> (\<forall>mv. m_min_version m = Some mv \<longrightarrow> version_or_zero mv \<le> ?c)"
    by (cases "m_min_version m") (auto simp: none some not_less)
  show "decide cur m = TooOld t \<longleftrightarrow> m_min_version m = Some t \<and> ?c < version_or_zero t"
    by (cases "m_min_version m") (auto simp: none some)
qed

definition wit_manifest :: manifest where
  "wit_manifest = \<lparr>m_project = PROJECT_NAME, m_version = ''0.3.0'', m_url = ''https://u/b.bin'',
     m_sha256 = replicate 64 (CHR ''f''), m_size = 1200000, m_min_version = Some ''0.2.0'',
     m_notes = None\<rparr>"

text \<open>
  C19. Never a downgrade, never past a minimum: for an accepted manifest the answer is Install exactly
  when the manifest is newer than what runs and its minimum version, if any, is met; TooOld
  exactly when it is not met; UpToDate otherwise. An unparseable running version counts as 0.0.0.
\<close>

theorem decide_sound:
  assumes "manifest_parse from_str json = Inr m"
  shows "(decide cur m = Install \<longleftrightarrow> version_or_zero cur < version_or_zero (m_version m)
        \<and> (\<forall>mv. m_min_version m = Some mv \<longrightarrow> version_or_zero mv \<le> version_or_zero cur))
    \<and> (\<forall>t. decide cur m = TooOld t \<longleftrightarrow> m_min_version m = Some t \<and> version_or_zero cur < version_or_zero t)"
  using decide_sound_facts [OF assms] by blast

theorem decide_sound_witness:
  "decide ''0.2.9'' wit_manifest = Install \<and> decide ''0.1.0'' wit_manifest = TooOld ''0.2.0''"
proof -
  have h: "manifest_parse (\<lambda>_. Inr wit_manifest) [] = Inr wit_manifest" by code_simp
  have v: "version_or_zero ''0.2.9'' < version_or_zero (m_version wit_manifest)"
    "version_or_zero ''0.2.0'' \<le> version_or_zero ''0.2.9''"
    "version_or_zero ''0.1.0'' < version_or_zero ''0.2.0''" "m_min_version wit_manifest = Some ''0.2.0''"
    by code_simp+
  show ?thesis
    using decide_sound [OF h, of "''0.2.9''"] decide_sound [OF h, of "''0.1.0''"] v
    by simp
qed

text \<open>
  Version texts round trip: any triple of 32-bit numbers printed as x.y.z, with any
  number of v in front and any text behind that starts with a minus or a plus, is read back
  as the triple.
\<close>

lemma version_roundtrip:
  assumes "version_ok v" and "suf = [] \<or> hd suf = CHR ''-'' \<or> hd suf = CHR ''+''"
  shows "parse_version (replicate n (CHR ''v'') @ show_version v @ suf) = Some v"
proof -
  obtain k where k: "trim (replicate n (CHR ''v'') @ show_version v @ suf)
      = replicate n (CHR ''v'') @ show_version v @ take k suf"
    using trim_version by blast
  let ?sep = "\<lambda>c. c = CHR ''-'' \<or> c = CHR ''+''"
  obtain c ys where c: "show_version v = c # ys" "within 48 57 c"
    by (metis first_last_digit)
  then have "c \<noteq> CHR ''v''" by (auto simp: within_def)
  then have "dropWhile (\<lambda>c. c = CHR ''v'') (replicate n (CHR ''v'') @ show_version v @ take k suf)
      = show_version v @ take k suf"
    by (induction n) (simp_all add: c)
  moreover have "takeWhile (\<lambda>c. \<not> ?sep c) (show_version v @ take k suf) = show_version v"
  proof -
    have "list_all (\<lambda>c. \<not> ?sep c) (show_nat m)" for m
      using show_nat_digits [of m] by (auto simp: list_all_iff within_def)
    then have "list_all (\<lambda>c. \<not> ?sep c) (show_version v)"
      by (cases v) (simp add: show_version_def)
    moreover have "takeWhile (\<lambda>c. \<not> ?sep c) (take k suf) = []"
      using assms(2) by (cases suf; cases k) auto
    ultimately show ?thesis by (auto simp: list_all_iff takeWhile_append2)
  qed
  ultimately show ?thesis
    using parts_show [OF assms(1)] by (simp add: parse_version_def k Let_def hd_split_on)
qed

lemma version_roundtrip_witness:
  "parse_version (replicate 1 (CHR ''v'') @ show_version (1, 10, 3) @ ''-rc1+build7'') = Some (1, 10, 3)"
proof -
  have "version_ok (1, 10, 3)" by code_simp
  then show ?thesis by (rule version_roundtrip) simp
qed

text \<open>
  The digest: 32 bytes written as lower-case hex are accepted as a digest text and read back
  as themselves.
\<close>

lemma digest_roundtrip:
  assumes "length d = 32" and "m_sha256 m = to_hex d"
  shows "sha256_bytes m = d \<and> length (m_sha256 m) = 64 \<and> list_all (\<lambda>c. hex_digit c \<noteq> None) (m_sha256 m)"
  using assms to_hex_ok [of d] by (simp add: sha256_bytes_def hex_pairs_to_hex)

lemma digest_roundtrip_witness:
  "sha256_bytes (wit_manifest\<lparr>m_sha256 := to_hex (replicate 32 0xEF)\<rparr>) = replicate 32 0xEF"
  using digest_roundtrip [of "replicate 32 0xEF" "wit_manifest\<lparr>m_sha256 := to_hex (replicate 32 0xEF)\<rparr>"]
  by simp

end
