(* ===== verification/Ota_Download.thy ===== *)
theory Ota_Download
  imports Ota_Manifest Ble_Json
begin

text \<open>
  The image download of the update worker, \<open>esp32/src/ota.rs\<close>: the slot writer, the check of
  the embedded app descriptor, the streaming loop and \<open>download_and_write\<close>. The HTTP client,
  the flash calls \<open>esp_ota_*\<close>, SHA-256 (crate \<open>sha2\<close>), the descriptor parser (binding
  \<open>EspFirmwareInfoLoad\<close>), the radio, the clock and the heap reading are third-party: a record
  \<open>pf\<close> of operations on an environment \<open>'e\<close>. An error is the text the worker reports. Log
  lines are left out. The list \<open>sv_flash\<close> records the flash calls in the order they are made.
\<close>

section \<open>Platform\<close>

definition CHUNK :: nat where "CHUNK = 4096"
definition APP_DESC_END :: nat where "APP_DESC_END = 24 + 8 + 256"
definition MIN_FREE_HEAP_FOR_DOWNLOAD :: u32 where "MIN_FREE_HEAP_FOR_DOWNLOAD = 40 * 1024"

datatype flash_op = OtaBegin | OtaWrite "u8 list" | OtaEnd | OtaSetBoot | OtaAbort

record http_head =
  h_status :: u16
  h_content_length :: "string option"

text \<open>The two descriptor fields the worker reads.\<close>

record fw_info =
  fw_version :: string
  fw_description :: "string option"

type_synonym ('e, 'a) io = "'e \<Rightarrow> (string + 'a) \<times> 'e"

text \<open>
  \<open>pf_http_get\<close> is request and submit of a URL with an Accept header; \<open>pf_http_read\<close> reads at
  most the given number of bytes, none at the end. \<open>pf_fetch_info\<close> gives \<open>None\<close> for an
  incomplete descriptor. The WiFi operations are those of the station driver: creation,
  wrapping, configuration from SSID, passphrase and whether the network is open, and so on;
  \<open>pf_ssid_fits\<close> and \<open>pf_psk_fits\<close> are the capacities of its configuration texts.
\<close>

record 'e platform =
  pf_http_new :: "('e, unit) io"
  pf_http_get :: "string \<Rightarrow> string \<Rightarrow> ('e, http_head) io"
  pf_http_read :: "nat \<Rightarrow> ('e, u8 list) io"
  pf_flash :: "flash_op \<Rightarrow> ('e, unit) io"
  pf_sha256 :: "u8 list \<Rightarrow> u8 list"
  pf_fetch_info :: "u8 list \<Rightarrow> string + fw_info option"
  pf_from_str :: "string \<Rightarrow> string + manifest"
  pf_free_heap :: "'e \<Rightarrow> u32"
  pf_now :: "'e \<Rightarrow> nat"
  pf_uptime :: "'e \<Rightarrow> u32"
  pf_sleep :: "nat \<Rightarrow> 'e \<Rightarrow> 'e"
  pf_mark_valid :: "('e, unit) io"
  pf_wifi_new :: "('e, unit) io"
  pf_wifi_wrap :: "('e, unit) io"
  pf_wifi_connected :: "('e, bool) io"
  pf_ssid_fits :: "string \<Rightarrow> bool"
  pf_psk_fits :: "string \<Rightarrow> bool"
  pf_wifi_configure :: "string \<Rightarrow> string \<Rightarrow> bool \<Rightarrow> ('e, unit) io"
  pf_wifi_start :: "('e, unit) io"
  pf_wifi_connect :: "('e, unit) io"
  pf_wifi_wait_up :: "('e, unit) io"
  pf_wifi_ip :: "('e, string) io"
  pf_wifi_rssi :: "('e, u32) io"
  pf_wifi_disconnect :: "'e \<Rightarrow> 'e"
  pf_wifi_stop :: "'e \<Rightarrow> 'e"
  pf_wifi_drop :: "'e \<Rightarrow> 'e"

section \<open>The shared status\<close>

record ota_shared =
  sh_ota :: ota_status
  sh_wifi :: wifi_status
  sh_changed :: bool
  sh_moving :: bool
  sh_slot :: string
  sh_pending_verify :: bool
  sh_rolled_back_from :: "string option"

definition upd_ota :: "(ota_status \<Rightarrow> ota_status) \<Rightarrow> ota_shared \<Rightarrow> ota_shared" where
  "upd_ota f sh = sh\<lparr>sh_ota := f (sh_ota sh), sh_changed := True\<rparr>"

definition upd_wifi :: "(wifi_status \<Rightarrow> wifi_status) \<Rightarrow> ota_shared \<Rightarrow> ota_shared" where
  "upd_wifi f sh = sh\<lparr>sh_wifi := f (sh_wifi sh), sh_changed := True\<rparr>"

text \<open>What the download works on: the environment, the flash calls made, the shared status.\<close>

record 'e services =
  sv_env :: 'e
  sv_flash :: "flash_op list"
  sv_shared :: ota_shared

definition with_env :: "('e, 'a) io \<Rightarrow> 'e services \<Rightarrow> (string + 'a) \<times> 'e services" where
  "with_env f s = (case f (sv_env s) of (r, e) \<Rightarrow> (r, s\<lparr>sv_env := e\<rparr>))"

definition flash :: "'e platform \<Rightarrow> flash_op \<Rightarrow> 'e services \<Rightarrow> (string + unit) \<times> 'e services" where
  "flash pf a s = with_env (pf_flash pf a) (s\<lparr>sv_flash := sv_flash s @ [a]\<rparr>)"

section \<open>The slot writer\<close>

definition annotate :: "string \<Rightarrow> string + 'a \<Rightarrow> string + 'a" where
  "annotate t r = (case r of Inl e \<Rightarrow> Inl (t @ e) | Inr v \<Rightarrow> Inr v)"

definition slot_begin :: "'e platform \<Rightarrow> 'e services \<Rightarrow> (string + unit) \<times> 'e services" where
  "slot_begin pf s = apfst (annotate ''esp_ota_begin: '') (flash pf OtaBegin s)"

definition slot_write :: "'e platform \<Rightarrow> u8 list \<Rightarrow> 'e services \<Rightarrow> (string + unit) \<times> 'e services" where
  "slot_write pf chunk s = apfst (annotate ''esp_ota_write: '') (flash pf (OtaWrite chunk) s)"

definition finish_and_activate :: "'e platform \<Rightarrow> 'e services \<Rightarrow> (string + unit) \<times> 'e services" where
  "finish_and_activate pf s =
     (case flash pf OtaEnd s of
        (Inl e, s1) \<Rightarrow> (Inl (''esp_ota_end (image invalid?): '' @ e), s1)
      | (Inr _, s1) \<Rightarrow> apfst (annotate ''esp_ota_set_boot_partition: '') (flash pf OtaSetBoot s1))"

text \<open>Dropping an open writer aborts the update.\<close>

definition slot_drop :: "'e platform \<Rightarrow> 'e services \<Rightarrow> 'e services" where
  "slot_drop pf s = snd (flash pf OtaAbort s)"

section \<open>The app descriptor\<close>

definition verify_app_descriptor ::
  "'e platform \<Rightarrow> u8 list \<Rightarrow> manifest \<Rightarrow> string \<Rightarrow> string + unit" where
  "verify_app_descriptor pf head m expected_project =
     (case pf_fetch_info pf head of
        Inl e \<Rightarrow> Inl (''app descriptor unreadable: '' @ e)
      | Inr None \<Rightarrow> Inl ''app descriptor incomplete''
      | Inr (Some info) \<Rightarrow>
          let project = (case fw_description info of Some p \<Rightarrow> p | None \<Rightarrow> [])
          in if project \<noteq> expected_project
             then Inl (''image is project '' @ CHR 0x27 # project @ CHR 0x27 # '', expected ''
               @ CHR 0x27 # expected_project @ [CHR 0x27])
             else if fw_version info \<noteq> m_version m
             then Inl (''image version '' @ CHR 0x27 # fw_version info @ CHR 0x27
               # '' differs from manifest '' @ CHR 0x27 # m_version m @ [CHR 0x27])
             else Inr ())"

section \<open>The streaming loop\<close>

record 'e download =
  dl_sv :: "'e services"
  dl_head :: "u8 list"
  dl_checked :: bool
  dl_hashed :: "u8 list"
  dl_total :: nat
  dl_pct :: u8

definition dl_start :: "'e services \<Rightarrow> 'e download" where
  "dl_start s = \<lparr>dl_sv = s, dl_head = [], dl_checked = False, dl_hashed = [], dl_total = 0, dl_pct = 0\<rparr>"

text \<open>The descriptor check of a chunk: collect the head, verify it once it is complete.\<close>

definition check_head ::
  "'e platform \<Rightarrow> manifest \<Rightarrow> string \<Rightarrow> u8 list \<Rightarrow> 'e download \<Rightarrow> string + 'e download" where
  "check_head pf m project chunk x =
     (if dl_checked x then Inr x
      else let head = dl_head x @ chunk in
        if APP_DESC_END \<le> length head
        then (case verify_app_descriptor pf (take APP_DESC_END head) m project of
                Inl e \<Rightarrow> Inl e
              | Inr _ \<Rightarrow> Inr (x\<lparr>dl_checked := True, dl_head := []\<rparr>))
        else Inr (x\<lparr>dl_head := head\<rparr>))"

definition report_progress :: "manifest \<Rightarrow> 'e download \<Rightarrow> 'e download" where
  "report_progress m x =
     (let pct = of_nat (dl_total x * 100 div unat (m_size m))
      in if pct \<noteq> dl_pct x
         then x\<lparr>dl_pct := pct,
           dl_sv := (dl_sv x)\<lparr>sv_shared := upd_ota (\<lambda>o'. o'\<lparr>o_progress := pct\<rparr>) (sv_shared (dl_sv x))\<rparr>\<rparr>
         else x)"

definition take_chunk ::
  "'e platform \<Rightarrow> manifest \<Rightarrow> string \<Rightarrow> u8 list \<Rightarrow> 'e download \<Rightarrow> (string + unit) \<times> 'e download" where
  "take_chunk pf m project chunk x =
     (let total = dl_total x + length chunk in
      if 2 ^ 32 \<le> total then (Inl ''overflow'', x)
      else let x1 = x\<lparr>dl_total := total\<rparr> in
        if unat (m_size m) < total then (Inl ''image longer than manifest size'', x1)
        else (case check_head pf m project chunk x1 of
                Inl e \<Rightarrow> (Inl e, x1)
              | Inr x2 \<Rightarrow>
                  let x3 = x2\<lparr>dl_hashed := dl_hashed x2 @ chunk\<rparr> in
                  (case slot_write pf chunk (dl_sv x3) of
                     (Inl e, s) \<Rightarrow> (Inl e, x3\<lparr>dl_sv := s\<rparr>)
                   | (Inr _, s) \<Rightarrow> (Inr (), report_progress m (x3\<lparr>dl_sv := s\<rparr>)))))"

lemma check_head_total: "check_head pf m p chunk x = Inr x' \<Longrightarrow> dl_total x' = dl_total x"
  by (auto simp: check_head_def Let_def split: if_splits sum.splits)

lemma take_chunk_total:
  "take_chunk pf m p chunk x = (Inr u, x') \<Longrightarrow>
    dl_total x' = dl_total x + length chunk \<and> dl_total x' \<le> unat (m_size m)"
  using check_head_total
  by (fastforce simp: take_chunk_def report_progress_def Let_def split: if_splits sum.splits prod.splits)

text \<open>Every chunk read moves the total up and never past the manifest's size, so the loop ends.\<close>

function download_loop ::
  "'e platform \<Rightarrow> manifest \<Rightarrow> string \<Rightarrow> 'e download \<Rightarrow> (string + unit) \<times> 'e download" where
  "download_loop pf m project x =
     (case with_env (pf_http_read pf CHUNK) (dl_sv x) of
        (Inl e, s) \<Rightarrow> (Inl e, x\<lparr>dl_sv := s\<rparr>)
      | (Inr [], s) \<Rightarrow> (Inr (), x\<lparr>dl_sv := s\<rparr>)
      | (Inr (b # bs), s) \<Rightarrow>
          (case take_chunk pf m project (b # bs) (x\<lparr>dl_sv := s\<rparr>) of
             (Inl e, x1) \<Rightarrow> (Inl e, x1)
           | (Inr _, x1) \<Rightarrow> download_loop pf m project x1))"
  by pat_completeness auto
termination
  by (relation "measure (\<lambda>(pf, m, p, x). unat (m_size m) - dl_total x)")
    (auto dest!: take_chunk_total [OF sym])

declare download_loop.simps [simp del]

text \<open>The checks after the stream has ended.\<close>

definition final_checks :: "'e platform \<Rightarrow> manifest \<Rightarrow> 'e download \<Rightarrow> string + unit" where
  "final_checks pf m x =
     (if \<not> dl_checked x then Inl ''image too short to carry an app descriptor''
      else if dl_total x \<noteq> unat (m_size m)
      then Inl (''received '' @ show_nat (dl_total x) @ '' bytes, manifest says '' @ show_word (m_size m))
      else if pf_sha256 pf (dl_hashed x) \<noteq> sha256_bytes m then Inl ''sha256 mismatch''
      else Inr ())"

definition stream_image ::
  "'e platform \<Rightarrow> manifest \<Rightarrow> string \<Rightarrow> 'e services \<Rightarrow> (string + unit) \<times> 'e services" where
  "stream_image pf m project s =
     (case download_loop pf m project (dl_start s) of
        (Inl e, x) \<Rightarrow> (Inl e, slot_drop pf (dl_sv x))
      | (Inr _, x) \<Rightarrow>
          (case final_checks pf m x of
             Inl e \<Rightarrow> (Inl e, slot_drop pf (dl_sv x))
           | Inr _ \<Rightarrow> (Inr (), dl_sv x)))"

section \<open>Download and activation\<close>

text \<open>The checks before the slot is opened: status, announced length, free heap.\<close>

definition check_response :: "'e platform \<Rightarrow> manifest \<Rightarrow> http_head \<Rightarrow> 'e services \<Rightarrow> string + unit" where
  "check_response pf m h s =
     (if h_status h \<noteq> 200 then Inl (''HTTP '' @ show_word (h_status h) @ '' fetching image'')
      else case Option.bind (h_content_length h) (\<lambda>v. parse_u32 (trim v)) of
        Some len \<Rightarrow> if len \<noteq> uint (m_size m)
          then Inl (''Content-Length '' @ show_int len @ '' != manifest size '' @ show_word (m_size m))
          else Inr ()
      | None \<Rightarrow> Inr ())"

definition check_heap :: "'e platform \<Rightarrow> 'e services \<Rightarrow> string + unit" where
  "check_heap pf s =
     (let free = pf_free_heap pf (sv_env s) in
      if free < MIN_FREE_HEAP_FOR_DOWNLOAD
      then Inl (''only '' @ show_word (free div 1024) @ '' KiB heap free, need ''
        @ show_word (MIN_FREE_HEAP_FOR_DOWNLOAD div 1024)
        @ '' KiB '' @ [CHR 0xE2, CHR 0x80, CHR 0x94] @ '' disconnect the app and retry'')
      else Inr ())"

text \<open>Up to the opened slot, the announced image is asked for and checked; then it is streamed and activated.\<close>

definition open_image :: "'e platform \<Rightarrow> manifest \<Rightarrow> 'e services \<Rightarrow> (string + unit) \<times> 'e services" where
  "open_image pf m s =
     (case with_env (pf_http_new pf) s of
        (Inl e, s1) \<Rightarrow> (Inl e, s1)
      | (Inr _, s1) \<Rightarrow>
     case with_env (pf_http_get pf (m_url m) ''application/octet-stream'') s1 of
        (Inl e, s2) \<Rightarrow> (Inl e, s2)
      | (Inr h, s2) \<Rightarrow>
     case check_response pf m h s2 of
        Inl e \<Rightarrow> (Inl e, s2)
      | Inr _ \<Rightarrow>
     case check_heap pf s2 of
        Inl e \<Rightarrow> (Inl e, s2)
      | Inr _ \<Rightarrow> slot_begin pf s2)"

definition note_verifying :: "'e services \<Rightarrow> 'e services" where
  "note_verifying s = s\<lparr>sv_shared := upd_ota (\<lambda>o'. o'\<lparr>o_state := Verifying\<rparr>) (sv_shared s)\<rparr>"

definition download_and_write ::
  "'e platform \<Rightarrow> manifest \<Rightarrow> string \<Rightarrow> 'e services \<Rightarrow> (string + unit) \<times> 'e services" where
  "download_and_write pf m project s =
     (case open_image pf m s of
        (Inl e, s1) \<Rightarrow> (Inl e, s1)
      | (Inr _, s1) \<Rightarrow>
     case stream_image pf m project s1 of
        (Inl e, s2) \<Rightarrow> (Inl e, s2)
      | (Inr _, s2) \<Rightarrow> finish_and_activate pf (note_verifying s2))"

lemmas download_defs [model_defs] = CHUNK_def APP_DESC_END_def MIN_FREE_HEAP_FOR_DOWNLOAD_def
  upd_ota_def upd_wifi_def with_env_def flash_def annotate_def slot_begin_def slot_write_def
  finish_and_activate_def slot_drop_def verify_app_descriptor_def dl_start_def check_head_def
  report_progress_def take_chunk_def final_checks_def stream_image_def check_response_def
  check_heap_def open_image_def note_verifying_def download_and_write_def

section \<open>The flash calls of a stream\<close>

lemma flash_calls [simp]: "sv_flash (snd (flash pf a s)) = sv_flash s @ [a]"
  by (simp add: flash_def with_env_def case_prod_beta)

lemma with_env_calls [simp]: "sv_flash (snd (with_env f s)) = sv_flash s"
  by (simp add: with_env_def case_prod_beta)

lemma slot_calls [simp]:
  "sv_flash (snd (slot_begin pf s)) = sv_flash s @ [OtaBegin]"
  "sv_flash (snd (slot_write pf c s)) = sv_flash s @ [OtaWrite c]"
  "sv_flash (slot_drop pf s) = sv_flash s @ [OtaAbort]"
  by (simp_all add: slot_begin_def slot_write_def slot_drop_def)

lemma report_progress_calls [simp]:
  "sv_flash (dl_sv (report_progress m x)) = sv_flash (dl_sv x)"
  "dl_hashed (report_progress m x) = dl_hashed x" "dl_total (report_progress m x) = dl_total x"
  "dl_checked (report_progress m x) = dl_checked x" "dl_head (report_progress m x) = dl_head x"
  "sv_env (dl_sv (report_progress m x)) = sv_env (dl_sv x)"
  by (simp_all add: report_progress_def Let_def)

text \<open>
  The state between chunks: everything received has been hashed and counted; until the
  descriptor has been checked the head holds all of it, afterwards its descriptor is good.
\<close>

definition dl_inv :: "'e platform \<Rightarrow> manifest \<Rightarrow> string \<Rightarrow> 'e download \<Rightarrow> bool" where
  "dl_inv pf m project x \<longleftrightarrow> dl_total x = length (dl_hashed x)
     \<and> (\<not> dl_checked x \<longrightarrow> dl_head x = dl_hashed x \<and> length (dl_hashed x) < APP_DESC_END)
     \<and> (dl_checked x \<longrightarrow> APP_DESC_END \<le> length (dl_hashed x)
          \<and> verify_app_descriptor pf (take APP_DESC_END (dl_hashed x)) m project = Inr ())"

lemma dl_inv_start: "dl_inv pf m p (dl_start s)"
  by (simp add: dl_inv_def dl_start_def APP_DESC_END_def)

lemma check_head_inv:
  assumes "check_head pf m p c x = Inr x'" "dl_inv pf m p x0" "dl_head x = dl_head x0"
    "dl_checked x = dl_checked x0" "dl_hashed x = dl_hashed x0" "dl_total x = dl_total x0 + length c"
  shows "dl_inv pf m p (x'\<lparr>dl_hashed := dl_hashed x' @ c, dl_sv := s\<rparr>)
    \<and> dl_hashed x' = dl_hashed x \<and> dl_sv x' = dl_sv x"
  using assms by (auto simp: check_head_def dl_inv_def Let_def split: if_splits sum.splits)

lemma take_chunk_step:
  assumes "take_chunk pf m p c x = (r, x')" "dl_inv pf m p x"
  shows "(\<exists>ops. sv_flash (dl_sv x') = sv_flash (dl_sv x) @ ops \<and> (ops = [] \<or> ops = [OtaWrite c])
      \<and> (r = Inr () \<longrightarrow> ops = [OtaWrite c] \<and> dl_hashed x' = dl_hashed x @ c \<and> dl_inv pf m p x'))"
proof (cases "2 ^ 32 \<le> dl_total x + length c \<or> unat (m_size m) < dl_total x + length c")
  case True
  then show ?thesis using assms(1) by (auto simp: take_chunk_def Let_def split: if_splits)
next
  case False
  let ?x1 = "x\<lparr>dl_total := dl_total x + length c\<rparr>"
  show ?thesis
  proof (cases "check_head pf m p c ?x1")
    case (Inl e)
    then show ?thesis using assms(1) False by (auto simp: take_chunk_def Let_def)
  next
    case (Inr x2)
    obtain w s where w: "slot_write pf c (dl_sv x2) = (w, s)" by fastforce
    then have s: "sv_flash s = sv_flash (dl_sv x2) @ [OtaWrite c]"
      using slot_calls(2) [of pf c "dl_sv x2"] by simp
    have x1: "dl_head ?x1 = dl_head x" "dl_checked ?x1 = dl_checked x" "dl_hashed ?x1 = dl_hashed x"
      "dl_total ?x1 = dl_total x + length c" "dl_sv ?x1 = dl_sv x" by simp_all
    have i: "dl_inv pf m p (x2\<lparr>dl_hashed := dl_hashed x2 @ c, dl_sv := s\<rparr>)"
      "dl_hashed x2 = dl_hashed x" "dl_sv x2 = dl_sv x"
      using check_head_inv [OF Inr assms(2) x1(1-4), of s] unfolding x1 by blast+
    then have "dl_inv pf m p (report_progress m (x2\<lparr>dl_hashed := dl_hashed x @ c, dl_sv := s\<rparr>))"
      by (simp add: dl_inv_def)
    then show ?thesis
      using assms(1) False Inr w s i by (auto simp: take_chunk_def Let_def split: sum.splits)
  qed
qed

lemma download_loop_calls:
  assumes "dl_inv pf m p x" "download_loop pf m p x = (r, x')"
  shows "\<exists>cs. sv_flash (dl_sv x') = sv_flash (dl_sv x) @ map OtaWrite cs
      \<and> (r = Inr () \<longrightarrow> dl_hashed x' = dl_hashed x @ concat cs \<and> dl_inv pf m p x')"
  using assms
proof (induction pf m p x arbitrary: r x' rule: download_loop.induct)
  case (1 pf m p x)
  obtain q s where q: "with_env (pf_http_read pf CHUNK) (dl_sv x) = (q, s)" by fastforce
  then have fs: "sv_flash s = sv_flash (dl_sv x)"
    using with_env_calls [of "pf_http_read pf CHUNK" "dl_sv x"] by simp
  have inv: "dl_inv pf m p (x\<lparr>dl_sv := s\<rparr>)" using "1.prems"(1) by (simp add: dl_inv_def)
  show ?case
  proof (cases "\<exists>b bs. q = Inr (b # bs)")
    case False
    then show ?thesis
      using "1.prems"(2) inv fs q
      by (auto simp: download_loop.simps [of pf m p x] split: sum.splits list.splits intro!: exI [of _ "[]"])
  next
    case True
    then obtain b bs where b: "q = Inr (b # bs)" by blast
    obtain t x1 where t: "take_chunk pf m p (b # bs) (x\<lparr>dl_sv := s\<rparr>) = (t, x1)" by fastforce
    from take_chunk_step [OF t inv] obtain ops where ops: "sv_flash (dl_sv x1) = sv_flash (dl_sv x) @ ops"
      "ops = [] \<or> ops = [OtaWrite (b # bs)]"
      "t = Inr () \<Longrightarrow> ops = [OtaWrite (b # bs)] \<and> dl_hashed x1 = dl_hashed x @ b # bs \<and> dl_inv pf m p x1"
      using fs by auto
    show ?thesis
    proof (cases t)
      case (Inl e)
      then have "r = Inl e \<and> x' = x1"
        using "1.prems"(2) q b t by (simp add: download_loop.simps [of pf m p x])
      then show ?thesis
        using ops(1,2) by (auto intro: exI [of _ "[]"] exI [of _ "[b # bs]"])
    next
      case (Inr u)
      then have r: "download_loop pf m p x1 = (r, x')"
        using "1.prems"(2) q b t by (simp add: download_loop.simps [of pf m p x])
      have o: "ops = [OtaWrite (b # bs)]" "dl_hashed x1 = dl_hashed x @ b # bs" "dl_inv pf m p x1"
        using ops(3) Inr by auto
      from "1.IH" [OF q [symmetric] b refl t [symmetric] Inr o(3) r] obtain cs
        where "sv_flash (dl_sv x') = sv_flash (dl_sv x1) @ map OtaWrite cs"
          "r = Inr () \<longrightarrow> dl_hashed x' = dl_hashed x1 @ concat cs \<and> dl_inv pf m p x'" by blast
      then show ?thesis using ops(1) o by (intro exI [of _ "(b # bs) # cs"]) simp
    qed
  qed
qed

text \<open>A stream the worker accepts.\<close>

definition good_image :: "'e platform \<Rightarrow> manifest \<Rightarrow> string \<Rightarrow> u8 list \<Rightarrow> bool" where
  "good_image pf m project img \<longleftrightarrow> length img = unat (m_size m) \<and> APP_DESC_END \<le> length img
     \<and> pf_sha256 pf img = sha256_bytes m
     \<and> verify_app_descriptor pf (take APP_DESC_END img) m project = Inr ()"

lemma stream_calls:
  assumes "stream_image pf m p s = (r, s')"
  shows "\<exists>cs. (r = Inr () \<and> sv_flash s' = sv_flash s @ map OtaWrite cs \<and> good_image pf m p (concat cs))
    \<or> (r \<noteq> Inr () \<and> sv_flash s' = sv_flash s @ map OtaWrite cs @ [OtaAbort])"
proof -
  obtain q x where q: "download_loop pf m p (dl_start s) = (q, x)" by fastforce
  have i: "dl_inv pf m p (dl_start s)" by (rule dl_inv_start)
  from download_loop_calls [OF i q] obtain cs
    where cs: "sv_flash (dl_sv x) = sv_flash s @ map OtaWrite cs"
      "q = Inr () \<Longrightarrow> dl_hashed x = concat cs \<and> dl_inv pf m p x"
    by (auto simp: dl_start_def)
  show ?thesis
  proof (cases q)
    case (Inl e)
    then show ?thesis using assms q cs(1) by (intro exI [of _ cs]) (auto simp: stream_image_def)
  next
    case (Inr u)
    then have c2: "dl_hashed x = concat cs" "dl_inv pf m p x" using cs(2) by auto
    show ?thesis
    proof (cases "final_checks pf m x")
      case (Inl e)
      then show ?thesis using assms q Inr cs(1) by (intro exI [of _ cs]) (auto simp: stream_image_def)
    next
      case (Inr v)
      then have "good_image pf m p (concat cs)"
        using c2 by (auto simp: good_image_def final_checks_def dl_inv_def split: if_splits)
      moreover have "r = Inr ()" "s' = dl_sv x"
        using assms q Inr \<open>q = Inr u\<close> by (auto simp: stream_image_def)
      ultimately show ?thesis using cs(1) by blast
    qed
  qed
qed

text \<open>
  The flash calls one download may make: none, a refused begin, or an open handle closed
  exactly once: aborted, or ended and perhaps activated.
\<close>

datatype download_trace = NoBegin | BeginRefused | Aborted "u8 list list" | Ended "u8 list list"
  | Activated "u8 list list"

primrec trace_calls :: "download_trace \<Rightarrow> flash_op list" where
  "trace_calls NoBegin = []"
| "trace_calls BeginRefused = [OtaBegin]"
| "trace_calls (Aborted cs) = OtaBegin # map OtaWrite cs @ [OtaAbort]"
| "trace_calls (Ended cs) = OtaBegin # map OtaWrite cs @ [OtaEnd]"
| "trace_calls (Activated cs) = OtaBegin # map OtaWrite cs @ [OtaEnd, OtaSetBoot]"

lemma set_boot_trace: "OtaSetBoot \<in> set (trace_calls t) \<longleftrightarrow> (\<exists>cs. t = Activated cs)"
  by (cases t) auto

lemma finish_calls:
  "finish_and_activate pf s = (r, s') \<Longrightarrow>
     sv_flash s' = sv_flash s @ [OtaEnd] \<and> r \<noteq> Inr () \<or> sv_flash s' = sv_flash s @ [OtaEnd, OtaSetBoot]"
proof -
  assume f: "finish_and_activate pf s = (r, s')"
  obtain q1 s1 where 1: "flash pf OtaEnd s = (q1, s1)" by fastforce
  obtain q2 s2 where 2: "flash pf OtaSetBoot s1 = (q2, s2)" by fastforce
  have "sv_flash s1 = sv_flash s @ [OtaEnd]" "sv_flash s2 = sv_flash s1 @ [OtaSetBoot]"
    using flash_calls [of pf OtaEnd s] flash_calls [of pf OtaSetBoot s1] by (simp_all add: 1 2)
  then show ?thesis using f by (cases q1) (auto simp: finish_and_activate_def 1 2)
qed

lemma open_calls:
  assumes "open_image pf m s = (r, s')"
  shows "sv_flash s' = sv_flash s @ (if r = Inr () then [OtaBegin] else []) \<or> sv_flash s' = sv_flash s @ [OtaBegin]"
proof -
  obtain q1 s1 where 1: "with_env (pf_http_new pf) s = (q1, s1)" by fastforce
  obtain q2 s2 where 2: "with_env (pf_http_get pf (m_url m) ''application/octet-stream'') s1 = (q2, s2)" by fastforce
  obtain q3 s3 where 3: "slot_begin pf s2 = (q3, s3)" by fastforce
  have "sv_flash s1 = sv_flash s" "sv_flash s2 = sv_flash s1" "sv_flash s3 = sv_flash s2 @ [OtaBegin]"
    using with_env_calls [of "pf_http_new pf" s] slot_calls(1) [of pf s2]
      with_env_calls [of "pf_http_get pf (m_url m) ''application/octet-stream''" s1] by (simp_all add: 1 2 3)
  then show ?thesis using assms by (auto simp: open_image_def 1 2 3 split: sum.splits)
qed

lemma note_verifying_fields [simp]:
  "sv_flash (note_verifying s) = sv_flash s" "sv_env (note_verifying s) = sv_env s"
  "o_state (sh_ota (sv_shared (note_verifying s))) = Verifying"
  by (simp_all add: note_verifying_def upd_ota_def)

lemma download_trace:
  assumes d: "download_and_write pf m p s = (r, s')"
  shows "\<exists>t. sv_flash s' = sv_flash s @ trace_calls t
    \<and> (\<forall>cs. t = Ended cs \<or> t = Activated cs \<longrightarrow> good_image pf m p (concat cs))
    \<and> (r = Inr () \<longrightarrow> (\<exists>cs. t = Activated cs))"
proof -
  obtain q3 s3 where 3: "open_image pf m s = (q3, s3)" by fastforce
  obtain q4 s4 where 4: "stream_image pf m p s3 = (q4, s4)" by fastforce
  obtain q5 s5 where 5: "finish_and_activate pf (note_verifying s4) = (q5, s5)" by fastforce
  note o = open_calls [OF 3]
  consider (refused) "s' = s3" "r \<noteq> Inr ()" | (aborted) "s' = s4" "q3 = Inr ()" "q4 \<noteq> Inr ()" "r \<noteq> Inr ()"
    | (finished) "s' = s5" "q3 = Inr ()" "q4 = Inr ()" "r = q5"
    using d by (cases q3; cases q4) (auto simp: download_and_write_def 3 4 5)
  then show ?thesis
  proof cases
    case refused
    from o have "sv_flash s3 = sv_flash s @ trace_calls NoBegin \<or> sv_flash s3 = sv_flash s @ trace_calls BeginRefused"
      by (auto split: if_splits)
    then show ?thesis using refused by fastforce
  next
    case aborted
    then obtain cs where "sv_flash s4 = sv_flash s3 @ map OtaWrite cs @ [OtaAbort]"
      using stream_calls [OF 4] by blast
    then show ?thesis using aborted o by (intro exI [of _ "Aborted cs"]) auto
  next
    case finished
    with stream_calls [OF 4] obtain cs where cs: "sv_flash s4 = sv_flash s3 @ map OtaWrite cs"
      "good_image pf m p (concat cs)" by blast
    from finish_calls [OF 5] show ?thesis
    proof
      assume "sv_flash s5 = sv_flash (note_verifying s4) @ [OtaEnd] \<and> q5 \<noteq> Inr ()"
      then show ?thesis using finished cs o by (intro exI [of _ "Ended cs"]) auto
    next
      assume "sv_flash s5 = sv_flash (note_verifying s4) @ [OtaEnd, OtaSetBoot]"
      then show ?thesis using finished cs o by (intro exI [of _ "Activated cs"]) auto
    qed
  qed
qed

text \<open>The download writes only the update status and the changed mark of the shared record.\<close>

definition others :: "'e services \<Rightarrow> wifi_status \<times> bool \<times> string \<times> bool \<times> string option" where
  "others s = (sh_wifi (sv_shared s), sh_moving (sv_shared s), sh_slot (sv_shared s),
     sh_pending_verify (sv_shared s), sh_rolled_back_from (sv_shared s))"

lemma io_others [simp]: "others (snd (with_env f s)) = others s" "others (snd (flash pf a s)) = others s"
  by (simp_all add: flash_def with_env_def others_def case_prod_beta)

lemma slot_others [simp]:
  "others (snd (slot_begin pf s)) = others s" "others (snd (slot_write pf c s)) = others s"
  "others (slot_drop pf s) = others s" "others (s\<lparr>sv_shared := upd_ota g (sv_shared s)\<rparr>) = others s"
  by (simp_all add: slot_begin_def slot_write_def slot_drop_def)
    (simp add: others_def upd_ota_def)

lemma take_chunk_others:
  assumes "take_chunk pf m p c x = (r, x')"
  shows "others (dl_sv x') = others (dl_sv x)"
proof -
  have ch: "dl_sv x2 = dl_sv x1" if "check_head pf m p c x1 = Inr x2" for x1 x2 :: "'a download"
    using that by (auto simp: check_head_def Let_def split: if_splits sum.splits)
  have rp: "others (dl_sv (report_progress m x)) = others (dl_sv x)" for x :: "'a download"
    by (simp add: report_progress_def Let_def)
  have "others s = others (dl_sv x2)" if "slot_write pf c (dl_sv x2) = (w, s)" for w s and x2 :: "'a download"
    using slot_others(2) [of pf c "dl_sv x2"] that by simp
  then show ?thesis
    using assms ch rp by (fastforce simp: take_chunk_def Let_def split: if_splits sum.splits prod.splits)
qed

lemma download_loop_others: "download_loop pf m p x = (r, x') \<Longrightarrow> others (dl_sv x') = others (dl_sv x)"
proof (induction pf m p x arbitrary: r x' rule: download_loop.induct)
  case (1 pf m p x)
  obtain q s where q: "with_env (pf_http_read pf CHUNK) (dl_sv x) = (q, s)" by fastforce
  then have s: "others s = others (dl_sv x)" using io_others(1) [of "pf_http_read pf CHUNK" "dl_sv x"] by simp
  show ?case
  proof (cases "\<exists>b bs. q = Inr (b # bs)")
    case False
    then show ?thesis
      using "1.prems" q s by (auto simp: download_loop.simps [of pf m p x] split: sum.splits list.splits)
  next
    case True
    then obtain b bs where b: "q = Inr (b # bs)" by blast
    obtain t x1 where t: "take_chunk pf m p (b # bs) (x\<lparr>dl_sv := s\<rparr>) = (t, x1)" by fastforce
    have "others (dl_sv x1) = others (dl_sv x)" using take_chunk_others [OF t] s by simp
    then show ?thesis
      using "1.prems" "1.IH" [OF q [symmetric] b refl t [symmetric]] q b t
      by (cases t) (auto simp: download_loop.simps [of pf m p x])
  qed
qed

lemma open_others: "open_image pf m s = (r, s') \<Longrightarrow> others s' = others s"
proof -
  assume o: "open_image pf m s = (r, s')"
  obtain q1 s1 where 1: "with_env (pf_http_new pf) s = (q1, s1)" by fastforce
  obtain q2 s2 where 2: "with_env (pf_http_get pf (m_url m) ''application/octet-stream'') s1 = (q2, s2)" by fastforce
  obtain q3 s3 where 3: "slot_begin pf s2 = (q3, s3)" by fastforce
  have "others s1 = others s" "others s2 = others s1" "others s3 = others s2"
    using io_others(1) [of "pf_http_new pf" s] slot_others(1) [of pf s2]
      io_others(1) [of "pf_http_get pf (m_url m) ''application/octet-stream''" s1] by (simp_all add: 1 2 3)
  then show ?thesis using o by (auto simp: open_image_def 1 2 3 split: sum.splits)
qed

lemma note_verifying_others [simp]: "others (note_verifying s) = others s"
  by (simp add: note_verifying_def)

lemma finish_others: "finish_and_activate pf s = (r, s') \<Longrightarrow> others s' = others s"
proof -
  have "others (snd (finish_and_activate pf s)) = others s"
    by (simp add: finish_and_activate_def case_prod_beta split: sum.split)
  then show "finish_and_activate pf s = (r, s') \<Longrightarrow> ?thesis" by simp
qed

lemma download_others:
  assumes "download_and_write pf m p s = (r, s')"
  shows "others s' = others s"
proof -
  have st: "others s2 = others s1" if "stream_image pf m p s1 = (q, s2)" for s1 s2 q
    using that download_loop_others
    by (fastforce simp: stream_image_def dl_start_def split: prod.splits sum.splits)
  obtain q3 s3 where 3: "open_image pf m s = (q3, s3)" by fastforce
  obtain q4 s4 where 4: "stream_image pf m p s3 = (q4, s4)" by fastforce
  obtain q5 s5 where 5: "finish_and_activate pf (note_verifying s4) = (q5, s5)" by fastforce
  show ?thesis
    using assms open_others [OF 3] st [OF 4] finish_others [OF 5]
    by (auto simp: download_and_write_def 3 4 5 split: sum.splits)
qed

section \<open>A server that delivers\<close>

text \<open>
  \<open>pending e\<close> is what the server still has to send: a read returns a non-empty piece of it
  until nothing is left; flash calls succeed and leave it alone.
\<close>

definition serves :: "'e platform \<Rightarrow> ('e \<Rightarrow> u8 list) \<Rightarrow> bool" where
  "serves pf pending \<longleftrightarrow>
     (\<forall>e. \<exists>c e'. pf_http_read pf CHUNK e = (Inr c, e') \<and> pending e = c @ pending e'
        \<and> (c = [] \<longrightarrow> pending e = []))
     \<and> (\<forall>a e. \<exists>e'. pf_flash pf a e = (Inr (), e') \<and> pending e' = pending e)"

lemma serves_flash:
  "serves pf pending \<Longrightarrow> \<exists>s'. flash pf a s = (Inr (), s') \<and> pending (sv_env s') = pending (sv_env s)
     \<and> sv_flash s' = sv_flash s @ [a]"
proof -
  assume "serves pf pending"
  then obtain e' where "pf_flash pf a (sv_env s) = (Inr (), e')" "pending e' = pending (sv_env s)"
    unfolding serves_def by blast
  then show ?thesis by (simp add: flash_def with_env_def)
qed

lemma serves_read:
  assumes "serves pf pending"
  obtains c s' where "with_env (pf_http_read pf CHUNK) s = (Inr c, s')"
    "pending (sv_env s) = c @ pending (sv_env s')" "c = [] \<Longrightarrow> pending (sv_env s) = []"
    "sv_flash s' = sv_flash s"
proof -
  obtain c e' where c: "pf_http_read pf CHUNK (sv_env s) = (Inr c, e')"
    "pending (sv_env s) = c @ pending e'" "c = [] \<longrightarrow> pending (sv_env s) = []"
    using assms unfolding serves_def by blast
  then show ?thesis using that [of c "s\<lparr>sv_env := e'\<rparr>"] by (simp add: with_env_def)
qed

text \<open>One chunk of a stream whose descriptor is good, with room left, is taken.\<close>

lemma take_chunk_ok:
  assumes sv: "serves pf pending" and i: "dl_inv pf m p x"
    and room: "dl_total x + length c \<le> unat (m_size m)"
    and desc: "APP_DESC_END \<le> length (dl_hashed x @ c)
      \<Longrightarrow> verify_app_descriptor pf (take APP_DESC_END (dl_hashed x @ c)) m p = Inr ()"
  shows "\<exists>x'. take_chunk pf m p c x = (Inr (), x')
    \<and> pending (sv_env (dl_sv x')) = pending (sv_env (dl_sv x))"
proof -
  let ?x1 = "x\<lparr>dl_total := dl_total x + length c\<rparr>"
  have small: "\<not> 2 ^ 32 \<le> dl_total x + length c" using room unsigned_less [of "m_size m", where 'a = nat] by simp
  have "\<exists>x2. check_head pf m p c ?x1 = Inr x2 \<and> dl_sv x2 = dl_sv x"
    using i desc by (auto simp: check_head_def dl_inv_def Let_def)
  then obtain x2 where x2: "check_head pf m p c ?x1 = Inr x2" "dl_sv x2 = dl_sv x" by blast
  obtain s' where s': "slot_write pf c (dl_sv x) = (Inr (), s')" "pending (sv_env s') = pending (sv_env (dl_sv x))"
    using serves_flash [OF sv, of "OtaWrite c" "dl_sv x"] by (auto simp: slot_write_def annotate_def)
  show ?thesis using small room x2 s' by (simp add: take_chunk_def Let_def)
qed

lemma download_loop_ok:
  assumes "serves pf pending" "dl_inv pf m p x"
    "dl_total x + length (pending (sv_env (dl_sv x))) \<le> unat (m_size m)"
    "APP_DESC_END \<le> length (dl_hashed x @ pending (sv_env (dl_sv x)))"
    "verify_app_descriptor pf (take APP_DESC_END (dl_hashed x @ pending (sv_env (dl_sv x)))) m p = Inr ()"
  shows "\<exists>x'. download_loop pf m p x = (Inr (), x') \<and> dl_inv pf m p x' \<and> dl_checked x'
    \<and> dl_hashed x' = dl_hashed x @ pending (sv_env (dl_sv x))"
  using assms
proof (induction "length (pending (sv_env (dl_sv x)))" arbitrary: x rule: less_induct)
  case less
  obtain c s where c: "with_env (pf_http_read pf CHUNK) (dl_sv x) = (Inr c, s)"
    "pending (sv_env (dl_sv x)) = c @ pending (sv_env s)" "c = [] \<Longrightarrow> pending (sv_env (dl_sv x)) = []"
    using serves_read [OF less.prems(1), of "dl_sv x"] by metis
  let ?x = "x\<lparr>dl_sv := s\<rparr>"
  have inv: "dl_inv pf m p ?x" using less.prems(2) by (simp add: dl_inv_def)
  show ?case
  proof (cases c)
    case Nil
    then have p: "pending (sv_env (dl_sv x)) = []" using c(3) by simp
    then have "dl_checked x" using less.prems(2,4) by (auto simp: dl_inv_def)
    then show ?thesis using c(1) Nil p inv by (auto simp: download_loop.simps [of pf m p x])
  next
    case (Cons b bs)
    have desc: "verify_app_descriptor pf (take APP_DESC_END (dl_hashed ?x @ c)) m p = Inr ()"
      if "APP_DESC_END \<le> length (dl_hashed ?x @ c)"
      using less.prems(5) that c(2) by simp
    have room: "dl_total ?x + length c \<le> unat (m_size m)" using less.prems(3) c(2) by simp
    obtain x1 where x1: "take_chunk pf m p c ?x = (Inr (), x1)" "pending (sv_env (dl_sv x1)) = pending (sv_env s)"
      using take_chunk_ok [OF less.prems(1) inv room desc] by auto
    have h: "dl_hashed x1 = dl_hashed x @ c" "dl_inv pf m p x1" using take_chunk_step [OF x1(1) inv] by auto
    have t: "dl_total x1 = dl_total x + length c" using take_chunk_total [OF x1(1)] by simp
    have "\<exists>x'. download_loop pf m p x1 = (Inr (), x') \<and> dl_inv pf m p x' \<and> dl_checked x'
        \<and> dl_hashed x' = dl_hashed x1 @ pending (sv_env (dl_sv x1))"
      using less.prems c(2) h t x1(2) Cons by (intro less.hyps) simp_all
    then show ?thesis
      using c h x1 Cons by (auto simp: download_loop.simps [of pf m p x])
  qed
qed


lemma download_ok:
  assumes sv: "serves pf pending"
    and req: "pf_http_new pf (sv_env s) = (Inr (), e1)"
      "pf_http_get pf (m_url m) ''application/octet-stream'' e1 = (Inr h, e2)"
    and resp: "h_status h = 200"
      "Option.bind (h_content_length h) (\<lambda>v. parse_u32 (trim v)) \<in> {None, Some (uint (m_size m))}"
    and heap: "\<not> pf_free_heap pf e2 < MIN_FREE_HEAP_FOR_DOWNLOAD"
    and img: "good_image pf m p (pending e2)"
  shows "\<exists>cs s'. download_and_write pf m p s = (Inr (), s')
    \<and> sv_flash s' = sv_flash s @ trace_calls (Activated cs) \<and> concat cs = pending e2"
proof -
  let ?s2 = "s\<lparr>sv_env := e2\<rparr>"
  obtain s3 where s3: "slot_begin pf ?s2 = (Inr (), s3)" "pending (sv_env s3) = pending e2"
    "sv_flash s3 = sv_flash s @ [OtaBegin]"
    using serves_flash [OF sv, of OtaBegin ?s2] by (auto simp: slot_begin_def annotate_def)
  obtain x where x: "download_loop pf m p (dl_start s3) = (Inr (), x)" "dl_inv pf m p x" "dl_checked x"
    "dl_hashed x = pending e2"
    using download_loop_ok [OF sv dl_inv_start [of pf m p s3]] s3(2) img
    by (auto simp: dl_start_def good_image_def)
  obtain cs where cs: "sv_flash (dl_sv x) = sv_flash s3 @ map OtaWrite cs" "dl_hashed x = concat cs"
    using download_loop_calls [OF dl_inv_start x(1)] by (auto simp: dl_start_def)
  have st: "stream_image pf m p s3 = (Inr (), dl_sv x)"
    using x img by (simp add: stream_image_def final_checks_def good_image_def dl_inv_def)
  let ?s4 = "note_verifying (dl_sv x)"
  obtain s5 where s5: "flash pf OtaEnd ?s4 = (Inr (), s5)" "sv_flash s5 = sv_flash (dl_sv x) @ [OtaEnd]"
    using serves_flash [OF sv, of OtaEnd ?s4] by auto
  obtain s6 where s6: "flash pf OtaSetBoot s5 = (Inr (), s6)" "sv_flash s6 = sv_flash s5 @ [OtaSetBoot]"
    using serves_flash [OF sv, of OtaSetBoot s5] by auto
  have "check_response pf m h ?s2 = Inr ()" "check_heap pf ?s2 = Inr ()"
    using resp heap by (auto simp: check_response_def check_heap_def Let_def split: option.split)
  then have "open_image pf m s = (Inr (), s3)" using req s3(1) by (simp add: open_image_def with_env_def)
  then have "download_and_write pf m p s = (Inr (), s6)"
    using st s5(1) s6(1) by (simp add: download_and_write_def finish_and_activate_def annotate_def)
  moreover have "sv_flash s6 = sv_flash s @ trace_calls (Activated cs)"
    using s6(2) s5(2) cs(1) s3(3) by simp
  ultimately show ?thesis using cs(2) x(4) by auto
qed

text \<open>A platform whose environment is the bytes left to send; its digest is the length.\<close>

definition sim_platform :: "u8 list platform" where
  "sim_platform = \<lparr>pf_http_new = \<lambda>e. (Inr (), e),
     pf_http_get = \<lambda>url accept e. (Inr \<lparr>h_status = 200, h_content_length = None\<rparr>, e),
     pf_http_read = \<lambda>n e. (Inr (take n e), drop n e),
     pf_flash = \<lambda>a e. (Inr (), e),
     pf_sha256 = \<lambda>bs. replicate 32 (of_nat (length bs)),
     pf_fetch_info = \<lambda>h. Inr (Some \<lparr>fw_version = ''1.2.3'', fw_description = Some ''libespidf''\<rparr>),
     pf_from_str = \<lambda>t. Inl t, pf_free_heap = \<lambda>e. 100000, pf_now = \<lambda>e. 0, pf_uptime = \<lambda>e. 0,
     pf_sleep = \<lambda>n e. e, pf_mark_valid = \<lambda>e. (Inr (), e),
     pf_wifi_new = \<lambda>e. (Inr (), e), pf_wifi_wrap = \<lambda>e. (Inr (), e),
     pf_wifi_connected = \<lambda>e. (Inr True, e), pf_ssid_fits = \<lambda>t. length t \<le> 32,
     pf_psk_fits = \<lambda>t. length t \<le> 64, pf_wifi_configure = \<lambda>a b c e. (Inr (), e),
     pf_wifi_start = \<lambda>e. (Inr (), e), pf_wifi_connect = \<lambda>e. (Inr (), e),
     pf_wifi_wait_up = \<lambda>e. (Inr (), e), pf_wifi_ip = \<lambda>e. (Inr ''10.0.0.2'', e),
     pf_wifi_rssi = \<lambda>e. (Inr 0, e), pf_wifi_disconnect = \<lambda>e. e, pf_wifi_stop = \<lambda>e. e,
     pf_wifi_drop = \<lambda>e. e\<rparr>"

definition sim_manifest :: manifest where
  "sim_manifest = \<lparr>m_project = PROJECT_NAME, m_version = ''1.2.3'', m_url = ''https://x/i.bin'',
     m_sha256 = concat (replicate 32 ''2c''), m_size = 300, m_min_version = None, m_notes = None\<rparr>"

definition sim_services :: "u8 list \<Rightarrow> u8 list services" where
  "sim_services img = \<lparr>sv_env = img, sv_flash = [], sv_shared =
     \<lparr>sh_ota = \<lparr>o_state = Idle, o_progress = 0, o_current = ''1.0.0'', o_available = None, o_notes = None,
        o_size = None, o_error = None, o_last_check_uptime = None, o_last_check_ok = False\<rparr>,
      sh_wifi = \<lparr>ws_configured = True, ws_ssid = None, ws_state = WifiOff, ws_ip = None, ws_rssi = None,
        ws_error = None\<rparr>,
      sh_changed = False, sh_moving = False, sh_slot = ''ota_0'', sh_pending_verify = False,
      sh_rolled_back_from = None\<rparr>\<rparr>"

lemma sim_serves: "serves sim_platform (\<lambda>e. e)"
  by (auto simp: serves_def sim_platform_def CHUNK_def)

lemma sim_good: "good_image sim_platform sim_manifest ''libespidf'' (replicate 300 7)"
proof -
  have "sha256_bytes sim_manifest = replicate 32 0x2C"
    "replicate 32 (of_nat 300 :: u8) = replicate 32 0x2C" by code_simp+
  then show ?thesis
    by (simp add: good_image_def sim_platform_def sim_manifest_def APP_DESC_END_def verify_app_descriptor_def)
qed

lemma sim_request:
  "pf_http_new sim_platform e = (Inr (), e)"
  "pf_http_get sim_platform u a e = (Inr \<lparr>h_status = 200, h_content_length = None\<rparr>, e)"
  "\<not> pf_free_heap sim_platform e < MIN_FREE_HEAP_FOR_DOWNLOAD"
  by (simp_all add: sim_platform_def MIN_FREE_HEAP_FOR_DOWNLOAD_def)

section \<open>Properties\<close>

text \<open>
  C23. And a good image is installed: when the server answers 200 with the manifest's length or
  none and delivers, in any pieces, an image with the manifest's size and digest and a good
  descriptor, when the heap suffices and flash works, the download writes exactly that image
  and switches the boot slot to it.
\<close>

theorem good_image_is_installed:
  assumes sv: "serves pf pending"
    and req: "pf_http_new pf (sv_env s) = (Inr (), e1)"
      "pf_http_get pf (m_url m) ''application/octet-stream'' e1 = (Inr h, e2)"
    and resp: "h_status h = 200"
      "Option.bind (h_content_length h) (\<lambda>v. parse_u32 (trim v)) \<in> {None, Some (uint (m_size m))}"
    and heap: "\<not> pf_free_heap pf e2 < MIN_FREE_HEAP_FOR_DOWNLOAD"
    and img: "good_image pf m p (pending e2)"
  shows "\<exists>cs s'. download_and_write pf m p s = (Inr (), s')
    \<and> sv_flash s' = sv_flash s @ trace_calls (Activated cs) \<and> concat cs = pending e2"
  by (rule download_ok [OF assms])

theorem good_image_is_installed_witness:
  "\<exists>cs s'. download_and_write sim_platform sim_manifest ''libespidf'' (sim_services (replicate 300 7)) = (Inr (), s')
    \<and> sv_flash s' = trace_calls (Activated cs) \<and> concat cs = replicate 300 7"
proof -
  let ?s = "sim_services (replicate 300 7)"
  have e: "sv_env ?s = replicate 300 7" "sv_flash ?s = []" by (simp_all add: sim_services_def)
  have g: "good_image sim_platform sim_manifest ''libespidf'' (sv_env ?s)" by (simp add: e sim_good)
  show ?thesis
    using good_image_is_installed [where pending = "\<lambda>e. e" and s = ?s, OF sim_serves sim_request(1,2) _ _ sim_request(3) g] e by simp
qed

end
