(* ===== verification/Config_Store.thy ===== *)
theory Config_Store
  imports Ble_Proto
begin

text \<open>
  User settings in flash, \<open>esp32/src/config_store.rs\<close>: loading at boot and the five setters.
  The flash (ESP-IDF's NVS) is the parameter \<open>nv\<close>; log lines are left out. A setter keeps the
  new value in memory whether or not the flash write succeeds, as the code does.
\<close>

section \<open>Flash operations\<close>

text \<open>
  \<open>get_str\<close> of a key into a buffer of a length, and \<open>get_u8\<close>: an error or the stored value if
  any; the writers and \<open>remove\<close>: whether they succeeded and the new flash.
\<close>

record 'c cfg_nvs =
  cfg_get_str :: "'c \<Rightarrow> string \<Rightarrow> nat \<Rightarrow> unit + string option"
  cfg_get_u8 :: "'c \<Rightarrow> string \<Rightarrow> unit + u8 option"
  cfg_set_str :: "'c \<Rightarrow> string \<Rightarrow> string \<Rightarrow> bool \<times> 'c"
  cfg_set_u8 :: "'c \<Rightarrow> string \<Rightarrow> u8 \<Rightarrow> bool \<times> 'c"
  cfg_remove :: "'c \<Rightarrow> string \<Rightarrow> bool \<times> 'c"

definition CFG_NS :: string where "CFG_NS = ''w230cfg''"
definition K_SSID :: string where "K_SSID = ''ssid''"
definition K_PSK :: string where "K_PSK = ''psk''"
definition K_BOOT :: string where "K_BOOT = ''bootpol''"
definition K_URL :: string where "K_URL = ''murl''"
definition K_BRIGHT :: string where "K_BRIGHT = ''bright''"

definition BOOT_OFF :: u8 where "BOOT_OFF = 0"
definition BOOT_CHECK :: u8 where "BOOT_CHECK = 1"
definition BOOT_CHECK_AND_INSTALL :: u8 where "BOOT_CHECK_AND_INSTALL = 2"

section \<open>The store\<close>

record config =
  cfg_ssid :: "string option"
  cfg_psk :: string
  cfg_boot_policy :: u8
  cfg_manifest_url :: "string option"
  cfg_brightness_idx :: u8

record 'c config_store =
  cs_nvs :: 'c
  cs_cfg :: config

definition cfg_str :: "'c cfg_nvs \<Rightarrow> 'c \<Rightarrow> string \<Rightarrow> string option" where
  "cfg_str nv n k =
     (case cfg_get_str nv n k 256 of
        Inr (Some s) \<Rightarrow> if s \<noteq> [] then Some s else None
      | _ \<Rightarrow> None)"

definition cfg_load :: "'c cfg_nvs \<Rightarrow> 'c config_store \<Rightarrow> 'c config_store" where
  "cfg_load nv cs =
     (let n = cs_nvs cs; c = cs_cfg cs
      in cs\<lparr>cs_cfg := \<lparr>cfg_ssid = cfg_str nv n K_SSID,
            cfg_psk = (case cfg_str nv n K_PSK of Some p \<Rightarrow> p | None \<Rightarrow> []),
            cfg_boot_policy = (case cfg_get_u8 nv n K_BOOT of
              Inr (Some v) \<Rightarrow> min v BOOT_CHECK_AND_INSTALL | _ \<Rightarrow> cfg_boot_policy c),
            cfg_manifest_url = cfg_str nv n K_URL,
            cfg_brightness_idx = (case cfg_get_u8 nv n K_BRIGHT of
              Inr (Some v) \<Rightarrow> v | _ \<Rightarrow> cfg_brightness_idx c)\<rparr>\<rparr>)"

definition cfg_open :: "'c cfg_nvs \<Rightarrow> 'c \<Rightarrow> u8 \<Rightarrow> 'c config_store" where
  "cfg_open nv n default_policy =
     cfg_load nv \<lparr>cs_nvs = n, cs_cfg = \<lparr>cfg_ssid = None, cfg_psk = [],
       cfg_boot_policy = default_policy, cfg_manifest_url = None, cfg_brightness_idx = 1\<rparr>\<rparr>"

section \<open>Setters\<close>

definition set_wifi :: "'c cfg_nvs \<Rightarrow> string \<Rightarrow> string \<Rightarrow> 'c config_store \<Rightarrow> 'c config_store" where
  "set_wifi nv ssid psk cs =
     (let (ok, n1) = cfg_set_str nv (cs_nvs cs) K_SSID ssid;
          n2 = (if ok then snd (cfg_set_str nv n1 K_PSK psk) else n1)
      in cs\<lparr>cs_nvs := n2, cs_cfg := (cs_cfg cs)\<lparr>cfg_ssid := Some ssid, cfg_psk := psk\<rparr>\<rparr>)"

definition clear_wifi :: "'c cfg_nvs \<Rightarrow> 'c config_store \<Rightarrow> 'c config_store" where
  "clear_wifi nv cs =
     (let (_, n1) = cfg_remove nv (cs_nvs cs) K_SSID;
          (_, n2) = cfg_remove nv n1 K_PSK
      in cs\<lparr>cs_nvs := n2, cs_cfg := (cs_cfg cs)\<lparr>cfg_ssid := None, cfg_psk := []\<rparr>\<rparr>)"

definition set_boot_policy :: "'c cfg_nvs \<Rightarrow> u8 \<Rightarrow> 'c config_store \<Rightarrow> 'c config_store" where
  "set_boot_policy nv p cs =
     (let p = min p BOOT_CHECK_AND_INSTALL;
          (_, n) = cfg_set_u8 nv (cs_nvs cs) K_BOOT p
      in cs\<lparr>cs_nvs := n, cs_cfg := (cs_cfg cs)\<lparr>cfg_boot_policy := p\<rparr>\<rparr>)"

definition set_manifest_url :: "'c cfg_nvs \<Rightarrow> string option \<Rightarrow> 'c config_store \<Rightarrow> 'c config_store" where
  "set_manifest_url nv url cs =
     (case (case url of Some u \<Rightarrow> if u \<noteq> [] then Some u else None | None \<Rightarrow> None) of
        Some u \<Rightarrow> cs\<lparr>cs_nvs := snd (cfg_set_str nv (cs_nvs cs) K_URL u),
                     cs_cfg := (cs_cfg cs)\<lparr>cfg_manifest_url := Some u\<rparr>\<rparr>
      | None \<Rightarrow> cs\<lparr>cs_nvs := snd (cfg_remove nv (cs_nvs cs) K_URL),
                   cs_cfg := (cs_cfg cs)\<lparr>cfg_manifest_url := None\<rparr>\<rparr>)"

definition set_brightness :: "'c cfg_nvs \<Rightarrow> u8 \<Rightarrow> 'c config_store \<Rightarrow> 'c config_store" where
  "set_brightness nv idx cs =
     (let (_, n) = cfg_set_u8 nv (cs_nvs cs) K_BRIGHT idx
      in cs\<lparr>cs_nvs := n, cs_cfg := (cs_cfg cs)\<lparr>cfg_brightness_idx := idx\<rparr>\<rparr>)"

lemmas config_defs [model_defs] = CFG_NS_def K_SSID_def K_PSK_def K_BOOT_def K_URL_def K_BRIGHT_def
  BOOT_OFF_def BOOT_CHECK_def BOOT_CHECK_AND_INSTALL_def cfg_str_def cfg_load_def cfg_open_def
  set_wifi_def clear_wifi_def set_boot_policy_def set_manifest_url_def set_brightness_def

section \<open>The settings as an abstract record\<close>

datatype cfg_op = SetWifi string string | ClearWifi | SetBoot u8 | SetUrl "string option" | SetBright u8

fun cfg_step :: "'c cfg_nvs \<Rightarrow> 'c config_store \<Rightarrow> cfg_op \<Rightarrow> 'c config_store" where
  "cfg_step nv cs (SetWifi ssid psk) = set_wifi nv ssid psk cs"
| "cfg_step nv cs ClearWifi = clear_wifi nv cs"
| "cfg_step nv cs (SetBoot p) = set_boot_policy nv p cs"
| "cfg_step nv cs (SetUrl u) = set_manifest_url nv u cs"
| "cfg_step nv cs (SetBright b) = set_brightness nv b cs"

text \<open>What an operation means for the settings, flash aside.\<close>

fun cfg_spec :: "config \<Rightarrow> cfg_op \<Rightarrow> config" where
  "cfg_spec c (SetWifi ssid psk) = c\<lparr>cfg_ssid := Some ssid, cfg_psk := psk\<rparr>"
| "cfg_spec c ClearWifi = c\<lparr>cfg_ssid := None, cfg_psk := []\<rparr>"
| "cfg_spec c (SetBoot p) = c\<lparr>cfg_boot_policy := min p 2\<rparr>"
| "cfg_spec c (SetUrl u) = c\<lparr>cfg_manifest_url := (if u = Some [] then None else u)\<rparr>"
| "cfg_spec c (SetBright b) = c\<lparr>cfg_brightness_idx := b\<rparr>"

text \<open>Settings that fit the 256-byte buffer they are read back through; a stored name is not empty.\<close>

fun cfg_op_ok :: "cfg_op \<Rightarrow> bool" where
  "cfg_op_ok (SetWifi ssid psk) \<longleftrightarrow> ssid \<noteq> [] \<and> length ssid < 256 \<and> length psk < 256"
| "cfg_op_ok (SetUrl u) \<longleftrightarrow> (case u of Some t \<Rightarrow> length t < 256 | None \<Rightarrow> True)"
| "cfg_op_ok _ \<longleftrightarrow> True"

lemma cfg_step_spec [simp]: "cs_cfg (cfg_step nv cs a) = cfg_spec (cs_cfg cs) a"
  by (cases a) (auto simp: config_defs Let_def case_prod_beta split: option.splits)

lemma cfg_run_spec: "cs_cfg (run (cfg_step nv) cs as) = run cfg_spec (cs_cfg cs) as"
  by (induction as arbitrary: cs) simp_all

text \<open>
  The documented behaviour of NVS, by what it stores: a string is read back when it fits the
  buffer with its terminator, a written value replaces the old one, other keys keep theirs.
  \<open>cfg_reliable\<close> adds that no write fails.
\<close>

definition cfg_lawful :: "'c cfg_nvs \<Rightarrow> ('c \<Rightarrow> string \<Rightarrow> string option) \<Rightarrow> ('c \<Rightarrow> string \<Rightarrow> u8 option) \<Rightarrow> bool" where
  "cfg_lawful nv strs u8s \<longleftrightarrow>
     (\<forall>n k len. cfg_get_str nv n k len = (case strs n k of None \<Rightarrow> Inr None
        | Some s \<Rightarrow> if length s < len then Inr (Some s) else Inl ()))
     \<and> (\<forall>n k. cfg_get_u8 nv n k = Inr (u8s n k))
     \<and> (\<forall>n k s n'. cfg_set_str nv n k s = (True, n') \<longrightarrow> strs n' = (strs n)(k := Some s) \<and> u8s n' = u8s n)
     \<and> (\<forall>n k v n'. cfg_set_u8 nv n k v = (True, n') \<longrightarrow> strs n' = strs n \<and> u8s n' = (u8s n)(k := Some v))
     \<and> (\<forall>n k n'. cfg_remove nv n k = (True, n') \<longrightarrow> strs n' = (strs n)(k := None) \<and> u8s n' = u8s n)"

definition cfg_reliable :: "'c cfg_nvs \<Rightarrow> bool" where
  "cfg_reliable nv \<longleftrightarrow> (\<forall>n k s. fst (cfg_set_str nv n k s)) \<and> (\<forall>n k v. fst (cfg_set_u8 nv n k v))
     \<and> (\<forall>n k. fst (cfg_remove nv n k))"

lemma lawful_writes:
  assumes "cfg_lawful nv strs u8s" "cfg_reliable nv"
  shows "fst (cfg_set_str nv n k s)" "strs (snd (cfg_set_str nv n k s)) = (strs n)(k := Some s)"
    "u8s (snd (cfg_set_str nv n k s)) = u8s n"
    "strs (snd (cfg_set_u8 nv n k v)) = strs n" "u8s (snd (cfg_set_u8 nv n k v)) = (u8s n)(k := Some v)"
    "strs (snd (cfg_remove nv n k)) = (strs n)(k := None)" "u8s (snd (cfg_remove nv n k)) = u8s n"
proof -
  obtain n1 where "cfg_set_str nv n k s = (True, n1)"
    using assms(2) by (cases "cfg_set_str nv n k s") (auto simp: cfg_reliable_def, metis fst_conv)
  then show "fst (cfg_set_str nv n k s)" "strs (snd (cfg_set_str nv n k s)) = (strs n)(k := Some s)"
    "u8s (snd (cfg_set_str nv n k s)) = u8s n"
    using assms(1) by (simp_all add: cfg_lawful_def)
  obtain n2 where "cfg_set_u8 nv n k v = (True, n2)"
    using assms(2) by (cases "cfg_set_u8 nv n k v") (auto simp: cfg_reliable_def, metis fst_conv)
  then show "strs (snd (cfg_set_u8 nv n k v)) = strs n" "u8s (snd (cfg_set_u8 nv n k v)) = (u8s n)(k := Some v)"
    using assms(1) by (simp_all add: cfg_lawful_def)
  obtain n3 where "cfg_remove nv n k = (True, n3)"
    using assms(2) by (cases "cfg_remove nv n k") (auto simp: cfg_reliable_def, metis fst_conv)
  then show "strs (snd (cfg_remove nv n k)) = (strs n)(k := None)" "u8s (snd (cfg_remove nv n k)) = u8s n"
    using assms(1) by (simp_all add: cfg_lawful_def)
qed

text \<open>What the next boot loads, from what is stored.\<close>

definition fit :: "string option \<Rightarrow> string option" where
  "fit o' = (case o' of Some s \<Rightarrow> if s \<noteq> [] \<and> length s < 256 then Some s else None | None \<Rightarrow> None)"

lemma cfg_str_fit: "cfg_lawful nv strs u8s \<Longrightarrow> cfg_str nv n k = fit (strs n k)"
  by (auto simp: cfg_lawful_def cfg_str_def fit_def split: option.split)

lemma open_stored:
  assumes "cfg_lawful nv strs u8s"
  shows "cs_cfg (cfg_open nv n d) = \<lparr>cfg_ssid = fit (strs n K_SSID),
    cfg_psk = (case fit (strs n K_PSK) of Some p \<Rightarrow> p | None \<Rightarrow> []),
    cfg_boot_policy = (case u8s n K_BOOT of Some v \<Rightarrow> min v 2 | None \<Rightarrow> d),
    cfg_manifest_url = fit (strs n K_URL),
    cfg_brightness_idx = (case u8s n K_BRIGHT of Some v \<Rightarrow> v | None \<Rightarrow> 1)\<rparr>"
proof -
  have "cfg_get_u8 nv n k = Inr (u8s n k)" for k using assms by (simp add: cfg_lawful_def)
  then show ?thesis
    by (simp add: cfg_open_def cfg_load_def cfg_str_fit [OF assms] Let_def BOOT_CHECK_AND_INSTALL_def
        split: option.split)
qed

lemma keys_distinct: "distinct [K_SSID, K_PSK, K_BOOT, K_URL, K_BRIGHT]"
  by (simp add: config_defs)

lemma reopen_step:
  assumes l: "cfg_lawful nv strs u8s" and r: "cfg_reliable nv" and ok: "cfg_op_ok a"
  shows "cs_cfg (cfg_open nv (cs_nvs (cfg_step nv cs a)) d) = cfg_spec (cs_cfg (cfg_open nv (cs_nvs cs) d)) a"
proof -
  note w = lawful_writes [OF l r] and d = keys_distinct
  show ?thesis
    using ok d
    by (cases a)
      (auto simp: open_stored [OF l] set_wifi_def clear_wifi_def set_boot_policy_def set_manifest_url_def
        set_brightness_def BOOT_CHECK_AND_INSTALL_def Let_def case_prod_beta w fit_def split: option.split)
qed

lemma reopen_run:
  assumes "cfg_lawful nv strs u8s" "cfg_reliable nv" "list_all cfg_op_ok as"
  shows "cs_cfg (cfg_open nv (cs_nvs (run (cfg_step nv) cs as)) d)
    = run cfg_spec (cs_cfg (cfg_open nv (cs_nvs cs) d)) as"
  using assms(3) by (induction as arbitrary: cs) (simp_all add: reopen_step [OF assms(1,2)])

section \<open>A map as flash\<close>

definition map_cfg :: "((string \<rightharpoonup> string) \<times> (string \<rightharpoonup> u8)) cfg_nvs" where
  "map_cfg = \<lparr>cfg_get_str = \<lambda>n k len. (case fst n k of None \<Rightarrow> Inr None
       | Some s \<Rightarrow> if length s < len then Inr (Some s) else Inl ()),
     cfg_get_u8 = \<lambda>n k. Inr (snd n k),
     cfg_set_str = \<lambda>n k s. (True, ((fst n)(k \<mapsto> s), snd n)),
     cfg_set_u8 = \<lambda>n k v. (True, (fst n, (snd n)(k \<mapsto> v))),
     cfg_remove = \<lambda>n k. (True, ((fst n)(k := None), snd n))\<rparr>"

lemma map_cfg_lawful: "cfg_lawful map_cfg fst snd"
  by (auto simp: cfg_lawful_def map_cfg_def)

lemma map_cfg_reliable: "cfg_reliable map_cfg"
  by (simp add: cfg_reliable_def map_cfg_def)

section \<open>Properties\<close>

text \<open>
  C30. Settings: after any operations the settings in use are those of the abstract record, with
  or without working flash; and when flash works and the texts fit the 256-byte read buffer,
  the next boot loads exactly the settings in use at the last one.
\<close>

theorem settings_survive_reboot:
  "cs_cfg (run (cfg_step nv) cs as) = run cfg_spec (cs_cfg cs) as
   \<and> (cfg_lawful nv strs u8s \<and> cfg_reliable nv \<and> list_all cfg_op_ok as \<longrightarrow>
       cs_cfg (cfg_open nv (cs_nvs (run (cfg_step nv) (cfg_open nv n d) as)) d)
         = cs_cfg (run (cfg_step nv) (cfg_open nv n d) as))"
proof -
  have "cs_nvs (cfg_open nv n d) = n" by (simp add: cfg_open_def cfg_load_def Let_def)
  then show ?thesis using reopen_run [of nv strs u8s as "cfg_open nv n d" d] by (auto simp: cfg_run_spec)
qed

theorem settings_survive_reboot_witness:
  "cs_cfg (cfg_open map_cfg (cs_nvs (run (cfg_step map_cfg) (cfg_open map_cfg (Map.empty, Map.empty) 1)
       [SetWifi ''garage'' ''secret12'', SetBoot 7, SetBright 2])) 1)
     = \<lparr>cfg_ssid = Some ''garage'', cfg_psk = ''secret12'', cfg_boot_policy = 2,
        cfg_manifest_url = None, cfg_brightness_idx = 2\<rparr>"
proof -
  let ?as = "[SetWifi ''garage'' ''secret12'', SetBoot 7, SetBright 2]"
  have "list_all cfg_op_ok ?as" by simp
  then have "cs_cfg (cfg_open map_cfg (cs_nvs (run (cfg_step map_cfg) (cfg_open map_cfg (Map.empty, Map.empty) 1) ?as)) 1)
      = cs_cfg (run (cfg_step map_cfg) (cfg_open map_cfg (Map.empty, Map.empty) 1) ?as)"
    using settings_survive_reboot [where nv = map_cfg and as = ?as and n = "(Map.empty, Map.empty)" and d = 1]
      map_cfg_lawful map_cfg_reliable by blast
  also have "\<dots> = run cfg_spec (cs_cfg (cfg_open map_cfg (Map.empty, Map.empty) 1)) ?as"
    by (rule cfg_run_spec)
  finally show ?thesis by (simp add: open_stored [OF map_cfg_lawful] fit_def min_def)
qed

end
