(* ===== verification/Ota_Worker.thy ===== *)
theory Ota_Worker
  imports Ota_Download Config_Store
begin

text \<open>
  The update worker, \<open>esp32/src/ota.rs\<close>: its radio, the manifest check, the install and the
  handling of a request, over the platform of \<open>Ota_Download\<close>. A handler here runs from its
  request to its end; \<open>Ota_Thread\<close> cuts it where the main loop can come in between. Times are
  milliseconds. The lemmas tell what each part of a handler leaves alone, who owns the radio, and
  what a check is told (\<open>verdict\<close>) and makes of it.
\<close>

section \<open>State\<close>

definition WIFI_IDLE_TIMEOUT :: nat where "WIFI_IDLE_TIMEOUT = 90000"

datatype ota_request = ReqCheck bool | ReqInstall | ReqTestWifi | ReqMarkValid

text \<open>\<open>wk_modem\<close> is the radio token, \<open>wk_wifi\<close> the driver that consumes it.\<close>

record 'e worker =
  wk_sv :: "'e services"
  wk_cfg :: config
  wk_default_url :: string
  wk_version :: string
  wk_project :: string
  wk_modem :: bool
  wk_wifi :: bool
  wk_wifi_up :: bool
  wk_last_use :: nat
  wk_manifest :: "manifest option"

definition default_ota :: ota_status where
  "default_ota = \<lparr>o_state = Idle, o_progress = 0, o_current = [], o_available = None, o_notes = None,
     o_size = None, o_error = None, o_last_check_uptime = None, o_last_check_ok = False\<rparr>"

definition default_wifi :: wifi_status where
  "default_wifi = \<lparr>ws_configured = False, ws_ssid = None, ws_state = WifiOff, ws_ip = None, ws_rssi = None,
     ws_error = None\<rparr>"

text \<open>What the running slot and the last invalid slot report at start-up.\<close>

definition spawn_shared ::
  "string \<Rightarrow> config \<Rightarrow> (string \<times> bool) option \<Rightarrow> string option \<Rightarrow> ota_shared" where
  "spawn_shared version cfg running invalid =
     \<lparr>sh_ota = default_ota\<lparr>o_current := version\<rparr>,
      sh_wifi = default_wifi\<lparr>ws_configured := cfg_ssid cfg \<noteq> None, ws_ssid := cfg_ssid cfg\<rparr>,
      sh_changed = True, sh_moving = False,
      sh_slot = (case running of Some (l, _) \<Rightarrow> l | None \<Rightarrow> []),
      sh_pending_verify = (case running of Some (_, unverified) \<Rightarrow> unverified | None \<Rightarrow> False),
      sh_rolled_back_from = invalid\<rparr>"

definition spawn ::
  "'e platform \<Rightarrow> 'e \<Rightarrow> string \<Rightarrow> string \<Rightarrow> string \<Rightarrow> config \<Rightarrow> (string \<times> bool) option \<Rightarrow> string option \<Rightarrow> 'e worker" where
  "spawn pf e url version project cfg running invalid =
     \<lparr>wk_sv = \<lparr>sv_env = e, sv_flash = [], sv_shared = spawn_shared version cfg running invalid\<rparr>,
      wk_cfg = cfg, wk_default_url = url, wk_version = version, wk_project = project, wk_modem = True,
      wk_wifi = False, wk_wifi_up = False, wk_last_use = pf_now pf e, wk_manifest = None\<rparr>"

section \<open>Helpers\<close>

text \<open>Rust's \<open>?\<close>: an error returns at once.\<close>

definition then_do :: "(string + 'a) \<times> 'w \<Rightarrow> ('a \<Rightarrow> 'w \<Rightarrow> (string + 'b) \<times> 'w) \<Rightarrow> (string + 'b) \<times> 'w" where
  "then_do p f = (case p of (Inl e, w) \<Rightarrow> (Inl e, w) | (Inr v, w) \<Rightarrow> f v w)"

definition wk_io :: "('e, 'a) io \<Rightarrow> 'e worker \<Rightarrow> (string + 'a) \<times> 'e worker" where
  "wk_io f w = (case with_env f (wk_sv w) of (r, s) \<Rightarrow> (r, w\<lparr>wk_sv := s\<rparr>))"

definition wk_env :: "('e \<Rightarrow> 'e) \<Rightarrow> 'e worker \<Rightarrow> 'e worker" where
  "wk_env f w = w\<lparr>wk_sv := (wk_sv w)\<lparr>sv_env := f (sv_env (wk_sv w))\<rparr>\<rparr>"

definition set_shared :: "(ota_shared \<Rightarrow> ota_shared) \<Rightarrow> 'e worker \<Rightarrow> 'e worker" where
  "set_shared f w = w\<lparr>wk_sv := (wk_sv w)\<lparr>sv_shared := f (sv_shared (wk_sv w))\<rparr>\<rparr>"

definition set_ota :: "(ota_status \<Rightarrow> ota_status) \<Rightarrow> 'e worker \<Rightarrow> 'e worker" where
  "set_ota f = set_shared (upd_ota f)"

definition set_wifi_status :: "(wifi_status \<Rightarrow> wifi_status) \<Rightarrow> 'e worker \<Rightarrow> 'e worker" where
  "set_wifi_status f = set_shared (upd_wifi f)"

definition fail :: "string \<Rightarrow> 'e worker \<Rightarrow> 'e worker" where
  "fail msg = set_ota (\<lambda>o'. o'\<lparr>o_state := OtaFailed, o_error := Some msg\<rparr>)"

definition wk_now :: "'e platform \<Rightarrow> 'e worker \<Rightarrow> nat" where
  "wk_now pf w = pf_now pf (sv_env (wk_sv w))"

definition manifest_url :: "'e worker \<Rightarrow> string" where
  "manifest_url w = (case cfg_manifest_url (wk_cfg w) of Some u \<Rightarrow> u | None \<Rightarrow> wk_default_url w)"

section \<open>The radio\<close>

definition wifi_driver :: "'e platform \<Rightarrow> 'e worker \<Rightarrow> (string + unit) \<times> 'e worker" where
  "wifi_driver pf w =
     (if wk_wifi w then (Inr (), w)
      else if \<not> wk_modem w then (Inl ''wifi modem unavailable'', w)
      else case wk_io (pf_wifi_new pf) (w\<lparr>wk_modem := False\<rparr>) of
        (Inl e, w1) \<Rightarrow> (Inl e, w1\<lparr>wk_modem := True\<rparr>)
      | (Inr _, w1) \<Rightarrow> then_do (wk_io (pf_wifi_wrap pf) w1) (\<lambda>_ w2. (Inr (), w2\<lparr>wk_wifi := True\<rparr>)))"

definition wifi_bring_up ::
  "'e platform \<Rightarrow> string \<Rightarrow> string \<Rightarrow> 'e worker \<Rightarrow> (string + string \<times> u32) \<times> 'e worker" where
  "wifi_bring_up pf ssid psk w =
     (if \<not> pf_ssid_fits pf ssid then (Inl ''ssid too long'', w)
      else if \<not> pf_psk_fits pf psk then (Inl ''password too long'', w)
      else
        then_do (wk_io (pf_wifi_configure pf ssid psk (psk = [])) w) (\<lambda>_ w1.
        then_do (if wk_wifi_up w1 then (Inr (), w1)
                 else then_do (wk_io (pf_wifi_start pf) w1) (\<lambda>_ w'. (Inr (), w'\<lparr>wk_wifi_up := True\<rparr>))) (\<lambda>_ w2.
        then_do (wk_io (pf_wifi_connect pf) w2) (\<lambda>_ w3.
        then_do (wk_io (pf_wifi_wait_up pf) w3) (\<lambda>_ w4.
        then_do (wk_io (pf_wifi_ip pf) w4) (\<lambda>ip w5.
        case wk_io (pf_wifi_rssi pf) w5 of
          (r, w6) \<Rightarrow> (Inr (ip, case r of Inr v \<Rightarrow> v | Inl _ \<Rightarrow> 0), w6)))))))"

definition already_connected :: "'e platform \<Rightarrow> 'e worker \<Rightarrow> bool \<times> 'e worker" where
  "already_connected pf w =
     (if wk_wifi_up w \<and> wk_wifi w
      then (case wk_io (pf_wifi_connected pf) w of (r, w1) \<Rightarrow> (r = Inr True, w1))
      else (False, w))"

text \<open>
  A connection begins with the check whether one is up and a look at the settings: there is an
  answer, or credentials to connect with. Then the driver is made and brought up.
\<close>

definition link_start :: "'e platform \<Rightarrow> 'e worker \<Rightarrow> (bool + string \<times> string) \<times> 'e worker" where
  "link_start pf w =
     (case already_connected pf (w\<lparr>wk_last_use := wk_now pf w\<rparr>) of
        (True, w1) \<Rightarrow> (Inl True, w1)
      | (False, w1) \<Rightarrow>
     case cfg_ssid (wk_cfg w1) of
        None \<Rightarrow> (Inl False, set_wifi_status (\<lambda>s. s\<lparr>ws_configured := False, ws_state := WifiFailed,
          ws_error := Some ''no WiFi credentials stored''\<rparr>) w1)
      | Some ssid \<Rightarrow> (Inr (ssid, cfg_psk (wk_cfg w1)), set_wifi_status (\<lambda>s. s\<lparr>ws_configured := True,
          ws_ssid := Some ssid, ws_state := WifiConnecting, ws_ip := None, ws_rssi := None,
          ws_error := None\<rparr>) w1))"

definition link_finish :: "'e platform \<Rightarrow> string \<Rightarrow> string \<Rightarrow> 'e worker \<Rightarrow> bool \<times> 'e worker" where
  "link_finish pf ssid psk w =
     (case then_do (wifi_driver pf w) (\<lambda>_. wifi_bring_up pf ssid psk) of
        (Inr (ip, rssi), w1) \<Rightarrow> (True, set_wifi_status (\<lambda>s. s\<lparr>ws_state := WifiConnected,
           ws_ip := Some ip, ws_rssi := Some rssi\<rparr>) w1)
      | (Inl e, w1) \<Rightarrow>
          let w2 = set_wifi_status (\<lambda>s. s\<lparr>ws_state := WifiFailed, ws_error := Some e\<rparr>) w1
          in (False, if wk_wifi w2 then wk_env (pf_wifi_disconnect pf) w2 else w2))"

definition wifi_connect :: "'e platform \<Rightarrow> 'e worker \<Rightarrow> bool \<times> 'e worker" where
  "wifi_connect pf w =
     (case link_start pf w of
        (Inl b, w1) \<Rightarrow> (b, w1)
      | (Inr (ssid, psk), w1) \<Rightarrow> link_finish pf ssid psk w1)"

definition wifi_disconnect :: "'e platform \<Rightarrow> 'e worker \<Rightarrow> 'e worker" where
  "wifi_disconnect pf w =
     (let w1 = (if wk_wifi w
                then (let w' = (if wk_wifi_up w
                        then wk_env (pf_wifi_stop pf) (wk_env (pf_wifi_disconnect pf) w) else w)
                      in (wk_env (pf_wifi_drop pf) w')\<lparr>wk_wifi := False, wk_modem := True\<rparr>)
                else w)
      in set_wifi_status (\<lambda>s. s\<lparr>ws_state := WifiOff, ws_ip := None, ws_rssi := None\<rparr>)
           (w1\<lparr>wk_wifi_up := False\<rparr>))"

section \<open>The manifest check\<close>

text \<open>The text of \<open>String::from_utf8\<close>'s error: where the bad sequence begins, and its length.\<close>

definition utf8_error :: "string \<Rightarrow> string" where
  "utf8_error s =
     (let n = last (filter (\<lambda>k. utf8_valid (take k s)) [0..<Suc (length s)])
      in case bad_sequence (drop n s) of
           Some l \<Rightarrow> ''invalid utf-8 sequence of '' @ show_nat l @ '' bytes from index '' @ show_nat n
         | None \<Rightarrow> ''incomplete utf-8 byte sequence from index '' @ show_nat n)"

text \<open>The body of a small response: at most 8 KiB, so the loop ends.\<close>

function small_loop :: "'e platform \<Rightarrow> u8 list \<Rightarrow> 'e worker \<Rightarrow> (string + u8 list) \<times> 'e worker" where
  "small_loop pf body w =
     (case wk_io (pf_http_read pf 1024) w of
        (Inl e, w1) \<Rightarrow> (Inl e, w1)
      | (Inr [], w1) \<Rightarrow> (Inr body, w1)
      | (Inr (b # bs), w1) \<Rightarrow>
          let body' = body @ b # bs in
          if 8192 < length body' then (Inl ''manifest larger than 8 KiB'', w1)
          else small_loop pf body' w1)"
  by pat_completeness auto
termination by (relation "measure (\<lambda>(pf, body, w). 8192 - length body)") auto

declare small_loop.simps [simp del]

definition get_small :: "'e platform \<Rightarrow> string \<Rightarrow> 'e worker \<Rightarrow> (string + string) \<times> 'e worker" where
  "get_small pf url w =
     then_do (wk_io (pf_http_new pf) w) (\<lambda>_ w1.
     then_do (wk_io (pf_http_get pf url ''application/json'') w1) (\<lambda>h w2.
       if h_status h \<noteq> 200 then (Inl (''HTTP '' @ show_word (h_status h)), w2)
       else then_do (small_loop pf [] w2) (\<lambda>body w3.
         case from_utf8 body of Some t \<Rightarrow> (Inr t, w3) | None \<Rightarrow> (Inl (utf8_error (str_of body)), w3))))"

definition note_failed_check :: "u32 \<Rightarrow> string \<Rightarrow> 'e worker \<Rightarrow> 'e worker" where
  "note_failed_check uptime msg w =
     set_ota (\<lambda>o'. o'\<lparr>o_last_check_uptime := Some uptime, o_last_check_ok := False\<rparr>) (fail msg w)"

definition note_decision :: "update_decision \<Rightarrow> manifest \<Rightarrow> ota_status \<Rightarrow> ota_status" where
  "note_decision d m o' =
     (case d of
        Install \<Rightarrow> o'\<lparr>o_state := Available, o_available := Some (m_version m)\<rparr>
      | UpToDate \<Rightarrow> o'\<lparr>o_state := StateUpToDate, o_available := None\<rparr>
      | TooOld mv \<Rightarrow> o'\<lparr>o_state := OtaFailed, o_available := Some (m_version m),
          o_error := Some (''firmware '' @ o_current o' @ '' is below the update'' @ CHR 0x27 # ''s minimum ''
            @ mv @ '': flash over USB'')\<rparr>)"

definition apply_manifest :: "u32 \<Rightarrow> manifest \<Rightarrow> 'e worker \<Rightarrow> bool \<times> 'e worker" where
  "apply_manifest uptime m w =
     (let d = decide (wk_version w) m;
          w1 = set_ota (\<lambda>o'. note_decision d m (o'\<lparr>o_last_check_uptime := Some uptime,
            o_last_check_ok := True, o_notes := m_notes m, o_size := Some (m_size m)\<rparr>)) w
      in (d = Install, w1\<lparr>wk_manifest := if d = Install then Some m else None\<rparr>))"

definition check :: "'e platform \<Rightarrow> 'e worker \<Rightarrow> bool \<times> 'e worker" where
  "check pf w =
     (let uptime = pf_uptime pf (sv_env (wk_sv w));
          w1 = set_ota (\<lambda>o'. o'\<lparr>o_state := Connecting, o_progress := 0, o_error := None\<rparr>) w
      in case wifi_connect pf w1 of
           (False, w2) \<Rightarrow> (False, fail ''WiFi connection failed'' w2)
         | (True, w2) \<Rightarrow>
             let w3 = set_ota (\<lambda>o'. o'\<lparr>o_state := Checking\<rparr>) w2
             in case get_small pf (manifest_url w3) w3 of
                  (Inl e, w4) \<Rightarrow> (False, note_failed_check uptime (''manifest fetch failed: '' @ e) w4)
                | (Inr body, w4) \<Rightarrow>
                    (case manifest_parse (pf_from_str pf) body of
                       Inl e \<Rightarrow> (False, note_failed_check uptime (show_manifest_error e) w4)
                     | Inr m \<Rightarrow> apply_manifest uptime m w4))"

section \<open>The install\<close>

definition wk_download :: "'e platform \<Rightarrow> manifest \<Rightarrow> 'e worker \<Rightarrow> (string + unit) \<times> 'e worker" where
  "wk_download pf m w =
     (case download_and_write pf m (wk_project w) (wk_sv w) of
        (Inl e, s) \<Rightarrow> (Inl e, w\<lparr>wk_sv := s\<rparr>)
      | (Inr _, s) \<Rightarrow> (Inr (), w\<lparr>wk_sv := s, wk_last_use := pf_now pf (sv_env s)\<rparr>))"

text \<open>The result tells whether the chip restarts, which is the end of the worker.\<close>

definition install_image :: "'e platform \<Rightarrow> manifest \<Rightarrow> 'e worker \<Rightarrow> bool \<times> 'e worker" where
  "install_image pf m w =
     (case wifi_connect pf w of
        (False, w1) \<Rightarrow> (False, fail ''WiFi connection failed'' w1)
      | (True, w1) \<Rightarrow>
          let w2 = set_ota (\<lambda>o'. o'\<lparr>o_state := Downloading, o_progress := 0, o_error := None\<rparr>) w1
          in case wk_download pf m w2 of
               (Inr _, w3) \<Rightarrow> (True, wk_env (pf_sleep pf 2500)
                 (set_ota (\<lambda>o'. o'\<lparr>o_state := Rebooting, o_progress := 100\<rparr>) w3))
             | (Inl e, w3) \<Rightarrow> (False, (fail e w3)\<lparr>wk_manifest := None\<rparr>))"

definition install :: "'e platform \<Rightarrow> 'e worker \<Rightarrow> bool \<times> 'e worker" where
  "install pf w =
     (case wk_manifest w of
        None \<Rightarrow> (False, fail ''no update available to install'' w)
      | Some m \<Rightarrow>
          if sh_moving (sv_shared (wk_sv w))
          then (False, fail (''bike is moving '' @ [CHR 0xE2, CHR 0x80, CHR 0x94] @ '' stop before updating'') w)
          else install_image pf m w)"

definition mark_valid :: "'e platform \<Rightarrow> 'e worker \<Rightarrow> 'e worker" where
  "mark_valid pf w =
     (if sh_pending_verify (sv_shared (wk_sv w))
      then (case wk_io (pf_mark_valid pf) w of
              (Inr _, w1) \<Rightarrow> set_shared (\<lambda>sh. sh\<lparr>sh_pending_verify := False, sh_changed := True\<rparr>) w1
            | (Inl _, w1) \<Rightarrow> w1)
      else w)"

section \<open>The request loop\<close>

datatype flow = Continue | Restart | Exit

definition on_request :: "'e platform \<Rightarrow> ota_request \<Rightarrow> 'e worker \<Rightarrow> flow \<times> 'e worker" where
  "on_request pf q w =
     (case q of
        ReqCheck inst \<Rightarrow>
          (case check pf w of
             (ok, w1) \<Rightarrow> if ok \<and> inst
               then (case install pf w1 of (r, w2) \<Rightarrow> (if r then Restart else Continue, w2))
               else (Continue, w1))
      | ReqInstall \<Rightarrow>
          (case (if wk_manifest w = None then check pf w else (True, w)) of
             (ok, w1) \<Rightarrow> if ok
               then (case install pf w1 of (r, w2) \<Rightarrow> (if r then Restart else Continue, w2))
               else (Continue, w1))
      | ReqTestWifi \<Rightarrow> (Continue, snd (wifi_connect pf w))
      | ReqMarkValid \<Rightarrow> (Continue, mark_valid pf w))"

definition on_idle :: "'e platform \<Rightarrow> 'e worker \<Rightarrow> 'e worker" where
  "on_idle pf w =
     (if wk_wifi w \<and> WIFI_IDLE_TIMEOUT < wk_now pf w - wk_last_use w then wifi_disconnect pf w else w)"

lemmas worker_defs [model_defs] = WIFI_IDLE_TIMEOUT_def default_ota_def default_wifi_def
  spawn_shared_def spawn_def then_do_def wk_io_def wk_env_def set_shared_def set_ota_def
  set_wifi_status_def fail_def wk_now_def manifest_url_def wifi_driver_def wifi_bring_up_def
  already_connected_def link_start_def link_finish_def wifi_connect_def wifi_disconnect_def utf8_error_def get_small_def
  note_failed_check_def note_decision_def apply_manifest_def check_def wk_download_def install_image_def install_def
  mark_valid_def on_request_def on_idle_def

section \<open>What the radio and the fetch leave alone\<close>

text \<open>The part of the worker only the check, the install and the main loop change.\<close>

definition core :: "'e worker \<Rightarrow> flash_op list \<times> ota_status \<times> bool \<times> manifest option \<times> string \<times> string" where
  "core w = (sv_flash (wk_sv w), sh_ota (sv_shared (wk_sv w)), sh_moving (sv_shared (wk_sv w)),
     wk_manifest w, wk_version w, wk_project w)"

text \<open>The radio's own part, and its invariant: one owner of the token, up only with a driver.\<close>

definition radio :: "'e worker \<Rightarrow> bool \<times> bool \<times> bool" where
  "radio w = (wk_modem w, wk_wifi w, wk_wifi_up w)"

definition one_owner :: "'e worker \<Rightarrow> bool" where
  "one_owner w \<longleftrightarrow> \<not> (wk_modem w \<and> wk_wifi w) \<and> (wk_wifi_up w \<longrightarrow> wk_wifi w)"

lemma io_core [simp]: "core (snd (wk_io f w)) = core w" "radio (snd (wk_io f w)) = radio w"
  using with_env_calls [of f "wk_sv w"]
  by (auto simp: wk_io_def with_env_def core_def radio_def split: prod.split)

lemma env_core [simp]: "core (wk_env f w) = core w" "radio (wk_env f w) = radio w"
  by (simp_all add: wk_env_def core_def radio_def)

lemma wifi_status_core [simp]: "core (set_wifi_status f w) = core w" "radio (set_wifi_status f w) = radio w"
  by (simp_all add: set_wifi_status_def set_shared_def upd_wifi_def core_def radio_def)

lemma ota_radio [simp]: "radio (set_ota f w) = radio w" "radio (fail t w) = radio w"
  by (simp_all add: fail_def set_ota_def set_shared_def radio_def)

lemma radio_fields_core [simp]:
  "core (w\<lparr>wk_modem := a\<rparr>) = core w" "core (w\<lparr>wk_wifi := a\<rparr>) = core w"
  "core (w\<lparr>wk_wifi_up := a\<rparr>) = core w" "core (w\<lparr>wk_last_use := n\<rparr>) = core w"
  "radio (w\<lparr>wk_last_use := n\<rparr>) = radio w" "radio (w\<lparr>wk_manifest := mo\<rparr>) = radio w"
  by (simp_all add: core_def radio_def)

lemma then_do_keeps:
  assumes "g (snd p) = g w" "\<And>v w1. g w1 = g w \<Longrightarrow> g (snd (f v w1)) = g w"
  shows "g (snd (then_do p f)) = g w"
  using assms by (cases p; cases "fst p") (auto simp: then_do_def)

text \<open>
  A view of the worker that the platform's calls do not change; one that the WiFi driver does not change
  either; one that no connection changes; and one that no check and no install changes.
\<close>

locale env_blind =
  fixes g :: "'e worker \<Rightarrow> 'v"
  assumes env: "g (wk_env f w) = g w"
begin

lemma io: "g (snd (wk_io f w)) = g w"
proof -
  have "snd (wk_io f w) = wk_env (\<lambda>_. snd (f (sv_env (wk_sv w)))) w"
    by (simp add: wk_io_def with_env_def wk_env_def case_prod_beta)
  then show ?thesis by (simp add: env)
qed

lemma small: "g (snd (small_loop pf body w)) = g w"
proof (induction pf body w rule: small_loop.induct)
  case (1 pf body w)
  obtain r w1 where r: "wk_io (pf_http_read pf 1024) w = (r, w1)" by fastforce
  then have w1: "g w1 = g w" using io [of "pf_http_read pf 1024" w] by simp
  show ?case using "1.IH" r w1 by (auto simp: small_loop.simps [of pf body w] Let_def split: sum.splits list.splits)
qed

lemma fetch: "g (snd (get_small pf url w)) = g w"
  unfolding get_small_def by (auto intro!: then_do_keeps simp: small io split: option.split)

end

locale driver_blind = env_blind g for g :: "'e worker \<Rightarrow> 'v" +
  assumes fields: "g (w\<lparr>wk_modem := a\<rparr>) = g w" "g (w\<lparr>wk_wifi := a\<rparr>) = g w" "g (w\<lparr>wk_wifi_up := a\<rparr>) = g w"
      "g (w\<lparr>wk_last_use := n\<rparr>) = g w"
begin

lemma driver: "g (snd (wifi_driver pf w)) = g w"
proof -
  have "g (snd (then_do (wk_io (pf_wifi_wrap pf) w1) (\<lambda>_ w2. (Inr (), w2\<lparr>wk_wifi := True\<rparr>)))) = g w"
    if "g w1 = g w" for w1
    by (rule then_do_keeps) (simp_all add: that io fields)
  moreover have "g (snd (wk_io (pf_wifi_new pf) (w\<lparr>wk_modem := False\<rparr>))) = g w" by (simp add: io fields)
  ultimately show ?thesis
    unfolding wifi_driver_def by (cases "wk_io (pf_wifi_new pf) (w\<lparr>wk_modem := False\<rparr>)") (auto simp: fields split: sum.split)
qed

lemma bring_up: "g (snd (wifi_bring_up pf ssid psk w)) = g w"
  unfolding wifi_bring_up_def by (auto intro!: then_do_keeps simp: io fields case_prod_beta)

lemma already: "g (snd (already_connected pf w)) = g w"
  by (auto simp: already_connected_def io case_prod_beta)

end

locale radio_blind = driver_blind g for g :: "'e worker \<Rightarrow> 'v" +
  assumes wifi_status: "g (set_wifi_status h w) = g w"
begin

lemma link_start: "g (snd (link_start pf w)) = g w"
  using already [of pf "w\<lparr>wk_last_use := wk_now pf w\<rparr>"]
  by (simp add: link_start_def fields wifi_status case_prod_beta split: bool.split option.split)

lemma link_finish: "g (snd (link_finish pf ssid psk w)) = g w"
proof -
  obtain r w1 where 1: "then_do (wifi_driver pf w) (\<lambda>_. wifi_bring_up pf ssid psk) = (r, w1)" by fastforce
  have "g (snd (then_do (wifi_driver pf w) (\<lambda>_. wifi_bring_up pf ssid psk))) = g w"
    by (rule then_do_keeps) (simp_all add: driver bring_up)
  then show ?thesis by (auto simp: link_finish_def 1 Let_def env wifi_status split: sum.split)
qed

lemma connect: "g (snd (wifi_connect pf w)) = g w"
  using link_start [of pf w] link_finish
  by (auto simp: wifi_connect_def split: prod.split sum.split)

lemma disconnect: "g (wifi_disconnect pf w) = g w"
  by (simp add: wifi_disconnect_def Let_def fields wifi_status env)

end

locale update_blind = radio_blind g for g :: "'e worker \<Rightarrow> 'v" +
  assumes ota: "g (set_ota h w) = g w"
    and manifest: "g (w\<lparr>wk_manifest := mo\<rparr>) = g w"
    and services: "others s = others (wk_sv w) \<Longrightarrow> g (w\<lparr>wk_sv := s\<rparr>) = g w"
begin

lemma failing: "g (fail t w) = g w"
  by (simp add: fail_def ota)

lemma applied: "g (snd (apply_manifest uptime m w)) = g w"
  by (simp add: apply_manifest_def Let_def manifest ota)

end

interpretation radio_kept: env_blind radio
  by unfold_locales (rule env_core(2))

interpretation shared_kept: driver_blind "\<lambda>w. sv_shared (wk_sv w)"
  by unfold_locales (simp_all add: wk_env_def)

interpretation core_kept: radio_blind core
  by unfold_locales simp_all

lemmas wifi_connect_core [simp] = core_kept.connect
lemmas wifi_disconnect_core [simp] = core_kept.disconnect
lemmas get_small_core [simp] = core_kept.fetch radio_kept.fetch

lemma already_connected_radio [simp]: "radio (snd (already_connected pf w)) = radio w"
  by (auto simp: already_connected_def case_prod_beta)

text \<open>Which slot runs, and whether it is still on probation, is not for a check or an install to change.\<close>

definition boot_state :: "'e worker \<Rightarrow> string \<times> bool \<times> string option" where
  "boot_state w = (sh_slot (sv_shared (wk_sv w)), sh_pending_verify (sv_shared (wk_sv w)),
     sh_rolled_back_from (sv_shared (wk_sv w)))"

interpretation boot_kept: update_blind boot_state
  by unfold_locales
    (simp_all add: boot_state_def wk_env_def set_wifi_status_def set_ota_def set_shared_def upd_wifi_def upd_ota_def
      others_def)

interpretation settings_kept: update_blind wk_cfg
  by unfold_locales (simp_all add: wk_env_def set_wifi_status_def set_ota_def set_shared_def)

interpretation url_kept: radio_blind manifest_url
  by unfold_locales (simp_all add: manifest_url_def wk_env_def set_wifi_status_def set_shared_def split: option.split)

section \<open>The radio's owner\<close>

definition owner :: "'e worker \<Rightarrow> bool \<times> bool" where
  "owner w = (wk_modem w, wk_wifi w)"

lemma io_owner [simp]: "owner (snd (wk_io f w)) = owner w" "owner (w\<lparr>wk_wifi_up := a\<rparr>) = owner w"
  using io_core(2) [of f w] by (simp_all add: radio_def owner_def)

lemma bring_up_owner: "owner (snd (wifi_bring_up pf ssid psk w)) = owner w"
  unfolding wifi_bring_up_def
  by (auto intro!: then_do_keeps simp: case_prod_beta)

text \<open>
  Neither the token nor a driver is left; and a worker that loses them when it makes its driver now: the
  token is there and consumed, and wrapping what came of it fails.
\<close>

definition lost :: "'e worker \<Rightarrow> bool" where
  "lost w \<longleftrightarrow> \<not> wk_modem w \<and> \<not> wk_wifi w"

definition loses :: "'e platform \<Rightarrow> 'e worker \<Rightarrow> bool" where
  "loses pf w \<longleftrightarrow> wk_modem w \<and> \<not> wk_wifi w \<and>
     (\<exists>e t e'. pf_wifi_new pf (sv_env (wk_sv w)) = (Inr (), e) \<and> pf_wifi_wrap pf e = (Inl t, e'))"

lemma wifi_driver_owner:
  assumes "one_owner w" "wifi_driver pf w = (r, w')"
  shows "one_owner w' \<and> (r = Inr () \<longrightarrow> wk_wifi w') \<and> (lost w' \<longleftrightarrow> lost w \<or> loses pf w)
    \<and> (lost w \<longrightarrow> r \<noteq> Inr () \<and> w' = w)"
proof (cases "wk_wifi w \<or> \<not> wk_modem w")
  case True
  then show ?thesis using assms by (auto simp: wifi_driver_def loses_def lost_def split: if_splits)
next
  case False
  obtain q e where q: "pf_wifi_new pf (sv_env (wk_sv w)) = (q, e)" by fastforce
  obtain q2 e2 where q2: "pf_wifi_wrap pf e = (q2, e2)" by fastforce
  show ?thesis
    using assms False
    by (cases q; cases q2)
      (auto simp: wifi_driver_def wk_io_def with_env_def then_do_def q q2 one_owner_def lost_def loses_def)
qed

lemma link_start_radio: "radio (snd (link_start pf w)) = radio w"
  using already_connected_radio [of pf "w\<lparr>wk_last_use := wk_now pf w\<rparr>"]
  by (simp add: link_start_def case_prod_beta split: bool.split option.split)

lemma link_start_up: "link_start pf w = (Inl True, w1) \<Longrightarrow> wk_wifi w"
  by (auto simp: link_start_def already_connected_def split: if_splits option.splits prod.splits bool.splits)

text \<open>A connection loses token and driver exactly so; with neither, nothing connects.\<close>

lemma link_finish_owner:
  assumes "one_owner w" "link_finish pf ssid psk w = (b, w')"
  shows "one_owner w' \<and> (lost w' \<longleftrightarrow> lost w \<or> loses pf w) \<and> (lost w \<longrightarrow> \<not> b)"
proof -
  obtain d w3 where d: "wifi_driver pf w = (d, w3)" by fastforce
  note dr = wifi_driver_owner [OF assms(1) d]
  obtain q w4 where q: "then_do (wifi_driver pf w) (\<lambda>_. wifi_bring_up pf ssid psk) = (q, w4)" by fastforce
  have m: "wk_modem w4 = wk_modem w3 \<and> wk_wifi w4 = wk_wifi w3
      \<and> (d \<noteq> Inr () \<longrightarrow> q \<noteq> Inr v \<and> w4 = w3)" for v
    using q bring_up_owner [of pf ssid psk w3] by (cases d) (auto simp: then_do_def d owner_def)
  then have o4: "one_owner w4" using dr by (cases "d = Inr ()") (auto simp: one_owner_def)
  have w': "radio w' = radio w4 \<and> (b \<longrightarrow> (\<exists>v. q = Inr v))"
    using assms(2) q by (auto simp: link_finish_def Let_def split: sum.splits prod.splits)
  then have "one_owner w'" using o4 by (simp add: radio_def one_owner_def)
  moreover have "lost w' = lost w3" using w' m by (simp add: lost_def radio_def)
  moreover have "\<not> b" if "lost w" using that dr m w' by auto
  ultimately show ?thesis using dr by blast
qed

lemma radio_owner: "radio w' = radio w \<Longrightarrow> one_owner w' = one_owner w"
  by (simp add: radio_def one_owner_def)

lemma disconnect_owner: "one_owner w \<Longrightarrow> one_owner (wifi_disconnect pf w)"
  "\<not> wk_wifi (wifi_disconnect pf w)"
  "wk_modem (wifi_disconnect pf w) \<longleftrightarrow> wk_modem w \<or> wk_wifi w"
  by (auto simp: wifi_disconnect_def set_wifi_status_def set_shared_def wk_env_def one_owner_def Let_def)

section \<open>What check and install do\<close>

lemma core_fields:
  "core w' = core w \<Longrightarrow> sv_flash (wk_sv w') = sv_flash (wk_sv w)"
  "core w' = core w \<Longrightarrow> sh_ota (sv_shared (wk_sv w')) = sh_ota (sv_shared (wk_sv w))"
  "core w' = core w \<Longrightarrow> sh_moving (sv_shared (wk_sv w')) = sh_moving (sv_shared (wk_sv w))"
  "core w' = core w \<Longrightarrow> wk_manifest w' = wk_manifest w"
  "core w' = core w \<Longrightarrow> wk_version w' = wk_version w"
  "core w' = core w \<Longrightarrow> wk_project w' = wk_project w"
  by (simp_all add: core_def)

lemma core_set_ota:
  "core (set_ota f w) = (case core w of (fl, o', r) \<Rightarrow> (fl, f o', r))"
  by (simp add: core_def set_ota_def set_shared_def upd_ota_def)

abbreviation status :: "'e worker \<Rightarrow> ota_status" where
  "status w \<equiv> sh_ota (sv_shared (wk_sv w))"

abbreviation calls :: "'e worker \<Rightarrow> flash_op list" where
  "calls w \<equiv> sv_flash (wk_sv w)"

abbreviation moving :: "'e worker \<Rightarrow> bool" where
  "moving w \<equiv> sh_moving (sv_shared (wk_sv w))"

lemma set_ota_fields [simp]:
  "calls (set_ota f w) = calls w" "status (set_ota f w) = f (status w)" "moving (set_ota f w) = moving w"
  "wk_manifest (set_ota f w) = wk_manifest w" "wk_version (set_ota f w) = wk_version w"
  "wk_project (set_ota f w) = wk_project w"
  by (simp_all add: set_ota_def set_shared_def upd_ota_def)

lemma fail_fields [simp]:
  "calls (fail t w) = calls w" "status (fail t w) = (status w)\<lparr>o_state := OtaFailed, o_error := Some t\<rparr>"
  "moving (fail t w) = moving w" "wk_manifest (fail t w) = wk_manifest w"
  "wk_version (fail t w) = wk_version w" "wk_project (fail t w) = wk_project w"
  by (simp_all add: fail_def)

text \<open>The manifest the worker keeps was accepted and is worth installing.\<close>

definition vetted :: "'e platform \<Rightarrow> string \<Rightarrow> manifest \<Rightarrow> bool" where
  "vetted pf version m \<longleftrightarrow> (\<exists>json. manifest_parse (pf_from_str pf) json = Inr m) \<and> decide version m = Install"

text \<open>The outcome of a check, as the app sees it.\<close>

definition check_reported :: "bool \<Rightarrow> manifest option \<Rightarrow> ota_status \<Rightarrow> bool" where
  "check_reported ok mo o' \<longleftrightarrow>
     (if ok then \<exists>m. mo = Some m \<and> o_state o' = Available \<and> o_available o' = Some (m_version m)
        \<and> o_size o' = Some (m_size m) \<and> o_error o' = None \<and> o_last_check_ok o'
      else (o_state o' = OtaFailed \<and> o_error o' \<noteq> None) \<or> (o_state o' = StateUpToDate \<and> o_error o' = None \<and> mo = None))"

lemma check_spec:
  assumes "check pf w = (ok, w')"
  shows "calls w' = calls w \<and> moving w' = moving w \<and> wk_version w' = wk_version w
    \<and> wk_project w' = wk_project w \<and> check_reported ok (wk_manifest w') (status w')
    \<and> (\<forall>m. wk_manifest w' = Some m \<longrightarrow> vetted pf (wk_version w) m \<or> wk_manifest w = Some m)
    \<and> (ok \<longrightarrow> (\<exists>m. wk_manifest w' = Some m \<and> vetted pf (wk_version w) m))"
proof -
  let ?w1 = "set_ota (\<lambda>o'. o'\<lparr>o_state := Connecting, o_progress := 0, o_error := None\<rparr>) w"
  obtain b w2 where 2: "wifi_connect pf ?w1 = (b, w2)" by fastforce
  then have c2: "core w2 = core ?w1" using wifi_connect_core [of pf ?w1] by simp
  note f2 = core_fields [OF c2]
  show ?thesis
  proof (cases b)
    case False
    then show ?thesis using assms 2 f2 by (auto simp: check_def check_reported_def Let_def)
  next
    case True
    let ?w3 = "set_ota (\<lambda>o'. o'\<lparr>o_state := Checking\<rparr>) w2"
    obtain r w4 where 4: "get_small pf (manifest_url ?w3) ?w3 = (r, w4)" by fastforce
    then have c4: "core w4 = core ?w3" using get_small_core(1) [of pf "manifest_url ?w3" ?w3] by simp
    note f4 = core_fields [OF c4]
    show ?thesis
    proof (cases "\<exists>body m. r = Inr body \<and> manifest_parse (pf_from_str pf) body = Inr m")
      case False
      then show ?thesis
        using assms 2 4 f2 f4 True
        by (auto simp: check_def check_reported_def note_failed_check_def Let_def split: sum.splits)
    next
      case ok: True
      then obtain body m where m: "r = Inr body" "manifest_parse (pf_from_str pf) body = Inr m" by blast
      have "(ok, w') = apply_manifest (pf_uptime pf (sv_env (wk_sv w))) m w4"
        using assms 2 4 True m by (simp add: check_def Let_def)
      then show ?thesis
        using m f2 f4
        by (cases "decide (wk_version w4) m")
          (auto simp: apply_manifest_def Let_def check_reported_def note_decision_def vetted_def)
    qed
  qed
qed

section \<open>What a check is told\<close>

text \<open>What the status shows has no influence on the radio and the server.\<close>

lemma then_ota:
  "(\<And>v w. k v (set_ota f w) = apsnd (set_ota f) (k v w)) \<Longrightarrow>
    then_do (apsnd (set_ota f) p) k = apsnd (set_ota f) (then_do p k)"
  by (cases p; cases "fst p") (auto simp: then_do_def)

lemma io_ota: "wk_io g (set_ota f w) = apsnd (set_ota f) (wk_io g w)"
  by (simp add: wk_io_def with_env_def set_ota_def set_shared_def split: prod.split)

lemma ota_fields:
  "(set_ota f w)\<lparr>wk_modem := a\<rparr> = set_ota f (w\<lparr>wk_modem := a\<rparr>)" "(set_ota f w)\<lparr>wk_wifi := a\<rparr> = set_ota f (w\<lparr>wk_wifi := a\<rparr>)"
  "(set_ota f w)\<lparr>wk_wifi_up := a\<rparr> = set_ota f (w\<lparr>wk_wifi_up := a\<rparr>)"
  "(set_ota f w)\<lparr>wk_last_use := n\<rparr> = set_ota f (w\<lparr>wk_last_use := n\<rparr>)"
  "wk_env e (set_ota f w) = set_ota f (wk_env e w)" "set_wifi_status h (set_ota f w) = set_ota f (set_wifi_status h w)"
  "wk_modem (set_ota f w) = wk_modem w" "wk_wifi (set_ota f w) = wk_wifi w" "wk_wifi_up (set_ota f w) = wk_wifi_up w"
  "wk_cfg (set_ota f w) = wk_cfg w" "wk_now pf (set_ota f w) = wk_now pf w" "manifest_url (set_ota f w) = manifest_url w"
  by (simp_all add: set_ota_def set_shared_def upd_ota_def wk_env_def set_wifi_status_def upd_wifi_def wk_now_def
      manifest_url_def split: option.split)

lemma then_io:
  "(\<And>v w. k v (set_ota f w) = apsnd (set_ota f) (k v w)) \<Longrightarrow>
    then_do (wk_io g (set_ota f w)) k = apsnd (set_ota f) (then_do (wk_io g w) k)"
  unfolding io_ota by (rule then_ota)

lemma driver_ota: "wifi_driver pf (set_ota f w) = apsnd (set_ota f) (wifi_driver pf w)"
proof -
  let ?io = "wk_io (pf_wifi_new pf) (w\<lparr>wk_modem := False\<rparr>)"
  obtain r w1 where io: "?io = (r, w1)" by fastforce
  have "then_do (wk_io (pf_wifi_wrap pf) (set_ota f w1)) (\<lambda>_ w2. (Inr (), w2\<lparr>wk_wifi := True\<rparr>))
      = apsnd (set_ota f) (then_do (wk_io (pf_wifi_wrap pf) w1) (\<lambda>_ w2. (Inr (), w2\<lparr>wk_wifi := True\<rparr>)))"
    unfolding io_ota by (rule then_ota) (simp add: ota_fields)
  then show ?thesis by (simp add: wifi_driver_def ota_fields io_ota io split: sum.split)
qed

lemma bring_up_ota: "wifi_bring_up pf ssid psk (set_ota f w) = apsnd (set_ota f) (wifi_bring_up pf ssid psk w)"
proof -
  let ?start = "\<lambda>w. if wk_wifi_up w then (Inr (), w)
    else then_do (wk_io (pf_wifi_start pf) w) (\<lambda>_ w'. (Inr (), w'\<lparr>wk_wifi_up := True\<rparr>))"
  have "?start (set_ota f v) = apsnd (set_ota f) (?start v)" for v
    by (simp add: ota_fields) (intro impI then_io, simp add: ota_fields)
  then have start: "then_do (?start (set_ota f v)) k = apsnd (set_ota f) (then_do (?start v) k)"
    if "\<And>x v. k x (set_ota f v) = apsnd (set_ota f) (k x v)" for v and k :: "unit \<Rightarrow> 'a worker \<Rightarrow> (string + string \<times> u32) \<times> 'a worker"
    using that by (simp only: then_ota)
  let ?last = "\<lambda>ip w. case wk_io (pf_wifi_rssi pf) w of (r, w6) \<Rightarrow> (Inr (ip, case r of Inr v \<Rightarrow> v | Inl _ \<Rightarrow> 0), w6)"
  have last: "?last ip (set_ota f v) = apsnd (set_ota f) (?last ip v)" for ip v
    by (simp add: io_ota split: prod.split)
  let ?body = "\<lambda>w. then_do (wk_io (pf_wifi_configure pf ssid psk (psk = [])) w) (\<lambda>_ w1. then_do (?start w1) (\<lambda>_ w2.
    then_do (wk_io (pf_wifi_connect pf) w2) (\<lambda>_ w3. then_do (wk_io (pf_wifi_wait_up pf) w3) (\<lambda>_ w4.
    then_do (wk_io (pf_wifi_ip pf) w4) ?last))))"
  have "?body (set_ota f w) = apsnd (set_ota f) (?body w)" by (intro then_io start last)
  then show ?thesis by (simp add: wifi_bring_up_def)
qed

lemma link_ota:
  "link_start pf (set_ota f w) = apsnd (set_ota f) (link_start pf w)"
  "link_finish pf ssid psk (set_ota f w) = apsnd (set_ota f) (link_finish pf ssid psk w)"
proof -
  have "already_connected pf (set_ota f v) = apsnd (set_ota f) (already_connected pf v)" for v
    by (simp add: already_connected_def ota_fields io_ota split: prod.split)
  then show "link_start pf (set_ota f w) = apsnd (set_ota f) (link_start pf w)"
    by (simp add: link_start_def ota_fields split: prod.split bool.split option.split)
  obtain r w1 where d: "then_do (wifi_driver pf w) (\<lambda>_. wifi_bring_up pf ssid psk) = (r, w1)" by fastforce
  then have "then_do (wifi_driver pf (set_ota f w)) (\<lambda>_. wifi_bring_up pf ssid psk) = (r, set_ota f w1)"
    using then_ota [of "\<lambda>_. wifi_bring_up pf ssid psk" f "wifi_driver pf w"] by (simp add: driver_ota bring_up_ota)
  then show "link_finish pf ssid psk (set_ota f w) = apsnd (set_ota f) (link_finish pf ssid psk w)"
    by (simp add: link_finish_def d ota_fields Let_def split: sum.split prod.split)
qed

lemma connect_ota: "wifi_connect pf (set_ota f w) = apsnd (set_ota f) (wifi_connect pf w)"
  by (simp add: wifi_connect_def link_ota split: prod.split sum.split)

lemma small_ota: "small_loop pf body (set_ota f w) = apsnd (set_ota f) (small_loop pf body w)"
proof (induction pf body w rule: small_loop.induct)
  case (1 pf body w)
  obtain r w1 where io: "wk_io (pf_http_read pf 1024) w = (r, w1)" by fastforce
  show ?case using "1.IH" io
    by (auto simp: small_loop.simps [of pf body] io_ota Let_def split: sum.split list.split)
qed

lemma fetch_ota: "get_small pf url (set_ota f w) = apsnd (set_ota f) (get_small pf url w)"
proof -
  have 3: "then_do (small_loop pf [] (set_ota f v)) k = apsnd (set_ota f) (then_do (small_loop pf [] v) k)"
    if "\<And>b v. k b (set_ota f v) = apsnd (set_ota f) (k b v)" for v and k :: "u8 list \<Rightarrow> 'a worker \<Rightarrow> (string + string) \<times> 'a worker"
    unfolding small_ota using that by (rule then_ota)
  show ?thesis unfolding get_small_def io_ota
    by (intro then_ota) (auto simp: io_ota intro!: then_ota 3 split: option.split)
qed

text \<open>
  What the world answers a check: no link, no manifest, a bad one, or one to judge. The worker's status
  plays no part in it.
\<close>

datatype verdict = NoLink | NoBody string | BadBody manifest_error | Judged manifest

definition verdict :: "'e platform \<Rightarrow> 'e worker \<Rightarrow> verdict" where
  "verdict pf w =
     (case wifi_connect pf w of
        (False, _) \<Rightarrow> NoLink
      | (True, w1) \<Rightarrow>
          (case fst (get_small pf (manifest_url w) w1) of
             Inl e \<Rightarrow> NoBody e
           | Inr body \<Rightarrow> (case manifest_parse (pf_from_str pf) body of Inl e \<Rightarrow> BadBody e | Inr m \<Rightarrow> Judged m)))"

text \<open>A check in terms of that answer: only the status and the kept manifest are told apart.\<close>

lemma check_verdict:
  assumes "check pf w = (ok, w')"
  shows "case verdict pf w of
      NoLink \<Rightarrow> \<not> ok \<and> wk_manifest w' = wk_manifest w \<and> status w' = (status w)
        \<lparr>o_state := OtaFailed, o_progress := 0, o_error := Some ''WiFi connection failed''\<rparr>
    | NoBody e \<Rightarrow> \<not> ok \<and> wk_manifest w' = wk_manifest w \<and> status w' = (status w)
        \<lparr>o_state := OtaFailed, o_progress := 0, o_error := Some (''manifest fetch failed: '' @ e),
         o_last_check_uptime := Some (pf_uptime pf (sv_env (wk_sv w))), o_last_check_ok := False\<rparr>
    | BadBody e \<Rightarrow> \<not> ok \<and> wk_manifest w' = wk_manifest w \<and> status w' = (status w)
        \<lparr>o_state := OtaFailed, o_progress := 0, o_error := Some (show_manifest_error e),
         o_last_check_uptime := Some (pf_uptime pf (sv_env (wk_sv w))), o_last_check_ok := False\<rparr>
    | Judged m \<Rightarrow> (ok \<longleftrightarrow> decide (wk_version w) m = Install) \<and> wk_manifest w' = (if ok then Some m else None)
        \<and> status w' = note_decision (decide (wk_version w) m) m ((status w)
            \<lparr>o_state := Checking, o_progress := 0, o_error := None, o_last_check_ok := True, o_notes := m_notes m,
             o_last_check_uptime := Some (pf_uptime pf (sv_env (wk_sv w))), o_size := Some (m_size m)\<rparr>)"
proof -
  let ?f = "\<lambda>o'. o'\<lparr>o_state := Connecting, o_progress := 0, o_error := None\<rparr>" and ?g = "\<lambda>o'. o'\<lparr>o_state := Checking\<rparr>"
  obtain b w1 where 1: "wifi_connect pf w = (b, w1)" by fastforce
  then have c1: "core w1 = core w" using wifi_connect_core [of pf w] by simp
  have u: "manifest_url w1 = manifest_url w"
    using url_kept.connect [of pf w] 1 by simp
  obtain r w2 where 2: "get_small pf (manifest_url w) w1 = (r, w2)" by fastforce
  then have "core w2 = core w1" using get_small_core(1) [of pf "manifest_url w" w1] by simp
  note f = core_fields [OF c1] core_fields [OF this]
  note eqs = check_def verdict_def Let_def connect_ota 1 fetch_ota ota_fields u 2 note_failed_check_def apply_manifest_def
  show ?thesis
  proof (cases b)
    case False
    then show ?thesis using assms f by (auto simp: eqs)
  next
    case True
    show ?thesis
    proof (cases r)
      case (Inl e)
      then show ?thesis using assms f True by (auto simp: eqs)
    next
      case (Inr body)
      then show ?thesis using assms f True
        by (cases "manifest_parse (pf_from_str pf) body"; cases "status w") (auto simp: eqs)
    qed
  qed
qed


section \<open>A worker with a server\<close>

definition sim_server :: "u8 list platform" where
  "sim_server = sim_platform\<lparr>pf_http_get := \<lambda>url accept e. (Inr \<lparr>h_status = 200, h_content_length = None\<rparr>,
       if accept = ''application/json'' then [0x7B] else replicate 300 7),
     pf_from_str := \<lambda>t. Inr sim_manifest\<rparr>"

definition sim_config :: config where
  "sim_config = \<lparr>cfg_ssid = Some ''garage'', cfg_psk = ''secret12'', cfg_boot_policy = 1,
     cfg_manifest_url = None, cfg_brightness_idx = 1\<rparr>"

definition sim_worker :: "u8 list worker" where
  "sim_worker = spawn sim_server [] ''https://x/m.json'' ''1.0.0'' ''libespidf'' sim_config (Some (''ota_0'', False)) None"

lemmas sim_defs = sim_server_def sim_platform_def sim_config_def sim_worker_def

lemma sim_server_serves: "serves sim_server (\<lambda>e. e)"
  using sim_serves by (simp add: serves_def sim_server_def)

lemma sim_server_good: "good_image sim_server sim_manifest ''libespidf'' (replicate 300 7)"
proof -
  have "good_image sim_server = good_image sim_platform"
    by (intro ext) (simp add: good_image_def verify_app_descriptor_def sim_server_def)
  then show ?thesis using sim_good by simp
qed

lemma sim_connects: "\<exists>w1. wifi_connect sim_server w = (True, w1) \<and> sv_env (wk_sv w1) = sv_env (wk_sv w)"
  if "wk_modem w \<or> wk_wifi w" "cfg_ssid (wk_cfg w) = Some ''garage''" "cfg_psk (wk_cfg w) = ''secret12''"
  using that
  by (auto simp: wifi_connect_def link_start_def link_finish_def already_connected_def wk_io_def with_env_def sim_defs Let_def then_do_def
      wifi_driver_def wifi_bring_up_def set_wifi_status_def set_shared_def wk_now_def)

lemma sim_vetted: "manifest_parse (pf_from_str sim_server) t = Inr sim_manifest" "decide ''1.0.0'' sim_manifest = Install"
proof -
  have "manifest_parse (\<lambda>_. Inr sim_manifest) [] = Inr sim_manifest" by code_simp
  then show "manifest_parse (pf_from_str sim_server) t = Inr sim_manifest"
    by (simp add: sim_server_def manifest_parse_def)
  show "decide ''1.0.0'' sim_manifest = Install" by code_simp
qed

lemma sim_fetch: "\<exists>w1. get_small sim_server u w = (Inr [CHR 0x7B], w1)"
proof -
  have "from_utf8 [0x7B] = Some [CHR 0x7B]" by code_simp
  then show ?thesis
    by (simp add: get_small_def then_do_def wk_io_def with_env_def sim_defs small_loop.simps)
qed

lemma sim_check: "\<exists>w1. check sim_server sim_worker = (True, w1) \<and> wk_manifest w1 = Some sim_manifest"
proof -
  let ?w = "set_ota (\<lambda>o'. o'\<lparr>o_state := Connecting, o_progress := 0, o_error := None\<rparr>) sim_worker"
  have "wk_modem ?w \<or> wk_wifi ?w" "cfg_ssid (wk_cfg ?w) = Some ''garage''" "cfg_psk (wk_cfg ?w) = ''secret12''"
    by (simp_all add: sim_worker_def spawn_def sim_config_def set_ota_def set_shared_def)
  from sim_connects [OF this] obtain w2 where 2: "wifi_connect sim_server ?w = (True, w2)" by blast
  then have "core w2 = core ?w" using wifi_connect_core [of sim_server ?w] by simp
  then have v2: "wk_version w2 = ''1.0.0''" using core_fields(5) [of w2 ?w] by (simp add: sim_worker_def spawn_def)
  let ?w3 = "set_ota (\<lambda>o'. o'\<lparr>o_state := Checking\<rparr>) w2"
  obtain w4 where 4: "get_small sim_server (manifest_url ?w3) ?w3 = (Inr [CHR 0x7B], w4)" using sim_fetch by blast
  then have "core w4 = core ?w3" using get_small_core(1) [of sim_server "manifest_url ?w3" ?w3] by simp
  then have v4: "wk_version w4 = ''1.0.0''" using core_fields(5) [of w4 ?w3] v2 by simp
  show ?thesis
    by (simp add: check_def 2 4 Let_def sim_vetted v4 apply_manifest_def)
qed

lemma sim_install:
  assumes "\<not> lost w" "wk_cfg w = sim_config" "wk_project w = ''libespidf''"
  shows "fst (install_image sim_server sim_manifest w)"
proof -
  have "wk_modem w \<or> wk_wifi w" "cfg_ssid (wk_cfg w) = Some ''garage''" "cfg_psk (wk_cfg w) = ''secret12''"
    using assms(1,2) by (auto simp: lost_def sim_config_def)
  from sim_connects [OF this] obtain w1 where 1: "wifi_connect sim_server w = (True, w1)" by blast
  then have "core w1 = core w" using wifi_connect_core [of sim_server w] by simp
  then have p: "wk_project w1 = ''libespidf''" using core_fields(6) [of w1 w] assms(3) by simp
  let ?w2 = "set_ota (\<lambda>o'. o'\<lparr>o_state := Downloading, o_progress := 0, o_error := None\<rparr>) w1"
  have "pf_http_new sim_server (sv_env (wk_sv ?w2)) = (Inr (), sv_env (wk_sv ?w2))"
    "pf_http_get sim_server (m_url sim_manifest) ''application/octet-stream'' (sv_env (wk_sv ?w2))
      = (Inr \<lparr>h_status = 200, h_content_length = None\<rparr>, replicate 300 7)"
    "\<not> pf_free_heap sim_server (replicate 300 7) < MIN_FREE_HEAP_FOR_DOWNLOAD"
    by (simp_all add: sim_defs MIN_FREE_HEAP_FOR_DOWNLOAD_def)
  from download_ok [where pending = "\<lambda>e. e" and s = "wk_sv ?w2", OF sim_server_serves this(1,2) _ _ this(3) sim_server_good]
  obtain s' where "download_and_write sim_server sim_manifest ''libespidf'' (wk_sv ?w2) = (Inr (), s')" by auto
  then show ?thesis
    using 1 p by (simp add: install_image_def wk_download_def Let_def)
qed

section \<open>Properties\<close>

text \<open>
  C26. Every check is reported, with exactly its outcome and nothing else of the status changed, whatever
  the status showed before. Without a link it fails with "WiFi connection failed", and counts as no
  check; a fetch that failed and a manifest that was rejected fail with their own reason, the
  time of the check and the mark that it did not succeed, and the kept manifest stays. An accepted
  manifest is noted with its notes and size, the time and the mark of success: it is offered,
  and kept for the install, exactly when it is newer than what runs and its minimum is met; below the
  minimum the check fails and tells to flash over USB; else the firmware is up to date. True is
  returned exactly for an offer. No check writes to the flash.
\<close>

theorem check_outcome_reported:
  assumes "check pf w = (ok, w')" and "at = pf_uptime pf (sv_env (wk_sv w))"
    and "cur = version_or_zero (wk_version w)"
  shows "calls w' = calls w \<and> (case verdict pf w of
      NoLink \<Rightarrow> \<not> ok \<and> wk_manifest w' = wk_manifest w
        \<and> status w' = (status w)\<lparr>o_state := OtaFailed, o_progress := 0, o_error := Some ''WiFi connection failed''\<rparr>
    | NoBody e \<Rightarrow> \<not> ok \<and> wk_manifest w' = wk_manifest w
        \<and> status w' = (status w)\<lparr>o_state := OtaFailed, o_progress := 0, o_error := Some (''manifest fetch failed: '' @ e),
            o_last_check_uptime := Some at, o_last_check_ok := False\<rparr>
    | BadBody e \<Rightarrow> \<not> ok \<and> wk_manifest w' = wk_manifest w
        \<and> status w' = (status w)\<lparr>o_state := OtaFailed, o_progress := 0, o_error := Some (show_manifest_error e),
            o_last_check_uptime := Some at, o_last_check_ok := False\<rparr>
    | Judged m \<Rightarrow> wk_manifest w' = (if ok then Some m else None)
        \<and> (ok \<longleftrightarrow> cur < version_or_zero (m_version m)
            \<and> (\<forall>mv. m_min_version m = Some mv \<longrightarrow> version_or_zero mv \<le> cur))
        \<and> (let noted = (status w)\<lparr>o_progress := 0, o_error := None, o_notes := m_notes m, o_size := Some (m_size m),
              o_last_check_uptime := Some at, o_last_check_ok := True\<rparr>;
            current = noted\<lparr>o_state := StateUpToDate, o_available := None\<rparr> in
          status w' = (if ok then noted\<lparr>o_state := Available, o_available := Some (m_version m)\<rparr>
            else case m_min_version m of None \<Rightarrow> current
              | Some mv \<Rightarrow> if cur < version_or_zero mv
                  then noted\<lparr>o_state := OtaFailed, o_available := Some (m_version m),
                    o_error := Some (''firmware '' @ o_current (status w) @ '' is below the update'' @ CHR 0x27 # ''s minimum ''
                      @ mv @ '': flash over USB'')\<rparr>
                  else current)))"
proof -
  have c: "calls w' = calls w" using check_spec [OF assms(1)] by blast
  note v = check_verdict [OF assms(1), folded assms(2)]
  show ?thesis
  proof (cases "verdict pf w")
    case (Judged m)
    then obtain json where "manifest_parse (pf_from_str pf) json = Inr m"
      by (auto simp: verdict_def split: prod.splits bool.splits sum.splits)
    note d = decide_sound_facts [OF this, of "wk_version w", folded assms(3)]
    obtain os pr cu av no si er up ck where
      s: "status w = \<lparr>o_state = os, o_progress = pr, o_current = cu, o_available = av, o_notes = no, o_size = si,
        o_error = er, o_last_check_uptime = up, o_last_check_ok = ck\<rparr>" by (cases "status w")
    show ?thesis
    proof (cases "decide (wk_version w) m")
      case Install
      then show ?thesis using v c d(1) by (simp add: Judged note_decision_def s)
    next
      case UpToDate
      then have "\<not> cur < version_or_zero t" if "m_min_version m = Some t" for t using d(2) [of t] that by simp
      then show ?thesis using v c d(1) UpToDate by (auto simp: Judged note_decision_def s split: option.split)
    next
      case (TooOld mv)
      then have "m_min_version m = Some mv" "cur < version_or_zero mv" using d(2) [of mv] by simp_all
      then show ?thesis using v c d(1) TooOld by (simp add: Judged note_decision_def s)
    qed
  qed (use v c in simp_all)
qed

theorem check_outcome_reported_witness:
  "\<exists>w. check sim_server sim_worker = (True, w) \<and> verdict sim_server sim_worker = Judged sim_manifest
    \<and> o_state (status w) = Available \<and> o_available (status w) = Some ''1.2.3'' \<and> o_last_check_ok (status w)"
proof -
  obtain w where w: "check sim_server sim_worker = (True, w)" "wk_manifest w = Some sim_manifest"
    using sim_check by blast
  have "wk_modem sim_worker \<or> wk_wifi sim_worker" "cfg_ssid (wk_cfg sim_worker) = Some ''garage''"
    "cfg_psk (wk_cfg sim_worker) = ''secret12''"
    by (simp_all add: sim_worker_def spawn_def sim_config_def)
  from sim_connects [OF this] obtain w1 where "wifi_connect sim_server sim_worker = (True, w1)" by blast
  moreover obtain w2 where "get_small sim_server (manifest_url sim_worker) w1 = (Inr [CHR 0x7B], w2)"
    using sim_fetch by blast
  ultimately have v: "verdict sim_server sim_worker = Judged sim_manifest" by (simp add: verdict_def sim_vetted)
  show ?thesis using check_outcome_reported [OF w(1) refl refl] w v
    by (intro exI [of _ w]) (simp add: Let_def, simp add: sim_manifest_def)
qed


end
