(* ===== verification/Diag.thy ===== *)
theory Diag
  imports Ble_Json
begin

text \<open>The dashboard snapshot and its wire formats, \<open>core/src/diag.rs\<close>.\<close>

record snapshot =
  s_link_up :: bool
  s_gear :: "gear option"
  s_rpm :: "f32 option"
  s_speed :: "f32 option"
  s_ecu_neutral :: "bool option"
  s_samples :: u32
  s_bands :: "f32 list"
  s_hist :: "u16 list"

definition opt_f :: "f32 option \<Rightarrow> string" where
  "opt_f v = (case v of None \<Rightarrow> ''null'' | Some x \<Rightarrow> fmt_f32 1 x)"

definition opt_b :: "bool option \<Rightarrow> string" where
  "opt_b v = (case v of None \<Rightarrow> ''null'' | Some x \<Rightarrow> show_bool x)"

definition gear_text :: "gear option \<Rightarrow> string" where
  "gear_text g = (case g of Some Neutral \<Rightarrow> ''\"N\"'' | Some (G n) \<Rightarrow> CHR 0x22 # show_word n @ [CHR 0x22]
     | _ \<Rightarrow> ''\"-\"'')"

definition status_json :: "snapshot \<Rightarrow> string" where
  "status_json s =
     ''{\"link\":'' @ show_bool (s_link_up s)
     @ '',\"gear\":'' @ gear_text (s_gear s)
     @ '',\"rpm\":'' @ opt_f (s_rpm s)
     @ '',\"speed\":'' @ opt_f (s_speed s)
     @ '',\"ecuNeutral\":'' @ opt_b (s_ecu_neutral s)
     @ '',\"samples\":'' @ show_word (s_samples s)
     @ '',\"bands\":'' @ (if s_bands s = [] then ''null''
          else ''['' @ join '','' (map (fmt_f32 1) (s_bands s)) @ '']'') @ ''}''"

definition csv_row :: "nat \<times> u16 \<Rightarrow> string" where
  "csv_row = (\<lambda>(i, c). fmt_f32 1 (RATIO_MIN + f32_of_int (int i) + dec 5 1) @ '','' @ show_word c @ [CHR 0x0A])"

definition hist_csv :: "u16 list \<Rightarrow> string" where
  "hist_csv hist = ''ratio,count'' @ [CHR 0x0A]
     @ concat (map (\<lambda>(i, c). if 0 < c then csv_row (i, c) else []) (enumerate 0 hist))"

lemmas diag_defs [model_defs] = opt_f_def opt_b_def gear_text_def status_json_def csv_row_def hist_csv_def

text \<open>The rows are the non-empty bins the histogram itself lists, in order.\<close>

lemma hist_csv_rows:
  "hist_csv (h_counts h) = ''ratio,count'' @ [CHR 0x0A]
     @ concat (map (\<lambda>(r, c). fmt_f32 1 r @ '','' @ show_word c @ [CHR 0x0A]) (nonempty h))"
proof -
  have "concat (map (\<lambda>(i, c). if 0 < c then csv_row (i, c) else []) ps)
      = concat (map (\<lambda>(r, c). fmt_f32 1 r @ '','' @ show_word c @ [CHR 0x0A])
          (map (\<lambda>(i, c). (RATIO_MIN + f32_of_int (int i) + dec 5 1, c)) (filter (\<lambda>(_, c). 0 < c) ps)))"
    for ps :: "(nat \<times> u16) list"
    by (induction ps) (auto simp: csv_row_def)
  then show ?thesis by (simp add: hist_csv_def nonempty_def)
qed

end
