(* ===== verification/Web.thy ===== *)
theory Web
  imports Diag
begin

text \<open>
  The WiFi dashboard, \<open>esp32/src/web.rs\<close>: bringing up the access point and the server, the routes, the
  shared snapshot and the wipe request. WiFi and the HTTP server are parameters; the page at \<open>/\<close> is
  a constant text, an argument here. The main loop's part of it is in \<open>Main_Loop\<close>.
\<close>

section \<open>The server\<close>

datatype http_method = Get | Post

record response =
  rs_status :: nat
  rs_type :: string
  rs_body :: string

record web_diag =
  wb_shared :: snapshot
  wb_clear :: bool

definition default_snapshot :: snapshot where
  "default_snapshot = \<lparr>s_link_up = False, s_gear = None, s_rpm = None, s_speed = None,
     s_ecu_neutral = None, s_samples = 0, s_bands = [], s_hist = []\<rparr>"

definition web_new :: web_diag where
  "web_new = \<lparr>wb_shared = default_snapshot, wb_clear = False\<rparr>"

definition ok_response :: "string \<Rightarrow> string \<Rightarrow> response" where
  "ok_response t b = \<lparr>rs_status = 200, rs_type = t, rs_body = b\<rparr>"

definition get_index :: "string \<Rightarrow> web_diag \<Rightarrow> response \<times> web_diag" where
  "get_index html w = (ok_response ''text/html'' html, w)"

definition get_status :: "web_diag \<Rightarrow> response \<times> web_diag" where
  "get_status w = (ok_response ''application/json'' (status_json (wb_shared w)), w)"

definition get_hist :: "web_diag \<Rightarrow> response \<times> web_diag" where
  "get_hist w = (ok_response ''text/csv'' (hist_csv (s_hist (wb_shared w))), w)"

definition post_clear :: "web_diag \<Rightarrow> response \<times> web_diag" where
  "post_clear w = (ok_response ''text/plain'' (''calibration wipe requested'' @ [CHR 0x0A]), w\<lparr>wb_clear := True\<rparr>)"

text \<open>The registered handlers; \<open>None\<close> is answered by the server itself.\<close>

definition route :: "string \<Rightarrow> http_method \<Rightarrow> string \<Rightarrow> web_diag \<Rightarrow> (response \<times> web_diag) option" where
  "route html m path w =
     (if m = Get \<and> path = ''/'' then Some (get_index html w)
      else if m = Get \<and> path = ''/status'' then Some (get_status w)
      else if m = Get \<and> path = ''/hist.csv'' then Some (get_hist w)
      else if m = Post \<and> path = ''/clear'' then Some (post_clear w)
      else None)"

section \<open>Start-up\<close>

datatype auth_method = WPA2Personal

record ap_configuration =
  apc_ssid :: string
  apc_password :: string
  apc_auth :: auth_method
  apc_channel :: u8

datatype web_call = WifiNew | SetConfiguration ap_configuration | WifiStart | ServerNew
  | Handler string http_method

definition SSID :: string where "SSID = ''W230-GEAR''"
definition PASSWORD :: string where "PASSWORD = ''w230diag''"

definition web_calls :: "web_call list" where
  "web_calls =
     [SetConfiguration \<lparr>apc_ssid = SSID, apc_password = PASSWORD, apc_auth = WPA2Personal, apc_channel = 1\<rparr>,
      WifiStart, ServerNew, Handler ''/'' Get, Handler ''/status'' Get, Handler ''/hist.csv'' Get,
      Handler ''/clear'' Post]"

text \<open>
  The capacities of the configuration's texts are those of the driver crate; a text that does
  not fit is a panic, \<open>None\<close>. Otherwise the calls made come back with the result.
\<close>

definition web_start ::
  "(string \<Rightarrow> bool) \<Rightarrow> (string \<Rightarrow> bool) \<Rightarrow> (web_call \<Rightarrow> 'e \<Rightarrow> (string + unit) \<times> 'e) \<Rightarrow> 'e
    \<Rightarrow> ((string + web_diag) \<times> web_call list) option" where
  "web_start ssid_fits psk_fits f e =
     (case f WifiNew e of
        (Inl t, e1) \<Rightarrow> Some (Inl t, [WifiNew])
      | (Inr _, e1) \<Rightarrow>
          if \<not> (ssid_fits SSID \<and> psk_fits PASSWORD) then None
          else (case try_calls f web_calls e1 of
                  (Inl t, made, _) \<Rightarrow> Some (Inl t, WifiNew # made)
                | (Inr _, made, _) \<Rightarrow> Some (Inr web_new, WifiNew # made)))"

lemmas web_defs [model_defs] = default_snapshot_def web_new_def ok_response_def get_index_def get_status_def
  get_hist_def post_clear_def route_def SSID_def PASSWORD_def web_calls_def web_start_def

section \<open>What is served\<close>

text \<open>What the pages serve is the last snapshot; only \<open>POST /clear\<close> changes anything.\<close>

lemma route_cases:
  "route html m p w = Some (r, w') \<Longrightarrow> w' = (if m = Post \<and> p = ''/clear'' then w\<lparr>wb_clear := True\<rparr> else w)"
  by (auto simp: web_defs split: if_splits)

lemma route_registered: "route html m p w \<noteq> None \<longleftrightarrow> Handler p m \<in> set web_calls"
  by (auto simp: web_defs)

text \<open>
  A page is served only from a protected network: whatever the drivers answer, the calls are made
  in order, a handler is registered only after the network was configured with WPA2 and its
  password and started, and a start that returns a dashboard has registered every route.
\<close>

lemma protected_before_served:
  assumes "web_start ssid_fits psk_fits f e = Some (r, made)"
  shows "prefix made (WifiNew # web_calls)
    \<and> (Handler p m \<in> set made \<longrightarrow> prefix (WifiNew # take 3 web_calls) made)
    \<and> (\<forall>w. r = Inr w \<longrightarrow> made = WifiNew # web_calls \<and> w = web_new)"
proof -
  obtain x e1 where n: "f WifiNew e = (x, e1)" by fastforce
  obtain y made' e2 where t: "try_calls f web_calls e1 = (y, made', e2)" by (metis prod_cases3)
  have made: "made = [WifiNew] \<and> r \<in> range Inl \<or> made = WifiNew # made' \<and> (\<forall>w. r = Inr w \<longrightarrow> y = Inr () \<and> w = web_new)"
    using assms n t by (auto simp: web_start_def split: sum.splits if_splits)
  have pre: "prefix made' web_calls" and full: "y = Inr () \<Longrightarrow> made' = web_calls"
    using try_calls_spec [OF t] by (auto simp: prefix_def)
  have h: "Handler p m \<in> set made' \<longrightarrow> prefix (take 3 web_calls) made'"
  proof
    assume mem: "Handler p m \<in> set made'"
    show "prefix (take 3 web_calls) made'"
    proof (cases "prefix made' (take 3 web_calls)")
      case True
      then have "Handler p m \<in> set (take 3 web_calls)" using mem set_mono_prefix by blast
      then show ?thesis by (simp add: web_calls_def)
    next
      case False
      then show ?thesis using pre prefix_same_cases [of made' web_calls "take 3 web_calls"] by (auto simp: take_is_prefix)
    qed
  qed
  show ?thesis using made pre full h by auto
qed

end
