(* ===== verification/Main_Loop.thy ===== *)
theory Main_Loop
  imports Gear Kds_Driver Learn_Store Display Ble_Server Ota_Worker Web
begin

text \<open>
  The main loop, \<open>esp32/src/main.rs\<close>: one iteration as the composition of its steps over the
  state of every component. The build switches for demo mode, register scan and deep scan are a
  record \<open>build\<close>, so that every build is covered; the source ships \<open>shipped_build\<close>, with all of them
  off. The dashboard is present when \<open>ap_web\<close> is. The board (pins, LED channel, heap reading, clock
  and UART) is a record \<open>hw\<close> of operations; times are microseconds. Log lines are left out.
\<close>

section \<open>Constants and state\<close>

definition DIAG_SCAN :: bool where "DIAG_SCAN = False"
definition DEMO_MODE :: bool where "DEMO_MODE = False"
definition DEMO_STEP :: int where "DEMO_STEP = 15"
definition WIFI_DIAG :: bool where "WIFI_DIAG = False"
definition DEEP_SCAN :: bool where "DEEP_SCAN = False"
definition HARDWARE :: string where "HARDWARE = ''atom-matrix''"
definition DEFAULT_BOOT_POLICY :: u8 where "DEFAULT_BOOT_POLICY = BOOT_CHECK"
definition BOOT_CHECK_DELAY :: int where "BOOT_CHECK_DELAY = 8000000"
definition SELF_TEST_UPTIME :: int where "SELF_TEST_UPTIME = 20000000"
definition BLE_SLOW_PUBLISH :: int where "BLE_SLOW_PUBLISH = 1000000"
definition OTA_FAIL_SHOW :: int where "OTA_FAIL_SHOW = 4000000"
definition POLL_INTERVAL :: nat where "POLL_INTERVAL = 25000"
definition RECONNECT_INTERVAL :: int where "RECONNECT_INTERVAL = 1000000"
definition BRIGHTNESS_STEPS :: "u8 list" where "BRIGHTNESS_STEPS = [40, 120, 255]"
definition LEARN_SAVE_INTERVAL :: int where "LEARN_SAVE_INTERVAL = 3000000"
definition LEARN_RESET_HOLD :: int where "LEARN_RESET_HOLD = 3000000"
definition INTERLOCK_EVERY_N_CYCLES :: u32 where "INTERLOCK_EVERY_N_CYCLES = 8"

record build =
  bd_demo :: bool
  bd_scan :: bool
  bd_deep :: bool

definition shipped_build :: build where
  "shipped_build = \<lparr>bd_demo = DEMO_MODE, bd_scan = DIAG_SCAN, bd_deep = DEEP_SCAN\<rparr>"

record ('s, 'n, 'c, 'b) hardware =
  hw_build :: build
  hw_uart :: "'s uart"
  hw_neutral_low :: "'s \<Rightarrow> bool"
  hw_button_low :: "'s \<Rightarrow> bool"
  hw_led :: "rgb list \<Rightarrow> 's \<Rightarrow> bool \<times> 's"
  hw_free_heap :: "'s \<Rightarrow> u32"
  hw_nvs :: "'n nvs_ops"
  hw_cfg :: "'c cfg_nvs"
  hw_bt :: "'b bt_stack"
  hw_fw_version :: string
  hw_manifest_url :: string
  hw_build_stamp :: string
  hw_idf_version :: string
  hw_mac :: "u8 list"

text \<open>The main loop's end of the update worker: the request channel and the shared status.\<close>

record ota_link =
  lk_queue :: "ota_request list"
  lk_shared :: ota_shared

type_synonym published = "(attr \<rightharpoonup> string) \<times> (attr \<rightharpoonup> u8 list)"

record ('s, 'n, 'c, 'b) app =
  ap_kds :: "'s kds"
  ap_learner :: "'n learner"
  ap_config :: "'c config_store"
  ap_ble :: "'b server option"
  ap_ota :: "ota_link option"
  ap_slot :: "(string \<times> bool \<times> string option) option"
  ap_est :: estimator
  ap_learned :: nat
  ap_boot :: int
  ap_last_reconnect :: int
  ap_last_save :: int
  ap_brightness :: nat
  ap_button_down :: bool
  ap_button_at :: int
  ap_neutral_was :: bool
  ap_cycle :: u32
  ap_interlock :: "bool option"
  ap_prev_rpm :: "(f32 \<times> int) option"
  ap_flash_until :: int
  ap_last_frame :: "rgb list option"
  ap_events :: event_ring
  ap_last_publish :: int
  ap_published :: published
  ap_boot_check_done :: bool
  ap_self_test_done :: bool
  ap_ota_status :: ota_status
  ap_wifi_status :: wifi_status
  ap_fail_until :: "int option"
  ap_ota_was_busy :: bool
  ap_link_was_up :: bool
  ap_web :: "web_diag option"
  ap_regs :: "(u8 \<times> u8 list) list option"
  ap_deep :: "(u16 \<times> u8 list) list option"
  ap_demo_start :: int

text \<open>
  How a step ends: a panic or a call that never returns, a restart of the chip, \<open>continue\<close>
  (the next iteration begins), or the next step.
\<close>

datatype 'x ctl = Stuck | Rebooted 'x | Again 'x | Go 'x

definition seq :: "'x ctl \<Rightarrow> ('x \<Rightarrow> 'x ctl) \<Rightarrow> 'x ctl" where
  "seq p f = (case p of Go x \<Rightarrow> f x | q \<Rightarrow> q)"

definition clock :: "('s, 'n, 'c, 'b) hardware \<Rightarrow> ('s, 'n, 'c, 'b) app \<Rightarrow> int" where
  "clock hw a = int (now (hw_uart hw) (k_io (ap_kds a)))"

text \<open>\<open>Instant::elapsed\<close>, which does not go below zero.\<close>

definition elapsed :: "('s, 'n, 'c, 'b) hardware \<Rightarrow> int \<Rightarrow> ('s, 'n, 'c, 'b) app \<Rightarrow> int" where
  "elapsed hw t a = max 0 (clock hw a - t)"

definition set_io :: "'s \<Rightarrow> ('s, 'n, 'c, 'b) app \<Rightarrow> ('s, 'n, 'c, 'b) app" where
  "set_io s a = a\<lparr>ap_kds := (ap_kds a)\<lparr>k_io := s\<rparr>\<rparr>"

definition delay :: "('s, 'n, 'c, 'b) hardware \<Rightarrow> nat \<Rightarrow> ('s, 'n, 'c, 'b) app \<Rightarrow> ('s, 'n, 'c, 'b) app" where
  "delay hw us a = set_io (sleep (hw_uart hw) us (k_io (ap_kds a))) a"

definition led_send :: "('s, 'n, 'c, 'b) hardware \<Rightarrow> rgb list \<Rightarrow> ('s, 'n, 'c, 'b) app \<Rightarrow> bool \<times> ('s, 'n, 'c, 'b) app" where
  "led_send hw fr a = (case hw_led hw fr (k_io (ap_kds a)) of (ok, s) \<Rightarrow> (ok, set_io s a))"

definition push_event :: "u32 \<Rightarrow> string \<Rightarrow> ('s, 'n, 'c, 'b) app \<Rightarrow> ('s, 'n, 'c, 'b) app" where
  "push_event t e a = a\<lparr>ap_events := ring_push (ap_events a) t e\<rparr>"

definition neutral_low :: "('s, 'n, 'c, 'b) hardware \<Rightarrow> ('s, 'n, 'c, 'b) app \<Rightarrow> bool" where
  "neutral_low hw a = hw_neutral_low hw (k_io (ap_kds a))"

text \<open>\<open>BRIGHTNESS_STEPS[brightness_idx]\<close>, a panic out of range.\<close>

definition brightness :: "('s, 'n, 'c, 'b) app \<Rightarrow> u8 option" where
  "brightness a = (if ap_brightness a < length BRIGHTNESS_STEPS
     then Some (BRIGHTNESS_STEPS ! ap_brightness a) else None)"

definition save_learner :: "('s, 'n, 'c, 'b) hardware \<Rightarrow> ('s, 'n, 'c, 'b) app \<Rightarrow> bool \<times> ('s, 'n, 'c, 'b) app" where
  "save_learner hw a =
     (case learner_save (hw_nvs hw) (hw_free_heap hw (k_io (ap_kds a))) (ap_learner a) of
        (ok, l) \<Rightarrow> (ok, a\<lparr>ap_learner := l\<rparr>))"

definition wipe_calibration :: "('s, 'n, 'c, 'b) hardware \<Rightarrow> ('s, 'n, 'c, 'b) app \<Rightarrow> ('s, 'n, 'c, 'b) app" where
  "wipe_calibration hw a =
     a\<lparr>ap_learner := learner_clear (hw_nvs hw) (hw_free_heap hw (k_io (ap_kds a))) (ap_learner a),
       ap_est := clear_bands (ap_est a)\<rparr>"

text \<open>Deriving the bands from the histogram and installing them, when it yields any.\<close>

definition derive_and_install :: "('s, 'n, 'c, 'b) app \<Rightarrow> ('s, 'n, 'c, 'b) app ctl" where
  "derive_and_install a =
     (case learner_derive (ap_learner a) FACTORY_BANDS of
        None \<Rightarrow> Stuck
      | Some None \<Rightarrow> Go a
      | Some (Some (bs, n)) \<Rightarrow>
          (case set_bands (ap_est a) bs NUM_GEARS of
             None \<Rightarrow> Stuck
           | Some e \<Rightarrow> Go (a\<lparr>ap_est := e, ap_learned := n\<rparr>)))"

section \<open>Requests to the worker\<close>

definition lk_request :: "ota_request \<Rightarrow> ota_link \<Rightarrow> ota_link" where
  "lk_request r o' = o'\<lparr>lk_queue := try_send 4 r (lk_queue o')\<rparr>"

definition request :: "ota_request \<Rightarrow> ('s, 'n, 'c, 'b) app \<Rightarrow> ('s, 'n, 'c, 'b) app" where
  "request r a = a\<lparr>ap_ota := map_option (lk_request r) (ap_ota a)\<rparr>"

definition upd_link :: "(ota_shared \<Rightarrow> ota_shared) \<Rightarrow> ('s, 'n, 'c, 'b) app \<Rightarrow> ('s, 'n, 'c, 'b) app" where
  "upd_link f a = a\<lparr>ap_ota := map_option (\<lambda>o'. o'\<lparr>lk_shared := f (lk_shared o')\<rparr>) (ap_ota a)\<rparr>"

section \<open>The neutral fast path\<close>

definition neutral_tick :: "('s, 'n, 'c, 'b) hardware \<Rightarrow> bool \<Rightarrow> u8 \<Rightarrow> ('s, 'n, 'c, 'b) app \<Rightarrow> ('s, 'n, 'c, 'b) app" where
  "neutral_tick hw link_up br a =
     (let low = neutral_low hw a in
      if low = ap_neutral_was a then a
      else case update (ap_est a) (default_inputs\<lparr>neutral_switch := low\<rparr>) of
        (e, g) \<Rightarrow>
          let a1 = a\<lparr>ap_neutral_was := low, ap_est := e\<rparr>
          in if \<not> bd_demo (hw_build hw) then snd (led_send hw (render g link_up br False) a1) else a1)"

section \<open>Commands of the app\<close>

definition upd_config :: "('c config_store \<Rightarrow> 'c config_store) \<Rightarrow> ('s, 'n, 'c, 'b) app \<Rightarrow> ('s, 'n, 'c, 'b) app" where
  "upd_config f a = a\<lparr>ap_config := f (ap_config a)\<rparr>"

definition on_credentials ::
  "('s, 'n, 'c, 'b) hardware \<Rightarrow> u32 \<Rightarrow> wifi_credentials \<Rightarrow> ('s, 'n, 'c, 'b) app \<Rightarrow> ('s, 'n, 'c, 'b) app" where
  "on_credentials hw t w a =
     request ReqTestWifi (push_event t (''wifi set: '' @ w_ssid w)
       (upd_config (set_wifi (hw_cfg hw) (w_ssid w) (w_psk w)) a))"

definition on_command ::
  "('s, 'n, 'c, 'b) hardware \<Rightarrow> u32 \<Rightarrow> command \<Rightarrow> ('s, 'n, 'c, 'b) app \<Rightarrow> ('s, 'n, 'c, 'b) app ctl" where
  "on_command hw t cmd a =
     (case cmd of
        WipeCalibration \<Rightarrow> Go (push_event t ''calibration wiped (app)'' (wipe_calibration hw a))
      | SetBrightness i \<Rightarrow>
          let i = min (unat i) (length BRIGHTNESS_STEPS - 1)
          in Go (upd_config (set_brightness (hw_cfg hw) (of_nat i)) (a\<lparr>ap_brightness := i\<rparr>))
      | CheckUpdate \<Rightarrow> Go (request (ReqCheck False) (push_event t ''app: check update'' a))
      | InstallUpdate \<Rightarrow> Go (request ReqInstall (push_event t ''app: install update'' a))
      | SetBootPolicy p \<Rightarrow>
          Go (push_event t (''boot policy '' @ show_word p) (upd_config (set_boot_policy (hw_cfg hw) p) a))
      | Reboot \<Rightarrow> Rebooted (delay hw 300000 (snd (save_learner hw a)))
      | ForgetWifi \<Rightarrow>
          Go (upd_link (upd_wifi (\<lambda>_. default_wifi))
            (push_event t ''wifi forgotten'' (upd_config (clear_wifi (hw_cfg hw)) a)))
      | ClearBlackBox \<Rightarrow>
          Go (push_event t ''black box cleared''
            (a\<lparr>ap_learner := learner_clear_black_box (hw_nvs hw) (ap_learner a)\<rparr>))
      | SetManifestUrl url \<Rightarrow>
          Go (push_event t (if url = [] then ''manifest url: default'' else ''manifest url: custom'')
            (upd_config (set_manifest_url (hw_cfg hw) (if url = [] then None else Some url)) a))
      | TestWifi \<Rightarrow> Go (request ReqTestWifi a))"

primrec on_commands ::
  "('s, 'n, 'c, 'b) hardware \<Rightarrow> u32 \<Rightarrow> command list \<Rightarrow> ('s, 'n, 'c, 'b) app \<Rightarrow> ('s, 'n, 'c, 'b) app ctl" where
  "on_commands hw t [] a = Go a"
| "on_commands hw t (c # cs) a = seq (on_command hw t c a) (on_commands hw t cs)"

text \<open>Both queues are drained, the credentials first.\<close>

definition handle_ble_commands :: "('s, 'n, 'c, 'b) hardware \<Rightarrow> u32 \<Rightarrow> ('s, 'n, 'c, 'b) app \<Rightarrow> ('s, 'n, 'c, 'b) app ctl" where
  "handle_ble_commands hw t a =
     (case ap_ble a of
        None \<Rightarrow> Go a
      | Some b \<Rightarrow>
          let a1 = foldl (\<lambda>a w. on_credentials hw t w a) (a\<lparr>ap_ble := Some (b\<lparr>bs_cmds := [], bs_wifi := []\<rparr>)\<rparr>) (bs_wifi b)
          in on_commands hw t (bs_cmds b) a1)"

section \<open>Mirroring the worker's status\<close>

text \<open>\<open>chars().take(n)\<close>: the bytes of the first \<open>n\<close> characters.\<close>

fun take_chars :: "nat \<Rightarrow> string \<Rightarrow> string" where
  "take_chars n [] = []"
| "take_chars n (c # s) =
     (if cont c then c # take_chars n s
      else case n of 0 \<Rightarrow> [] | Suc m \<Rightarrow> c # take_chars m s)"

definition note_ota_change :: "int \<Rightarrow> u32 \<Rightarrow> ota_status \<Rightarrow> ('s, 'n, 'c, 'b) app \<Rightarrow> ('s, 'n, 'c, 'b) app" where
  "note_ota_change t_now t o' a =
     (if o_state o' = o_state (ap_ota_status a) then a
      else let a1 = push_event t (''ota '' @ ota_state_str (o_state o')) a;
               a2 = (case o_error o' of Some e \<Rightarrow> push_event t (''ota: '' @ take_chars 40 e) a1 | None \<Rightarrow> a1)
           in if o_state o' = OtaFailed then a2\<lparr>ap_fail_until := Some (t_now + OTA_FAIL_SHOW)\<rparr> else a2)"

definition note_wifi_change :: "u32 \<Rightarrow> wifi_status \<Rightarrow> ('s, 'n, 'c, 'b) app \<Rightarrow> ('s, 'n, 'c, 'b) app" where
  "note_wifi_change t w a =
     (if ws_state w = ws_state (ap_wifi_status a) then a
      else push_event t (''wifi '' @ wifi_state_str (ws_state w)) a)"

definition mirror_ota :: "('s, 'n, 'c, 'b) hardware \<Rightarrow> u32 \<Rightarrow> ('s, 'n, 'c, 'b) app \<Rightarrow> ('s, 'n, 'c, 'b) app ctl" where
  "mirror_ota hw t a =
     (case ap_ota a of
        None \<Rightarrow> Go a
      | Some lk \<Rightarrow>
          let sh = lk_shared lk in
          if \<not> sh_changed sh then Go a
          else let a1 = upd_link (\<lambda>sh. sh\<lparr>sh_changed := False\<rparr>) a;
                   a2 = note_wifi_change t (sh_wifi sh) (note_ota_change (clock hw a) t (sh_ota sh) a1);
                   a3 = a2\<lparr>ap_ota_status := sh_ota sh, ap_wifi_status := sh_wifi sh\<rparr>
               in case ap_ble a3 of
                    None \<Rightarrow> Go a3
                  | Some b \<Rightarrow>
                      (case ota_status_json (sh_ota sh) of
                         None \<Rightarrow> Stuck
                       | Some body \<Rightarrow> Go (a3\<lparr>ap_ble := Some
                           (notify (hw_bt hw) WifiStatus (bytes_of (wifi_status_json (sh_wifi sh)))
                             (notify (hw_bt hw) OtaStatus (bytes_of body) b))\<rparr>)))"

section \<open>While an update is written, and after one failed\<close>

definition show_frame :: "('s, 'n, 'c, 'b) hardware \<Rightarrow> rgb list \<Rightarrow> ('s, 'n, 'c, 'b) app \<Rightarrow> ('s, 'n, 'c, 'b) app" where
  "show_frame hw fr a =
     (if ap_last_frame a = Some fr then a else (snd (led_send hw fr a))\<lparr>ap_last_frame := Some fr\<rparr>)"

definition writing :: "ota_state \<Rightarrow> bool" where
  "writing s \<longleftrightarrow> s = Downloading \<or> s = Verifying \<or> s = Rebooting"

text \<open>Polling pauses: the link is dropped and the histogram saved once, when the writing starts.\<close>

definition pause_polling :: "('s, 'n, 'c, 'b) hardware \<Rightarrow> ('s, 'n, 'c, 'b) app \<Rightarrow> ('s, 'n, 'c, 'b) app" where
  "pause_polling hw a =
     (if \<not> ap_ota_was_busy a
      then snd (save_learner hw (a\<lparr>ap_kds := (ap_kds a)\<lparr>k_connected := False\<rparr>\<rparr>))
      else a)\<lparr>ap_ota_was_busy := True\<rparr>"

definition busy_frame :: "ota_status \<Rightarrow> u8 \<Rightarrow> rgb list" where
  "busy_frame o' br = (if o_state o' = Rebooting then render_ota_result True br
     else render_progress (o_progress o') br)"

definition busy_step :: "('s, 'n, 'c, 'b) hardware \<Rightarrow> u32 \<Rightarrow> ('s, 'n, 'c, 'b) app \<Rightarrow> ('s, 'n, 'c, 'b) app ctl" where
  "busy_step hw t a =
     (if writing (o_state (ap_ota_status a))
      then (case brightness (pause_polling hw a) of
              None \<Rightarrow> Stuck
            | Some br \<Rightarrow>
                seq (handle_ble_commands hw t
                  (show_frame hw (busy_frame (ap_ota_status a) br) (pause_polling hw a)))
                  (\<lambda>a3. Again (delay hw 100000 a3)))
      else Go (a\<lparr>ap_ota_was_busy := False\<rparr>))"

definition fail_step :: "('s, 'n, 'c, 'b) hardware \<Rightarrow> ('s, 'n, 'c, 'b) app \<Rightarrow> ('s, 'n, 'c, 'b) app ctl" where
  "fail_step hw a =
     (case ap_fail_until a of
        None \<Rightarrow> Go a
      | Some until' \<Rightarrow>
          if clock hw a < until'
          then (case brightness a of
                  None \<Rightarrow> Stuck
                | Some br \<Rightarrow> Again (delay hw 100000 (show_frame hw (render_ota_result False br) a)))
          else Go (a\<lparr>ap_fail_until := None\<rparr>))"

section \<open>Boot-time check and self-test\<close>

definition boot_check :: "('s, 'n, 'c, 'b) hardware \<Rightarrow> ('s, 'n, 'c, 'b) app \<Rightarrow> ('s, 'n, 'c, 'b) app" where
  "boot_check hw a =
     (if \<not> ap_boot_check_done a \<and> BOOT_CHECK_DELAY \<le> elapsed hw (ap_boot a) a
      then let a1 = a\<lparr>ap_boot_check_done := True\<rparr>;
               policy = cfg_boot_policy (cs_cfg (ap_config a1));
               has_wifi = (cfg_ssid (cs_cfg (ap_config a1)) \<noteq> None)
           in if BOOT_CHECK \<le> policy \<and> has_wifi \<and> ap_self_test_done a1
              then request (ReqCheck (policy = BOOT_CHECK_AND_INSTALL)) a1 else a1
      else a)"

definition self_test :: "('s, 'n, 'c, 'b) hardware \<Rightarrow> u32 \<Rightarrow> ('s, 'n, 'c, 'b) app \<Rightarrow> ('s, 'n, 'c, 'b) app" where
  "self_test hw t a =
     (if \<not> ap_self_test_done a \<and> SELF_TEST_UPTIME \<le> elapsed hw (ap_boot a) a
      then let a1 = a\<lparr>ap_self_test_done := True\<rparr>;
               (healthy, a2) = (if ap_ble a1 = None then (False, a1)
                 else led_send hw (case ap_last_frame a1 of Some fr \<Rightarrow> fr | None \<Rightarrow> replicate 25 OFF) a1)
           in if healthy then push_event t ''self-test passed'' (request ReqMarkValid a2)
              else push_event t ''self-test FAILED'' a2
      else a)"

section \<open>The button\<close>

definition button_step :: "('s, 'n, 'c, 'b) hardware \<Rightarrow> u32 \<Rightarrow> ('s, 'n, 'c, 'b) app \<Rightarrow> ('s, 'n, 'c, 'b) app" where
  "button_step hw t a =
     (let down = hw_button_low hw (k_io (ap_kds a));
          a1 = (if down \<and> \<not> ap_button_down a then a\<lparr>ap_button_at := clock hw a\<rparr> else a);
          a2 = (if \<not> down \<and> ap_button_down a1
            then if LEARN_RESET_HOLD \<le> elapsed hw (ap_button_at a1) a1
              then push_event t ''calibration wiped (button)'' (wipe_calibration hw a1)
              else let i = (ap_brightness a1 + 1) mod length BRIGHTNESS_STEPS
                   in upd_config (set_brightness (hw_cfg hw) (of_nat i)) (a1\<lparr>ap_brightness := i\<rparr>)
            else a1)
      in a2\<lparr>ap_button_down := down\<rparr>)"

section \<open>The K-line\<close>

definition reconnect_step :: "('s, 'n, 'c, 'b) hardware \<Rightarrow> ('s, 'n, 'c, 'b) app \<Rightarrow> ('s, 'n, 'c, 'b) app ctl" where
  "reconnect_step hw a =
     (if \<not> k_connected (ap_kds a) \<and> RECONNECT_INTERVAL \<le> elapsed hw (ap_last_reconnect a) a
      then case start_communication (hw_uart hw) (ap_kds a) of
             None \<Rightarrow> Stuck
           | Some (_, k) \<Rightarrow> Go (a\<lparr>ap_last_reconnect := clock hw a, ap_kds := k\<rparr>)
      else Go a)"

text \<open>
  The deep scan: every identification record, then the common identifiers below 0x1000, keeping
  those that answered; later cycles read the kept ones again and remember their last value.
\<close>

fun deep_idents :: "'s uart \<Rightarrow> u8 list \<Rightarrow> 's kds \<Rightarrow> 's kds option" where
  "deep_idents u [] k = Some k"
| "deep_idents u (i # is) k =
     (case read_ident u i k of
        None \<Rightarrow> None
      | Some (_, k1) \<Rightarrow> if \<not> k_connected k1 then Some k1 else deep_idents u is k1)"

fun deep_commons :: "'s uart \<Rightarrow> u16 list \<Rightarrow> (u16 \<times> u8 list) list \<Rightarrow> 's kds
    \<Rightarrow> ((u16 \<times> u8 list) list \<times> 's kds) option" where
  "deep_commons u [] found k = Some (found, k)"
| "deep_commons u (i # is) found k =
     (case read_common u i k of
        None \<Rightarrow> None
      | Some (d, k1) \<Rightarrow>
          let found1 = (case d of Some v \<Rightarrow> found @ [(i, v)] | None \<Rightarrow> found)
          in if \<not> k_connected k1 then Some (found1, k1) else deep_commons u is found1 k1)"

text \<open>One pass over a table; the flag tells whether anything answered.\<close>

fun watch :: "('i \<Rightarrow> 's kds \<Rightarrow> (u8 list option \<times> 's kds) option) \<Rightarrow> ('i \<times> u8 list) list \<Rightarrow> 's kds
    \<Rightarrow> (('i \<times> u8 list) list \<times> bool \<times> 's kds) option" where
  "watch rd [] k = Some ([], False, k)"
| "watch rd ((i, prev) # tbl) k =
     (case rd i k of
        None \<Rightarrow> None
      | Some (d, k1) \<Rightarrow>
          (case watch rd tbl k1 of
             None \<Rightarrow> None
           | Some (tbl', alive, k2) \<Rightarrow>
               Some ((i, case d of Some v \<Rightarrow> if v \<noteq> prev then v else prev | None \<Rightarrow> prev) # tbl',
                 d \<noteq> None \<or> alive, k2)))"

definition deep_step :: "('s, 'n, 'c, 'b) hardware \<Rightarrow> ('s, 'n, 'c, 'b) app \<Rightarrow> ('s, 'n, 'c, 'b) app ctl" where
  "deep_step hw a =
     (if k_connected (ap_kds a) \<and> bd_deep (hw_build hw)
      then (case ap_deep a of
              None \<Rightarrow>
                (case deep_idents (hw_uart hw) (map of_nat [0..<256]) (ap_kds a) of
                   None \<Rightarrow> Stuck
                 | Some k1 \<Rightarrow>
                     (case deep_commons (hw_uart hw) (map of_nat [0..<4096]) [] k1 of
                        None \<Rightarrow> Stuck
                      | Some (found, k2) \<Rightarrow> Go (a\<lparr>ap_kds := k2, ap_deep := Some found\<rparr>)))
            | Some tbl \<Rightarrow>
                (case watch (read_common (hw_uart hw)) tbl (ap_kds a) of
                   None \<Rightarrow> Stuck
                 | Some (tbl', _, k1) \<Rightarrow> Go (a\<lparr>ap_kds := k1, ap_deep := Some tbl'\<rparr>)))
      else Go a)"

text \<open>The register scan, which takes the place of the poll; the result is whether the link is up.\<close>

definition scan_step :: "('s, 'n, 'c, 'b) hardware \<Rightarrow> ('s, 'n, 'c, 'b) app \<Rightarrow> (bool \<times> ('s, 'n, 'c, 'b) app) option" where
  "scan_step hw a =
     (if k_connected (ap_kds a) \<and> bd_scan (hw_build hw)
      then (case ap_regs a of
              None \<Rightarrow> map_option (\<lambda>(tbl, k). (True, a\<lparr>ap_kds := k, ap_regs := Some tbl\<rparr>))
                (scan_registers (hw_uart hw) (ap_kds a))
            | Some tbl \<Rightarrow> map_option (\<lambda>(tbl', alive, k).
                let k1 = (if \<not> alive then k\<lparr>k_connected := False\<rparr> else k)
                in (k_connected k1, a\<lparr>ap_kds := k1, ap_regs := Some tbl'\<rparr>))
                (watch (read_register (hw_uart hw)) tbl (ap_kds a)))
      else Some (False, a))"

text \<open>What a cycle read: the raw readings, the aligned rpm, and whether the link is up.\<close>

record readings =
  rd_rpm :: "f32 option"
  rd_speed :: "f32 option"
  rd_aligned :: "f32 option"
  rd_link_up :: bool

definition no_readings :: readings where
  "no_readings = \<lparr>rd_rpm = None, rd_speed = None, rd_aligned = None, rd_link_up = False\<rparr>"

definition millis :: "int \<Rightarrow> f32" where
  "millis us = f32_of_int (us div 1000)"

text \<open>The rpm moved to the time of the speed read; \<open>None\<close> is the panic of \<open>time_align_rpm\<close>.\<close>

definition align ::
  "f32 option \<Rightarrow> (f32 \<times> int) option \<Rightarrow> f32 option \<Rightarrow> int \<Rightarrow> int \<Rightarrow> f32 option option" where
  "align ro prev so t_rpm t_now =
     (case (ro, prev) of
        (Some r, Some (pr, pt)) \<Rightarrow>
          if so \<noteq> None
          then map_option Some (time_align_rpm r pr (millis (max 0 (t_rpm - pt))) (millis (max 0 (t_now - t_rpm))))
          else Some ro
      | _ \<Rightarrow> Some ro)"

definition interlock_step :: "('s, 'n, 'c, 'b) hardware \<Rightarrow> ('s, 'n, 'c, 'b) app \<Rightarrow> ('s, 'n, 'c, 'b) app option" where
  "interlock_step hw a =
     (if ap_cycle a mod INTERLOCK_EVERY_N_CYCLES = 0
      then map_option (\<lambda>(v, k). case v of
               Inr i \<Rightarrow> a\<lparr>ap_kds := k, ap_interlock := i\<rparr>
             | Inl raw \<Rightarrow> a\<lparr>ap_kds := k, ap_learner := note_interlock_odd raw (ap_learner a), ap_interlock := None\<rparr>)
           (read_interlock (hw_uart hw) (ap_kds a))
      else Some a)"

definition drop_link :: "('s, 'n, 'c, 'b) hardware \<Rightarrow> u32 \<Rightarrow> ('s, 'n, 'c, 'b) app \<Rightarrow> ('s, 'n, 'c, 'b) app" where
  "drop_link hw t a =
     push_event t ''k-line dropped''
       (snd (save_learner hw (a\<lparr>ap_kds := (ap_kds a)\<lparr>k_connected := False\<rparr>, ap_interlock := None,
          ap_prev_rpm := None, ap_learner := note_link_drop (ap_learner a)\<rparr>)))"

definition learn_step ::
  "('s, 'n, 'c, 'b) hardware \<Rightarrow> f32 option \<Rightarrow> f32 option \<Rightarrow> ('s, 'n, 'c, 'b) app \<Rightarrow> ('s, 'n, 'c, 'b) app" where
  "learn_step hw al so a =
     (case (al, so) of
        (Some r, Some s) \<Rightarrow> a\<lparr>ap_learner := learner_add r s False (neutral_low hw a) (ap_learner a)\<rparr>
      | _ \<Rightarrow> a)"

text \<open>One poll of the ECU; \<open>None\<close> is a panic or a call that never returns.\<close>

definition poll :: "('s, 'n, 'c, 'b) hardware \<Rightarrow> u32 \<Rightarrow> ('s, 'n, 'c, 'b) app \<Rightarrow> (readings \<times> ('s, 'n, 'c, 'b) app) option" where
  "poll hw t a =
     (if \<not> k_connected (ap_kds a) \<or> bd_scan (hw_build hw) then Some (no_readings, a)
      else Option.bind (brightness a) (\<lambda>br.
        Option.bind (read_rpm (hw_uart hw) (ap_kds a)) (\<lambda>(ro, k1).
          let a1 = a\<lparr>ap_kds := k1\<rparr>; t_rpm = clock hw a1; a2 = neutral_tick hw True br a1 in
        Option.bind (read_speed (hw_uart hw) (ap_kds a2)) (\<lambda>(so, k2).
          let a3 = a2\<lparr>ap_kds := k2\<rparr> in
        Option.bind (align ro (ap_prev_rpm a3) so t_rpm (clock hw a3)) (\<lambda>al.
          let a4 = a3\<lparr>ap_prev_rpm := (case ro of Some r \<Rightarrow> Some (r, t_rpm) | None \<Rightarrow> ap_prev_rpm a3)\<rparr> in
        Option.bind (interlock_step hw (neutral_tick hw True br a4)) (\<lambda>a5.
          Some (if ro = None \<and> so = None
            then (\<lparr>rd_rpm = ro, rd_speed = so, rd_aligned = al, rd_link_up = False\<rparr>, drop_link hw t a5)
            else (\<lparr>rd_rpm = ro, rd_speed = so, rd_aligned = al, rd_link_up = True\<rparr>, learn_step hw al so a5))))))))"

section \<open>Saving and displaying\<close>

definition persist_step :: "('s, 'n, 'c, 'b) hardware \<Rightarrow> ('s, 'n, 'c, 'b) app \<Rightarrow> ('s, 'n, 'c, 'b) app ctl" where
  "persist_step hw a =
     (if LEARN_SAVE_INTERVAL \<le> elapsed hw (ap_last_save a) a
      then case save_learner hw (a\<lparr>ap_last_save := clock hw a\<rparr>) of
             (True, a1) \<Rightarrow> derive_and_install (a1\<lparr>ap_flash_until := clock hw a1 + 800000\<rparr>)
           | (False, a1) \<Rightarrow> Go a1
      else Go a)"

definition forget_learned :: "('s, 'n, 'c, 'b) app \<Rightarrow> ('s, 'n, 'c, 'b) app" where
  "forget_learned a = (if get_bands (ap_est a) = None then a\<lparr>ap_learned := 0\<rparr> else a)"

definition refresh_frame :: "('s, 'n, 'c, 'b) hardware \<Rightarrow> rgb list \<Rightarrow> ('s, 'n, 'c, 'b) app \<Rightarrow> ('s, 'n, 'c, 'b) app" where
  "refresh_frame hw fr a =
     (if ap_last_frame a \<noteq> Some fr \<or> ap_cycle a mod 8 = 0
      then (snd (led_send hw fr a))\<lparr>ap_last_frame := Some fr\<rparr> else a)"

text \<open>The digit of the demo mode: one to six, a step every fifteen seconds.\<close>

definition demo_gear :: "('s, 'n, 'c, 'b) hardware \<Rightarrow> ('s, 'n, 'c, 'b) app \<Rightarrow> gear" where
  "demo_gear hw a = G (word_of_int (elapsed hw (ap_demo_start a) a div 1000000 div DEMO_STEP mod 6 + 1))"

text \<open>
  The gear of this cycle, whether the neutral wire is low, and the readings, whose link the demo
  mode overrides.
\<close>

definition display_step ::
  "('s, 'n, 'c, 'b) hardware \<Rightarrow> readings \<Rightarrow> ('s, 'n, 'c, 'b) app
    \<Rightarrow> (gear \<times> bool \<times> readings \<times> ('s, 'n, 'c, 'b) app) option" where
  "display_step hw rd a =
     (let low = neutral_low hw a;
          (e, g) = update (ap_est a) \<lparr>rpm = rd_aligned rd, speed = rd_speed rd, gear_reg = None,
            neutral_switch = low, clutch_pulled = False\<rparr>;
          a1 = a\<lparr>ap_neutral_was := low, ap_est := e\<rparr>;
          demo = bd_demo (hw_build hw);
          g1 = (if demo then demo_gear hw a1 else g);
          rd1 = (if demo then rd\<lparr>rd_link_up := True\<rparr> else rd)
      in case (if demo then Some 255 else brightness a1) of
           None \<Rightarrow> None
         | Some br \<Rightarrow> Some (g1, low, rd1,
             refresh_frame hw (render g1 (rd_link_up rd1) br (clock hw a1 < ap_flash_until a1)) a1))"

section \<open>The dashboard\<close>

definition snapshot_now :: "readings \<Rightarrow> gear \<Rightarrow> ('s, 'n, 'c, 'b) app \<Rightarrow> snapshot" where
  "snapshot_now rd g a =
     \<lparr>s_link_up = rd_link_up rd, s_gear = Some g, s_rpm = rd_rpm rd, s_speed = rd_speed rd,
      s_ecu_neutral = ap_interlock a, s_samples = h_samples (ln_hist (ap_learner a)),
      s_bands = (case get_bands (ap_est a) of Some bs \<Rightarrow> bs | None \<Rightarrow> []),
      s_hist = h_counts (ln_hist (ap_learner a))\<rparr>"

definition web_step ::
  "('s, 'n, 'c, 'b) hardware \<Rightarrow> readings \<Rightarrow> gear \<Rightarrow> ('s, 'n, 'c, 'b) app \<Rightarrow> ('s, 'n, 'c, 'b) app" where
  "web_step hw rd g a =
     (case ap_web a of
        None \<Rightarrow> a
      | Some w \<Rightarrow>
          let a1 = (if wb_clear w then wipe_calibration hw a else a)
          in a1\<lparr>ap_web := Some (w\<lparr>wb_clear := False, wb_shared := snapshot_now rd g a1\<rparr>)\<rparr>)"

section \<open>Telemetry\<close>

text \<open>\<open>PublishedCache\<close>: one map per kind of value, keyed by the attribute.\<close>

definition publish_if_changed ::
  "'b bt_stack \<Rightarrow> attr \<Rightarrow> string \<Rightarrow> 'b server \<times> published \<Rightarrow> 'b server \<times> published" where
  "publish_if_changed bt at v p =
     (case p of (b, ss, bs) \<Rightarrow>
        if ss at \<noteq> Some v then (publish bt at (bytes_of v) b, ss(at \<mapsto> v), bs) else (b, ss, bs))"

definition publish_bytes_if_changed ::
  "'b bt_stack \<Rightarrow> attr \<Rightarrow> u8 list \<Rightarrow> 'b server \<times> published \<Rightarrow> 'b server \<times> published" where
  "publish_bytes_if_changed bt at v p =
     (case p of (b, ss, bs) \<Rightarrow>
        if bs at \<noteq> Some v then (publish bt at v b, ss, bs(at \<mapsto> v)) else (b, ss, bs))"

definition link_event :: "bool \<Rightarrow> u32 \<Rightarrow> ('s, 'n, 'c, 'b) app \<Rightarrow> ('s, 'n, 'c, 'b) app" where
  "link_event up t a =
     (if up \<noteq> ap_link_was_up a
      then push_event t (if up then ''k-line up'' else ''k-line down'') (a\<lparr>ap_link_was_up := up\<rparr>) else a)"

definition moving_now :: "readings \<Rightarrow> bool" where
  "moving_now rd = (case rd_speed rd of Some s \<Rightarrow> dec 10 1 \<le> s | None \<Rightarrow> False)"

definition live_now ::
  "('s, 'n, 'c, 'b) hardware \<Rightarrow> u32 \<Rightarrow> readings \<Rightarrow> gear \<Rightarrow> bool \<Rightarrow> ('s, 'n, 'c, 'b) app \<Rightarrow> live_status" where
  "live_now hw t rd g low a =
     \<lparr>l_link_up = rd_link_up rd, l_neutral_switch = low, l_interlock = ap_interlock a,
      l_learn_flash = (clock hw a < ap_flash_until a), l_ota_busy = is_busy (o_state (ap_ota_status a)),
      l_demo = bd_demo (hw_build hw), l_gear = g, l_brightness_idx = of_nat (ap_brightness a),
      l_rpm = rd_rpm rd, l_speed = rd_speed rd, l_samples = h_samples (ln_hist (ap_learner a)),
      l_uptime_s = t\<rparr>"

text \<open>\<open>boot_slot_info\<close> with its default for a worker that did not start.\<close>

definition slot_label :: "('s, 'n, 'c, 'b) app \<Rightarrow> string" where
  "slot_label a = (case ap_slot a of Some (l, _, _) \<Rightarrow> l | None \<Rightarrow> [])"

definition slot_pending :: "('s, 'n, 'c, 'b) app \<Rightarrow> bool" where
  "slot_pending a = (case ap_slot a of Some (_, p, _) \<Rightarrow> p | None \<Rightarrow> False)"

text \<open>\<open>{:02X}\<close> of the six bytes of the address, joined by colons.\<close>

definition upper_hex :: "nat \<Rightarrow> char" where
  "upper_hex d = (if d < 10 then char_of (48 + d) else char_of (55 + d))"

definition bt_mac :: "u8 list \<Rightarrow> string" where
  "bt_mac m = join '':'' (map (\<lambda>i. [upper_hex (unat (m ! i) div 16), upper_hex (unat (m ! i) mod 16)]) [0..<6])"

definition device_info_now ::
  "('s, 'n, 'c, 'b) hardware \<Rightarrow> u32 \<Rightarrow> 'b server \<Rightarrow> ('s, 'n, 'c, 'b) app \<Rightarrow> device_info" where
  "device_info_now hw t b a =
     \<lparr>d_fw_version = hw_fw_version hw, d_project = PROJECT_NAME, d_idf_version = hw_idf_version hw,
      d_built = hw_build_stamp hw, d_hardware = HARDWARE,
      d_slot = (if slot_label a = [] then ''factory'' else slot_label a),
      d_ota_capable = (ap_ota a \<noteq> None \<and> prefix ''ota_'' (slot_label a)),
      d_pending_verify = (slot_pending a \<and> \<not> ap_self_test_done a),
      d_boot_policy = cfg_boot_policy (cs_cfg (ap_config a)), d_uptime_s = t,
      d_free_heap = hw_free_heap hw (k_io (ap_kds a)),
      d_min_free_heap = r_min_free_heap (ln_debug (ap_learner a)),
      d_reset_reason = reset_reason_name (r_last_reset_reason (ln_debug (ap_learner a))),
      d_mac = bt_mac (hw_mac hw), d_ble_connections = connections b\<rparr>"

definition settings_now :: "('s, 'n, 'c, 'b) hardware \<Rightarrow> ('s, 'n, 'c, 'b) app \<Rightarrow> settings" where
  "settings_now hw a = (let c = cs_cfg (ap_config a) in
     \<lparr>st_brightness_idx = of_nat (ap_brightness a), st_brightness_steps = BRIGHTNESS_STEPS,
      st_boot_policy = cfg_boot_policy c,
      st_manifest_url = (case cfg_manifest_url c of Some u \<Rightarrow> u | None \<Rightarrow> hw_manifest_url hw),
      st_manifest_url_is_default = (cfg_manifest_url c = None), st_wifi_ssid = cfg_ssid c\<rparr>)"

text \<open>The slow attributes, in the order they are refreshed.\<close>

definition slow_texts ::
  "('s, 'n, 'c, 'b) hardware \<Rightarrow> u32 \<Rightarrow> 'b server \<Rightarrow> ('s, 'n, 'c, 'b) app \<Rightarrow> (attr \<times> string) list option" where
  "slow_texts hw t b a =
     map_option (\<lambda>ota. [(DeviceInfo, device_info_json (device_info_now hw t b a)),
         (Settings, settings_json (settings_now hw a)),
         (BlackBox, black_box_json (learner_black_box (ap_learner a))),
         (Calibration, calibration_json (get_bands (ap_est a)) (ap_learned a)
            (h_samples (ln_hist (ap_learner a))) (peaks (ln_hist (ap_learner a)))),
         (Events, ring_to_json (ap_events a)), (OtaStatus, ota),
         (WifiStatus, wifi_status_json (ap_wifi_status a))])
       (ota_status_json (ap_ota_status a))"

definition slow_pages :: "('s, 'n, 'c, 'b) app \<Rightarrow> (attr \<times> u8 list) list" where
  "slow_pages a = (let h = ln_hist (ap_learner a) in
     [(Hist0, hist_page (h_counts h) (h_samples h) 0), (Hist1, hist_page (h_counts h) (h_samples h) 1)])"

definition slow_publish :: "('s, 'n, 'c, 'b) hardware \<Rightarrow> u32 \<Rightarrow> 'b server \<Rightarrow> ('s, 'n, 'c, 'b) app \<Rightarrow> ('s, 'n, 'c, 'b) app ctl" where
  "slow_publish hw t b a =
     (case slow_texts hw t b a of
        None \<Rightarrow> Stuck
      | Some vs \<Rightarrow>
          let p1 = foldl (\<lambda>p (at, v). publish_if_changed (hw_bt hw) at v p) (b, ap_published a) vs;
              (b2, pub) = foldl (\<lambda>p (at, v). publish_bytes_if_changed (hw_bt hw) at v p) p1 (slow_pages a)
          in Go (a\<lparr>ap_ble := Some b2, ap_published := pub\<rparr>))"

text \<open>\<open>ota_shared.moving\<close> is written here, so only while the BLE service is up.\<close>

definition note_moving :: "readings \<Rightarrow> ('s, 'n, 'c, 'b) app \<Rightarrow> ('s, 'n, 'c, 'b) app" where
  "note_moving rd = upd_link (\<lambda>sh. sh\<lparr>sh_moving := moving_now rd\<rparr>)"

definition live_notify ::
  "('s, 'n, 'c, 'b) hardware \<Rightarrow> live_status \<Rightarrow> 'b server \<Rightarrow> 'b server option" where
  "live_notify hw l b =
     (if live_subscribed b then map_option (\<lambda>v. notify (hw_bt hw) Live v b) (live_encode l) else Some b)"

definition telemetry ::
  "('s, 'n, 'c, 'b) hardware \<Rightarrow> u32 \<Rightarrow> readings \<Rightarrow> gear \<Rightarrow> bool \<Rightarrow> ('s, 'n, 'c, 'b) app \<Rightarrow> ('s, 'n, 'c, 'b) app ctl" where
  "telemetry hw t rd g low a =
     (let a1 = link_event (rd_link_up rd) t a in
      case ap_ble a1 of
        None \<Rightarrow> Go a1
      | Some b \<Rightarrow>
          let a2 = note_moving rd a1 in
          (case live_notify hw (live_now hw t rd g low a2) b of
             None \<Rightarrow> Stuck
           | Some b1 \<Rightarrow>
               let a3 = a2\<lparr>ap_ble := Some b1\<rparr> in
               if BLE_SLOW_PUBLISH \<le> elapsed hw (ap_last_publish a3) a3
               then slow_publish hw t b1 (a3\<lparr>ap_last_publish := clock hw a3\<rparr>)
               else Go a3))"

section \<open>The iteration\<close>

definition uptime :: "('s, 'n, 'c, 'b) hardware \<Rightarrow> ('s, 'n, 'c, 'b) app \<Rightarrow> u32" where
  "uptime hw a = word_of_int (elapsed hw (ap_boot a) a div 1000000)"

definition end_cycle :: "('s, 'n, 'c, 'b) hardware \<Rightarrow> ('s, 'n, 'c, 'b) app \<Rightarrow> ('s, 'n, 'c, 'b) app" where
  "end_cycle hw a = delay hw POLL_INTERVAL (a\<lparr>ap_cycle := ap_cycle a + 1\<rparr>)"

text \<open>From the poll to the end of the cycle.\<close>

definition ride_steps :: "('s, 'n, 'c, 'b) hardware \<Rightarrow> u32 \<Rightarrow> ('s, 'n, 'c, 'b) app \<Rightarrow> ('s, 'n, 'c, 'b) app ctl" where
  "ride_steps hw t a =
     (case scan_step hw a of
        None \<Rightarrow> Stuck
      | Some (link, a0) \<Rightarrow>
     case poll hw t a0 of
        None \<Rightarrow> Stuck
      | Some (rd0, a1) \<Rightarrow>
          let rd = rd0\<lparr>rd_link_up := link \<or> rd_link_up rd0\<rparr> in
          seq (persist_step hw a1) (\<lambda>a2.
          case display_step hw rd (forget_learned a2) of
            None \<Rightarrow> Stuck
          | Some (g, low, rd1, a3) \<Rightarrow>
              seq (telemetry hw t rd1 g low (web_step hw rd1 g a3)) (\<lambda>a4. Go (end_cycle hw a4))))"

text \<open>From the button to the end of the cycle.\<close>

definition drive_steps :: "('s, 'n, 'c, 'b) hardware \<Rightarrow> u32 \<Rightarrow> ('s, 'n, 'c, 'b) app \<Rightarrow> ('s, 'n, 'c, 'b) app ctl" where
  "drive_steps hw t a =
     seq (reconnect_step hw (button_step hw t a)) (\<lambda>a1.
     seq (deep_step hw a1) (ride_steps hw t))"

text \<open>The part of an iteration that a running or failed update skips.\<close>

definition work_steps :: "('s, 'n, 'c, 'b) hardware \<Rightarrow> u32 \<Rightarrow> ('s, 'n, 'c, 'b) app \<Rightarrow> ('s, 'n, 'c, 'b) app ctl" where
  "work_steps hw t a =
     seq (handle_ble_commands hw t (self_test hw t (boot_check hw a))) (drive_steps hw t)"

definition loop_body :: "('s, 'n, 'c, 'b) hardware \<Rightarrow> ('s, 'n, 'c, 'b) app \<Rightarrow> ('s, 'n, 'c, 'b) app ctl" where
  "loop_body hw a =
     (let t = uptime hw a in
      seq (mirror_ota hw t a) (\<lambda>a1.
      seq (busy_step hw t a1) (\<lambda>a2.
      seq (fail_step hw a2) (work_steps hw t))))"

section \<open>Start-up\<close>

definition slot_events :: "(string \<times> bool \<times> string option) option \<Rightarrow> string list" where
  "slot_events si =
     (case si of
        None \<Rightarrow> []
      | Some (slot, pending, rolled) \<Rightarrow>
          [''slot '' @ slot @ (if pending then '' pending-verify'' else [])]
          @ (case rolled of Some r \<Rightarrow> [''rolled back from '' @ r] | None \<Rightarrow> []))"

definition boot_slot :: "ota_link option \<Rightarrow> (string \<times> bool \<times> string option) option" where
  "boot_slot = map_option (\<lambda>lk. (sh_slot (lk_shared lk), sh_pending_verify (lk_shared lk),
     sh_rolled_back_from (lk_shared lk)))"

text \<open>
  The state before the first iteration, from the board, the flash of the learner with the reset
  reason, the flash of the settings, and what BLE, the worker and the dashboard started as.
\<close>

definition app_init ::
  "('s, 'n, 'c, 'b) hardware \<Rightarrow> 's \<Rightarrow> 'n \<Rightarrow> u32 \<Rightarrow> 'c \<Rightarrow> 'b server option \<Rightarrow> ota_link option
    \<Rightarrow> web_diag option \<Rightarrow> ('s, 'n, 'c, 'b) app ctl" where
  "app_init hw s n reason c ble ota web =
     (let t = int (now (hw_uart hw) s);
          cfg = cfg_open (hw_cfg hw) c DEFAULT_BOOT_POLICY;
          si = boot_slot ota
      in case set_bands new_estimator FACTORY_BANDS NUM_GEARS of
           None \<Rightarrow> Stuck
         | Some e \<Rightarrow> derive_and_install
             \<lparr>ap_kds = kds_new s, ap_learner = learner_new (hw_nvs hw) n reason, ap_config = cfg,
              ap_ble = ble, ap_ota = ota, ap_slot = si, ap_est = e, ap_learned = 0, ap_boot = t,
              ap_last_reconnect = t - RECONNECT_INTERVAL, ap_last_save = t,
              ap_brightness = min (unat (cfg_brightness_idx (cs_cfg cfg))) (length BRIGHTNESS_STEPS - 1),
              ap_button_down = False, ap_button_at = t, ap_neutral_was = False, ap_cycle = 0,
              ap_interlock = None, ap_prev_rpm = None, ap_flash_until = t - 1000000,
              ap_last_frame = None,
              ap_events = foldl (\<lambda>r e. ring_push r 0 e) [] ((''boot fw '' @ hw_fw_version hw) # slot_events si),
              ap_last_publish = t - BLE_SLOW_PUBLISH, ap_published = (Map.empty, Map.empty),
              ap_boot_check_done = False,
              ap_self_test_done = (case si of Some (_, p, _) \<Rightarrow> \<not> p | None \<Rightarrow> True),
              ap_ota_status = default_ota, ap_wifi_status = default_wifi, ap_fail_until = None,
              ap_ota_was_busy = False, ap_link_was_up = False, ap_web = web, ap_regs = None,
              ap_deep = None, ap_demo_start = t\<rparr>)"

lemmas main_consts [model_defs] = DIAG_SCAN_def DEMO_MODE_def DEMO_STEP_def WIFI_DIAG_def DEEP_SCAN_def shipped_build_def HARDWARE_def DEFAULT_BOOT_POLICY_def BOOT_CHECK_DELAY_def
  SELF_TEST_UPTIME_def BLE_SLOW_PUBLISH_def OTA_FAIL_SHOW_def POLL_INTERVAL_def
  RECONNECT_INTERVAL_def BRIGHTNESS_STEPS_def LEARN_SAVE_INTERVAL_def LEARN_RESET_HOLD_def
  INTERLOCK_EVERY_N_CYCLES_def

end
