(* ===== verification/Main_Total.thy ===== *)
theory Main_Total
  imports Main_Loop
begin

text \<open>
  Progress of the main loop of \<open>Main_Loop\<close>: the result of a step, the well-formed states, one
  preservation lemma per step, and the loop with everything around it as a machine that gets stuck
  only by an update status too long for the phone (\<open>hangs\<close>).
\<close>

section \<open>Results of steps\<close>

text \<open>A step that ends, in a state with a property.\<close>

definition lands :: "('x \<Rightarrow> bool) \<Rightarrow> 'x ctl \<Rightarrow> bool" where
  "lands P q \<longleftrightarrow> (case q of Stuck \<Rightarrow> False | Rebooted x \<Rightarrow> P x | Again x \<Rightarrow> P x | Go x \<Rightarrow> P x)"

definition ends_in :: "'x ctl \<Rightarrow> 'x \<Rightarrow> bool" where
  "ends_in q x \<longleftrightarrow> q = Go x \<or> q = Again x \<or> q = Rebooted x"

lemma lands_simps [simp]:
  "lands P (Go x) = P x" "lands P (Again x) = P x" "lands P (Rebooted x) = P x" "\<not> lands P Stuck"
  by (simp_all add: lands_def)

lemma lands_seq: "lands P q \<Longrightarrow> (\<And>x. P x \<Longrightarrow> lands P (f x)) \<Longrightarrow> lands P (seq q f)"
  by (cases q) (simp_all add: seq_def)

lemma seq_Go [simp]: "seq (Go x) f = f x"
  by (simp add: seq_def)

section \<open>Well-formed states\<close>

definition small_ring :: "event_ring \<Rightarrow> bool" where
  "small_ring r \<longleftrightarrow> length r \<le> CAPACITY \<and> list_all (\<lambda>(t, e). length e \<le> 48) r"

text \<open>The update status has a body: its fields but the notes fit an attribute.\<close>

definition short_status :: "ota_status \<Rightarrow> bool" where
  "short_status s \<longleftrightarrow> length (ota_body (no_notes s)) \<le> MAX_ATTR_LEN"

definition link_ok :: "ota_link \<Rightarrow> bool" where
  "link_ok lk \<longleftrightarrow> length (lk_queue lk) \<le> 4"

text \<open>With the BLE service up, the status the loop has seen is one it can tell the phone.\<close>

definition app_ok :: "('s, 'n, 'c, 'b) app \<Rightarrow> bool" where
  "app_ok a \<longleftrightarrow> ap_brightness a < length BRIGHTNESS_STEPS \<and> est_inv (ap_est a)
     \<and> small_ring (ap_events a) \<and> (ap_ble a \<noteq> None \<longrightarrow> short_status (ap_ota_status a))
     \<and> pred_option server_ok (ap_ble a) \<and> pred_option link_ok (ap_ota a)
     \<and> (ap_ota_was_busy a \<longrightarrow> \<not> k_connected (ap_kds a))"

text \<open>
  The next iteration has a status for the phone with no body that fits an attribute: the trimming of
  its notes does not end.
\<close>

definition hangs :: "('s, 'n, 'c, 'b) app \<Rightarrow> bool" where
  "hangs a \<longleftrightarrow> ap_ble a \<noteq> None
     \<and> pred_option (\<lambda>lk. sh_changed (lk_shared lk) \<and> \<not> short_status (sh_ota (lk_shared lk))) (ap_ota a) \<and> ap_ota a \<noteq> None"

lemma app_ok_other [simp]:
  "app_ok (a\<lparr>ap_learner := l\<rparr>) = app_ok a" "app_ok (a\<lparr>ap_config := c\<rparr>) = app_ok a"
  "app_ok (a\<lparr>ap_learned := n\<rparr>) = app_ok a" "app_ok (a\<lparr>ap_last_reconnect := t\<rparr>) = app_ok a"
  "app_ok (a\<lparr>ap_last_save := t\<rparr>) = app_ok a" "app_ok (a\<lparr>ap_button_down := d\<rparr>) = app_ok a"
  "app_ok (a\<lparr>ap_button_at := t\<rparr>) = app_ok a" "app_ok (a\<lparr>ap_neutral_was := d\<rparr>) = app_ok a"
  "app_ok (a\<lparr>ap_cycle := w\<rparr>) = app_ok a" "app_ok (a\<lparr>ap_interlock := i\<rparr>) = app_ok a"
  "app_ok (a\<lparr>ap_prev_rpm := pr\<rparr>) = app_ok a" "app_ok (a\<lparr>ap_flash_until := t\<rparr>) = app_ok a"
  "app_ok (a\<lparr>ap_last_frame := fr\<rparr>) = app_ok a" "app_ok (a\<lparr>ap_last_publish := t\<rparr>) = app_ok a"
  "app_ok (a\<lparr>ap_published := pb\<rparr>) = app_ok a" "app_ok (a\<lparr>ap_boot_check_done := d\<rparr>) = app_ok a"
  "app_ok (a\<lparr>ap_self_test_done := d\<rparr>) = app_ok a" "app_ok (a\<lparr>ap_wifi_status := w'\<rparr>) = app_ok a"
  "app_ok (a\<lparr>ap_fail_until := f\<rparr>) = app_ok a" "app_ok (a\<lparr>ap_link_was_up := d\<rparr>) = app_ok a"
  "app_ok (a\<lparr>ap_web := wb\<rparr>) = app_ok a" "app_ok (a\<lparr>ap_regs := rg\<rparr>) = app_ok a"
  "app_ok (a\<lparr>ap_deep := dp\<rparr>) = app_ok a"
  by (simp_all add: app_ok_def)

lemma small_ring_push: "small_ring r \<Longrightarrow> small_ring (ring_push r t e)"
  using truncate_len [of e 48]
  by (auto simp: small_ring_def ring_push_def CAPACITY_def list_all_iff dest!: in_set_dropD)

lemma set_io_ok [simp]: "app_ok (set_io s a) = app_ok a" "app_ok (delay hw n a) = app_ok a"
  by (simp_all add: app_ok_def set_io_def delay_def)

lemma led_ok [simp]: "app_ok (snd (led_send hw fr a)) = app_ok a"
  by (simp add: led_send_def case_prod_beta)

lemma push_ok [inv_intros]: "app_ok a \<Longrightarrow> app_ok (push_event t e a)"
  by (simp add: app_ok_def push_event_def small_ring_push)

lemma save_ok [simp]: "app_ok (snd (save_learner hw a)) = app_ok a"
  by (simp add: save_learner_def case_prod_beta)

lemma wipe_ok [inv_intros]: "app_ok a \<Longrightarrow> app_ok (wipe_calibration hw a)"
  by (simp add: app_ok_def wipe_calibration_def est_inv_def bands_ok_def clear_bands_def)

lemma brightness_some: "app_ok a \<Longrightarrow> \<exists>br. brightness a = Some br"
  by (simp add: app_ok_def brightness_def)

lemma bands_spec_len: "bands_spec refs ps = Some (bs, n) \<Longrightarrow> length bs = length refs"
  by (auto simp: bands_spec_def Let_def split: if_splits)

lemma derive_ok: "app_ok a \<Longrightarrow> lands app_ok (derive_and_install a)"
proof -
  assume a: "app_ok a"
  have d: "learner_derive (ap_learner a) FACTORY_BANDS
      = Some (bands_spec FACTORY_BANDS (peaks (ln_hist (ap_learner a))))"
    unfolding learner_derive_def using factory_good by (intro derive_spec)
  show ?thesis
  proof (cases "bands_spec FACTORY_BANDS (peaks (ln_hist (ap_learner a)))")
    case None
    then show ?thesis using a d by (simp add: derive_and_install_def)
  next
    case (Some p)
    then obtain bs n where p: "bands_spec FACTORY_BANDS (peaks (ln_hist (ap_learner a))) = Some (bs, n)"
      by (cases p) auto
    with bands_spec_len [OF p] factory_good a d show ?thesis
      by (simp add: derive_and_install_def set_bands_def NUM_GEARS_def app_ok_def est_inv_def bands_ok_def)
  qed
qed

lemma request_ok [inv_intros]: "app_ok a \<Longrightarrow> app_ok (request r a)"
  by (cases "ap_ota a") (auto simp: app_ok_def request_def lk_request_def link_ok_def try_send_def)

lemma upd_link_ok:
  "app_ok a \<Longrightarrow> (\<And>sh. sh_ota (f sh) = sh_ota sh) \<Longrightarrow> app_ok (upd_link f a)"
  by (cases "ap_ota a") (auto simp: app_ok_def upd_link_def link_ok_def)

lemma neutral_tick_ok [inv_intros]: "app_ok a \<Longrightarrow> app_ok (neutral_tick hw up br a)"
proof -
  assume a: "app_ok a"
  let ?a = "\<lambda>e. a\<lparr>ap_neutral_was := neutral_low hw a, ap_est := e\<rparr>"
  have "app_ok (?a (fst (update (ap_est a) i)))" for i
    using a est_inv_update [of "ap_est a" i] by (simp add: app_ok_def)
  then show ?thesis using a by (auto simp: neutral_tick_def Let_def split: prod.split) (metis fst_conv)+
qed

lemma upd_config_ok [simp]: "app_ok (upd_config f a) = app_ok a"
  by (simp add: upd_config_def)

lemma credentials_ok [inv_intros]: "app_ok a \<Longrightarrow> app_ok (on_credentials hw t w a)"
  by (simp add: on_credentials_def request_ok push_ok)

lemma command_ok: "app_ok a \<Longrightarrow> lands app_ok (on_command hw t c a)"
proof (cases c)
  case (SetBrightness i)
  assume "app_ok a"
  then show ?thesis
    by (simp add: SetBrightness on_command_def Let_def app_ok_def upd_config_def BRIGHTNESS_STEPS_def)
next
  case ForgetWifi
  assume "app_ok a"
  then show ?thesis by (simp add: ForgetWifi on_command_def push_ok upd_link_ok upd_wifi_def)
qed (simp_all add: on_command_def push_ok wipe_ok request_ok)

lemma commands_ok: "app_ok a \<Longrightarrow> lands app_ok (on_commands hw t cs a)"
  by (induction cs arbitrary: a) (auto intro: lands_seq command_ok)

lemma handle_ok: "app_ok a \<Longrightarrow> lands app_ok (handle_ble_commands hw t a)"
proof (cases "ap_ble a")
  case (Some b)
  assume a: "app_ok a"
  have f: "app_ok a' \<Longrightarrow> app_ok (foldl (\<lambda>a w. on_credentials hw t w a) a' ws)" for a' ws
    by (induction ws arbitrary: a') (simp_all add: credentials_ok)
  have "app_ok (a\<lparr>ap_ble := Some (b\<lparr>bs_cmds := [], bs_wifi := []\<rparr>)\<rparr>)"
    using a Some by (simp add: app_ok_def server_ok_def)
  then show ?thesis using Some by (simp add: handle_ble_commands_def Let_def f commands_ok)
qed (simp add: handle_ble_commands_def)

lemma ble_ok: "app_ok a \<Longrightarrow> ap_ble a \<noteq> None \<Longrightarrow> server_ok b \<Longrightarrow> app_ok (a\<lparr>ap_ble := Some b\<rparr>)"
  by (simp add: app_ok_def)

lemma ble_was_ok: "app_ok a \<Longrightarrow> ap_ble a = Some b \<Longrightarrow> server_ok b"
  by (simp add: app_ok_def)

lemma note_changes_ok:
  "app_ok a \<Longrightarrow> app_ok (note_ota_change tn t o' a)" "app_ok a \<Longrightarrow> app_ok (note_wifi_change t w a)"
  by (auto simp: note_ota_change_def note_wifi_change_def Let_def push_ok split: option.split)

lemma note_changes_links [simp]:
  "ap_ble (note_ota_change tn t o' a) = ap_ble a" "ap_ble (note_wifi_change t w a) = ap_ble a"
  by (auto simp: note_ota_change_def note_wifi_change_def Let_def push_event_def split: option.split)

lemma ota_hangs: "ota_status_json s = None \<longleftrightarrow> \<not> short_status s"
  using ota_status_returns_iff_facts(1) [of s] by (cases "ota_status_json s") (auto simp: short_status_def MAX_ATTR_LEN_def)

lemma mirror_ok:
  assumes a: "app_ok a" and h: "\<not> hangs a"
  shows "lands app_ok (mirror_ota hw t a)"
proof (cases "ap_ota a")
  case (Some lk)
  let ?sh = "lk_shared lk"
  let ?a1 = "upd_link (\<lambda>sh. sh\<lparr>sh_changed := False\<rparr>) a"
  let ?a2 = "note_wifi_change t (sh_wifi ?sh) (note_ota_change (clock hw a) t (sh_ota ?sh) ?a1)"
  let ?a3 = "?a2\<lparr>ap_ota_status := sh_ota ?sh, ap_wifi_status := sh_wifi ?sh\<rparr>"
  have "app_ok ?a2" using a by (simp add: note_changes_ok upd_link_ok)
  moreover have b: "ap_ble (upd_link (\<lambda>sh. sh\<lparr>sh_changed := False\<rparr>) a) = ap_ble a" by (simp add: upd_link_def)
  ultimately have a3: "app_ok ?a3" if "ap_ble a \<noteq> None \<longrightarrow> short_status (sh_ota ?sh)"
    using that by (simp add: app_ok_def)
  show ?thesis
  proof (cases "sh_changed ?sh \<and> ap_ble a \<noteq> None")
    case True
    then have s: "short_status (sh_ota ?sh)" using h Some by (simp add: hangs_def)
    then obtain body where "ota_status_json (sh_ota ?sh) = Some body" using ota_hangs by blast
    then show ?thesis using True Some b a3 s ble_was_ok [OF a]
      by (auto simp: mirror_ota_def Let_def split: option.split intro!: ble_ok)
  qed (use Some a a3 b in \<open>auto simp: mirror_ota_def Let_def split: option.split\<close>)
qed (use a in \<open>simp add: mirror_ota_def\<close>)

lemma hang_stuck: "hangs a \<Longrightarrow> loop_body hw a = Stuck"
proof -
  assume h: "hangs a"
  then obtain lk b where lk: "ap_ota a = Some lk" "ap_ble a = Some b" by (auto simp: hangs_def)
  moreover have "ap_ble (upd_link (\<lambda>sh. sh\<lparr>sh_changed := False\<rparr>) a) = ap_ble a" by (simp add: upd_link_def)
  moreover have "ota_status_json (sh_ota (lk_shared lk)) = None" using h lk by (simp add: hangs_def ota_hangs)
  ultimately have "mirror_ota hw t a = Stuck" for t using h
    by (auto simp: mirror_ota_def hangs_def Let_def)
  then show ?thesis by (simp add: loop_body_def Let_def seq_def)
qed

lemma show_ok [simp]: "app_ok (show_frame hw fr a) = app_ok a"
  by (simp add: show_frame_def)

lemma pause_ok: "app_ok a \<Longrightarrow> app_ok (pause_polling hw a)"
  by (auto simp: app_ok_def pause_polling_def save_learner_def case_prod_beta)

lemma busy_ok: "app_ok a \<Longrightarrow> lands app_ok (busy_step hw t a)"
proof (cases "writing (o_state (ap_ota_status a))")
  case True
  assume "app_ok a"
  then have p: "app_ok (pause_polling hw a)" by (rule pause_ok)
  then obtain br where "brightness (pause_polling hw a) = Some br" using brightness_some by blast
  then show ?thesis using True p by (auto simp: busy_step_def intro!: lands_seq handle_ok)
qed (simp add: busy_step_def app_ok_def)

lemma fail_ok: "app_ok a \<Longrightarrow> lands app_ok (fail_step hw a)"
  using brightness_some by (fastforce simp: fail_step_def split: option.split)

lemma boot_check_ok: "app_ok a \<Longrightarrow> app_ok (boot_check hw a)"
  by (simp add: boot_check_def Let_def request_ok)

lemma self_test_ok: "app_ok a \<Longrightarrow> app_ok (self_test hw t a)"
proof -
  assume a: "app_ok a"
  have "led_send hw fr (a\<lparr>ap_self_test_done := True\<rparr>) = (ok, a2) \<Longrightarrow> app_ok a2" for fr ok a2
    using led_ok [of hw fr "a\<lparr>ap_self_test_done := True\<rparr>"] a by simp
  then show ?thesis
    using a by (auto simp: self_test_def Let_def intro!: push_ok request_ok split: prod.split if_splits)
qed

lemma button_ok: "app_ok a \<Longrightarrow> app_ok (button_step hw t a)"
proof -
  assume a: "app_ok a"
  have b: "app_ok (a\<lparr>ap_brightness := i mod length BRIGHTNESS_STEPS\<rparr>)" for i
    using a by (simp add: app_ok_def BRIGHTNESS_STEPS_def)
  show ?thesis
    using a by (auto simp: button_step_def Let_def b push_ok wipe_ok)
qed

lemma busy_flag: "app_ok a \<Longrightarrow> ap_ota_was_busy a = False \<Longrightarrow> app_ok (a\<lparr>ap_kds := k\<rparr>)"
  by (simp add: app_ok_def)

lemma reconnect_ok:
  assumes "drains (hw_uart hw) left" "app_ok a" "\<not> ap_ota_was_busy a"
  shows "lands (\<lambda>a'. app_ok a' \<and> \<not> ap_ota_was_busy a') (reconnect_step hw a)"
proof -
  obtain ok k where "start_communication (hw_uart hw) (ap_kds a) = Some (ok, k)"
    using start_returns [OF assms(1)] by blast
  then show ?thesis using assms(2,3) by (simp add: reconnect_step_def) (simp add: app_ok_def)
qed

section \<open>The scans always come back\<close>

lemma idents_return: "\<exists>k'. deep_idents u is k = Some k'"
proof (induction "is" arbitrary: k)
  case (Cons i js)
  obtain d k1 where "read_ident u i k = Some (d, k1)"
    using query_returns [of "[SVC_READ_IDENT, i]" u] by (fastforce simp: read_ident_def MAX_PAYLOAD_def)
  then show ?case using Cons.IH [of k1] by simp
qed simp

lemma common_returns: "\<exists>d k'. read_common u i k = Some (d, k')"
  using query_returns [of "[SVC_READ_COMMON, ucast (drop_bit 8 i), ucast i]" u SVC_READ_COMMON_OK
    "[ucast (drop_bit 8 i), ucast i]" k]
  by (auto simp: read_common_def Let_def MAX_PAYLOAD_def)

lemma commons_return: "\<exists>f k'. deep_commons u is found k = Some (f, k')"
proof (induction "is" arbitrary: found k)
  case (Cons i js)
  obtain d k1 where "read_common u i k = Some (d, k1)" using common_returns by blast
  then show ?case using Cons.IH by (simp add: Let_def)
qed simp

lemma watch_returns:
  assumes "\<And>i k. \<exists>d k'. rd i k = Some (d, k')"
  shows "\<exists>t al k'. watch rd tbl k = Some (t, al, k') \<and> map fst t = map fst tbl"
proof (induction tbl arbitrary: k)
  case (Cons p tbl)
  obtain d k1 where "rd (fst p) k = Some (d, k1)" using assms by blast
  moreover obtain t al k2 where "watch rd tbl k1 = Some (t, al, k2)" "map fst t = map fst tbl" using Cons.IH by blast
  ultimately show ?case by (cases p) simp
qed auto

lemma scan_returns: "\<exists>t k'. scan_from u rs found k = Some (t, k')"
proof (induction rs arbitrary: found k)
  case (Cons r' rs)
  obtain d k1 where "read_register u r' k = Some (d, k1)" using register_returns by blast
  then show ?case using Cons.IH by (cases d) simp_all
qed simp

lemma deep_ok:
  assumes "app_ok a" "\<not> ap_ota_was_busy a"
  shows "lands (\<lambda>a'. app_ok a' \<and> \<not> ap_ota_was_busy a') (deep_step hw a)"
proof (cases "ap_deep a")
  case None
  obtain k1 where "deep_idents (hw_uart hw) (map of_nat [0..<256]) (ap_kds a) = Some k1" using idents_return by blast
  moreover obtain f k2 where "deep_commons (hw_uart hw) (map of_nat [0..<4096]) [] k1 = Some (f, k2)"
    using commons_return by blast
  ultimately show ?thesis using assms None by (simp add: deep_step_def app_ok_def del: upt_conv_Cons)
next
  case (Some tbl)
  obtain t al k1 where "watch (read_common (hw_uart hw)) tbl (ap_kds a) = Some (t, al, k1)"
    using watch_returns [of "read_common (hw_uart hw)" tbl "ap_kds a", OF common_returns] by blast
  then show ?thesis using assms Some by (simp add: deep_step_def app_ok_def)
qed

lemma scan_ok:
  assumes "app_ok a" "\<not> ap_ota_was_busy a"
  shows "\<exists>link a'. scan_step hw a = Some (link, a') \<and> app_ok a' \<and> \<not> ap_ota_was_busy a'"
proof (cases "ap_regs a")
  case None
  obtain t k1 where "scan_registers (hw_uart hw) (ap_kds a) = Some (t, k1)"
    using scan_returns by (fastforce simp: scan_registers_def)
  then show ?thesis using assms None
    by (cases "k_connected (ap_kds a) \<and> bd_scan (hw_build hw)") (auto simp: scan_step_def app_ok_def)
next
  case (Some tbl)
  obtain t al k1 where "watch (read_register (hw_uart hw)) tbl (ap_kds a) = Some (t, al, k1)"
    using watch_returns [of "read_register (hw_uart hw)" tbl "ap_kds a"] register_returns by blast
  then show ?thesis using assms Some
    by (cases "k_connected (ap_kds a) \<and> bd_scan (hw_build hw)") (auto simp: scan_step_def app_ok_def Let_def)
qed

section \<open>A poll always comes back\<close>

lemma align_total: "is_fin r \<Longrightarrow> 0 \<le> r \<Longrightarrow> \<exists>y. time_align_rpm r p d l = Some y"
proof -
  assume "is_fin r" "0 \<le> r"
  from align_window [OF this] have "r - r * dec 10 2 \<le> r + r * dec 10 2" by (rule f32_le_trans)
  then show ?thesis by (simp add: time_align_rpm_def f32_clamp_def Let_def)
qed

lemma rpm_ok: "decode_rpm d = Some r \<Longrightarrow> is_fin r \<and> 0 \<le> r"
proof -
  assume d: "decode_rpm d = Some r"
  then obtain hi lo ds where "d = hi # lo # ds" by (cases d rule: decode_rpm.cases) auto
  with decoded_values_exact_facts(1) [of hi lo ds] d show ?thesis by auto
qed

lemma read_rpm_returns:
  "\<exists>ro k'. read_rpm u k = Some (ro, k') \<and> k_connected k' = k_connected k
     \<and> (\<forall>r. ro = Some r \<longrightarrow> is_fin r \<and> 0 \<le> r)"
proof -
  obtain d k' where "read_register u REG_RPM k = Some (d, k')" "k_connected k' = k_connected k"
    using register_returns by blast
  then show ?thesis by (cases d) (auto simp: read_rpm_def rpm_ok)
qed

lemma read_speed_returns:
  "\<exists>so k'. read_speed u k = Some (so, k') \<and> k_connected k' = k_connected k"
  using register_returns [of u REG_SPEED k] by (auto simp: read_speed_def)

lemma align_returns:
  "(\<And>r. ro = Some r \<Longrightarrow> is_fin r \<and> 0 \<le> r) \<Longrightarrow> \<exists>al. align ro prev so t1 t2 = Some al"
  using align_total by (cases ro; cases prev) (auto simp: align_def split: prod.split)

lemma interlock_ok:
  assumes "app_ok a" "\<not> ap_ota_was_busy a"
  shows "\<exists>a'. interlock_step hw a = Some a' \<and> app_ok a' \<and> \<not> ap_ota_was_busy a'"
proof -
  obtain d k' where "read_register (hw_uart hw) REG_INTERLOCK (ap_kds a) = Some (d, k')"
    using register_returns by blast
  then obtain v where v: "read_interlock (hw_uart hw) (ap_kds a) = Some (v, k')"
    by (auto simp: read_interlock_def split: option.split)
  show ?thesis
    using assms by (cases v) (auto simp: interlock_step_def v app_ok_def)
qed

lemma neutral_tick_fields [simp]:
  "ap_ota_was_busy (neutral_tick hw up br a) = ap_ota_was_busy a"
  by (simp add: neutral_tick_def Let_def led_send_def set_io_def case_prod_beta)

lemma drop_ok: "app_ok a \<Longrightarrow> \<not> ap_ota_was_busy a \<Longrightarrow> app_ok (drop_link hw t a)"
  unfolding drop_link_def by (intro push_ok) (subst save_ok, simp add: app_ok_def)

lemma learn_ok [simp]: "app_ok (learn_step hw al so a) = app_ok a"
  by (simp add: learn_step_def split: option.split)

lemma poll_ok:
  assumes a: "app_ok a" "\<not> ap_ota_was_busy a"
  shows "\<exists>rd a'. poll hw t a = Some (rd, a') \<and> app_ok a'"
proof -
  obtain br where br: "brightness a = Some br" using brightness_some [OF a(1)] by blast
  obtain ro k1 where r: "read_rpm (hw_uart hw) (ap_kds a) = Some (ro, k1)"
    "\<And>r. ro = Some r \<Longrightarrow> is_fin r \<and> 0 \<le> r"
    using read_rpm_returns by metis
  let ?a2 = "neutral_tick hw True br (a\<lparr>ap_kds := k1\<rparr>)"
  have a2: "app_ok ?a2" "\<not> ap_ota_was_busy ?a2"
    using a by (simp_all add: busy_flag neutral_tick_ok)
  obtain so k2 where s: "read_speed (hw_uart hw) (ap_kds ?a2) = Some (so, k2)"
    using read_speed_returns by blast
  let ?a3 = "?a2\<lparr>ap_kds := k2\<rparr>"
  let ?t = "clock hw (a\<lparr>ap_kds := k1\<rparr>)"
  obtain al where al: "align ro (ap_prev_rpm ?a2) so ?t (clock hw ?a3) = Some al"
    using align_returns r(2) by metis
  let ?a4 = "?a3\<lparr>ap_prev_rpm := (case ro of Some r \<Rightarrow> Some (r, ?t) | None \<Rightarrow> ap_prev_rpm ?a2)\<rparr>"
  have a4: "app_ok (neutral_tick hw True br ?a4)" "\<not> ap_ota_was_busy (neutral_tick hw True br ?a4)"
    using a2 by (simp_all add: busy_flag neutral_tick_ok)
  obtain a5 where "interlock_step hw (neutral_tick hw True br ?a4) = Some a5" "app_ok a5" "\<not> ap_ota_was_busy a5"
    using interlock_ok [OF a4] by blast
  then show ?thesis using br r(1) s al a by (cases ro; cases so) (auto simp: poll_def Let_def drop_ok)
qed

section \<open>The rest of the cycle\<close>

lemma persist_ok: "app_ok a \<Longrightarrow> lands app_ok (persist_step hw a)"
proof -
  assume a: "app_ok a"
  obtain ok a1 where s: "save_learner hw (a\<lparr>ap_last_save := clock hw a\<rparr>) = (ok, a1)" by fastforce
  then have "app_ok a1" using a save_ok [of hw "a\<lparr>ap_last_save := clock hw a\<rparr>"] by simp
  then show ?thesis using a s by (cases ok) (auto simp: persist_step_def intro!: derive_ok)
qed

lemma forget_ok [simp]: "app_ok (forget_learned a) = app_ok a"
  by (simp add: forget_learned_def)

lemma refresh_ok [simp]: "app_ok (refresh_frame hw fr a) = app_ok a"
  by (simp add: refresh_frame_def)

lemma update_gear_valid: "est_inv e \<Longrightarrow> update e i = (e', g) \<Longrightarrow> valid_gear g"
  using est_inv_update [of e i]
  by (auto simp: est_inv_def update_def Let_def split: if_splits prod.splits)

lemma display_ok:
  assumes a: "app_ok a"
  shows "\<exists>g low rd1 a'. display_step hw rd a = Some (g, low, rd1, a') \<and> app_ok a'"
proof -
  let ?i = "\<lparr>rpm = rd_aligned rd, speed = rd_speed rd, gear_reg = None,
    neutral_switch = neutral_low hw a, clutch_pulled = False\<rparr>"
  obtain e g where u: "update (ap_est a) ?i = (e, g)" by fastforce
  have "est_inv (ap_est a)" using a by (simp add: app_ok_def)
  with u have e: "est_inv e" using est_inv_update [of "ap_est a" ?i] by auto
  let ?a1 = "a\<lparr>ap_neutral_was := neutral_low hw a, ap_est := e\<rparr>"
  have a1: "app_ok ?a1" using a e by (simp add: app_ok_def)
  then obtain br where "brightness ?a1 = Some br" using brightness_some by blast
  then show ?thesis using u e a1 by (cases "bd_demo (hw_build hw)") (simp_all add: display_step_def Let_def)
qed

lemma web_ok: "app_ok a \<Longrightarrow> app_ok (web_step hw rd g a)"
  by (simp add: web_step_def Let_def wipe_ok split: option.split)

lemma publish_if_ok:
  "server_ok (fst p) \<Longrightarrow> server_ok (fst (publish_if_changed bt at v p))"
  "server_ok (fst p) \<Longrightarrow> server_ok (fst (publish_bytes_if_changed bt at w p))"
  by (auto simp: publish_if_changed_def publish_bytes_if_changed_def split: prod.split)

lemma publish_fold_ok:
  "server_ok (fst p) \<Longrightarrow> server_ok (fst (foldl (\<lambda>p (at, v). publish_if_changed bt at v p) p vs))"
  "server_ok (fst p) \<Longrightarrow> server_ok (fst (foldl (\<lambda>p (at, v). publish_bytes_if_changed bt at v p) p ws))"
  by (induction vs arbitrary: p, simp_all add: publish_if_ok split: prod.split)
    (induction ws arbitrary: p, simp_all add: publish_if_ok split: prod.split)

lemma slow_ok:
  assumes "app_ok a" "ap_ble a \<noteq> None" "server_ok b"
  shows "lands app_ok (slow_publish hw t b a)"
proof -
  obtain body where "ota_status_json (ap_ota_status a) = Some body"
    using assms(1,2) ota_returns by (auto simp: app_ok_def short_status_def)
  then obtain vs where vs: "slow_texts hw t b a = Some vs" by (simp add: slow_texts_def)
  let ?p1 = "foldl (\<lambda>p (at, v). publish_if_changed (hw_bt hw) at v p) (b, ap_published a) vs"
  obtain b2 pub where "foldl (\<lambda>p (at, v). publish_bytes_if_changed (hw_bt hw) at v p) ?p1 (slow_pages a) = (b2, pub)"
    by (rule prod.exhaust)
  moreover from this have "server_ok b2"
    using publish_fold_ok(2) [of ?p1] publish_fold_ok(1) [of "(b, ap_published a)"] assms(3) by (metis fst_conv)
  ultimately show ?thesis using vs assms(1,2) by (simp add: slow_publish_def ble_ok)
qed

lemma live_returns: "\<exists>v. live_encode l = Some v"
  using live_u16_total [of "l_rpm l"] live_u16_total [of "l_speed l"] by (auto simp: live_encode_def)

lemma link_event_ok: "app_ok a \<Longrightarrow> app_ok (link_event up t a)"
  by (simp add: link_event_def push_ok)

lemma telemetry_ok:
  assumes a: "app_ok a"
  shows "lands app_ok (telemetry hw t rd g low a)"
proof (cases "ap_ble (link_event (rd_link_up rd) t a)")
  case (Some b)
  let ?a2 = "note_moving rd (link_event (rd_link_up rd) t a)"
  have a1: "app_ok (link_event (rd_link_up rd) t a)" using a by (rule link_event_ok)
  then have a2: "app_ok ?a2" by (auto simp: note_moving_def intro: upd_link_ok)
  obtain b1 where l: "live_notify hw (live_now hw t rd g low ?a2) b = Some b1" and b1: "server_ok b1"
    using live_returns [of "live_now hw t rd g low ?a2"] ble_was_ok [OF a1 Some] that
    by (cases "live_subscribed b") (auto simp: live_notify_def)
  have "ap_ble ?a2 \<noteq> None" using Some by (simp add: note_moving_def upd_link_def)
  with a2 have a3: "app_ok (?a2\<lparr>ap_ble := Some b1\<rparr>)" using b1 by (rule ble_ok)
  then show ?thesis using Some l b1
    by (simp add: telemetry_def Let_def slow_ok)
qed (use a in \<open>simp add: telemetry_def link_event_ok\<close>)

lemma ride_ok:
  assumes "app_ok a" "\<not> ap_ota_was_busy a"
  shows "lands app_ok (ride_steps hw t a)"
proof -
  obtain link a0 where s: "scan_step hw a = Some (link, a0)" "app_ok a0" "\<not> ap_ota_was_busy a0"
    using scan_ok [OF assms] by blast
  obtain rd a1 where p: "poll hw t a0 = Some (rd, a1)" "app_ok a1" using poll_ok [OF s(2,3)] by blast
  have "lands app_ok (case display_step hw rd' (forget_learned a2) of None \<Rightarrow> Stuck
      | Some (g, low, rd1, a3) \<Rightarrow> seq (telemetry hw t rd1 g low (web_step hw rd1 g a3)) (\<lambda>a4. Go (end_cycle hw a4)))"
    if a2: "app_ok a2" for a2 rd'
  proof -
    obtain g low rd1 a3 where "display_step hw rd' (forget_learned a2) = Some (g, low, rd1, a3)" "app_ok a3"
      using display_ok [of "forget_learned a2" hw rd'] a2 by auto
    then show ?thesis by (auto simp: end_cycle_def intro!: lands_seq telemetry_ok web_ok)
  qed
  with s p show ?thesis by (auto simp: ride_steps_def Let_def intro!: lands_seq persist_ok)
qed

text \<open>Past the busy step the flag is down.\<close>

definition free :: "('s, 'n, 'c, 'b) app \<Rightarrow> bool" where
  "free a \<longleftrightarrow> app_ok a \<and> \<not> ap_ota_was_busy a"

lemma lands_and: "lands P q \<Longrightarrow> lands Q q \<Longrightarrow> lands (\<lambda>x. P x \<and> Q x) q"
  by (cases q) simp_all

lemma lands_weaken: "lands P q \<Longrightarrow> (\<And>x. P x \<Longrightarrow> Q x) \<Longrightarrow> lands Q q"
  by (cases q) simp_all

lemma lands_seq_Go: "lands P q \<Longrightarrow> (\<And>x. q = Go x \<Longrightarrow> P x \<Longrightarrow> lands P (f x)) \<Longrightarrow> lands P (seq q f)"
  by (cases q) (simp_all add: seq_def)

text \<open>A step that, when it ends, leaves a part of the state as it was.\<close>

definition leaves :: "('x \<Rightarrow> 'v) \<Rightarrow> 'v \<Rightarrow> 'x ctl \<Rightarrow> bool" where
  "leaves g v q \<longleftrightarrow> q = Stuck \<or> lands (\<lambda>x. g x = v) q"

lemma leaves_simps [simp]:
  "leaves g v Stuck" "leaves g v (Go x) = (g x = v)" "leaves g v (Again x) = (g x = v)"
  "leaves g v (Rebooted x) = (g x = v)"
  by (simp_all add: leaves_def)

lemma leaves_seq: "leaves g v q \<Longrightarrow> (\<And>x. g x = v \<Longrightarrow> leaves g v (f x)) \<Longrightarrow> leaves g v (seq q f)"
  by (cases q) (simp_all add: seq_def)

lemma lands_leaves: "lands P q \<Longrightarrow> leaves g v q \<Longrightarrow> lands (\<lambda>x. P x \<and> g x = v) q"
  by (cases q) simp_all

lemma leaves_weaken:
  assumes l: "leaves f (f a) q" and w: "\<And>x. f x = f a \<Longrightarrow> g x = g a"
  shows "leaves g (g a) q"
proof (cases q)
  case (Go x)
  then show ?thesis using l w [of x] by simp
next
  case (Again x)
  then show ?thesis using l w [of x] by simp
next
  case (Rebooted x)
  then show ?thesis using l w [of x] by simp
qed simp

text \<open>What no command of the app touches.\<close>

definition steady :: "('s, 'n, 'c, 'b) app \<Rightarrow> bool \<times> bool \<times> u32 \<times> rgb list option" where
  "steady a = (k_connected (ap_kds a), ap_ota_was_busy a, ap_cycle a, ap_last_frame a)"

lemma steady_steps [simp]:
  "steady (push_event t e a) = steady a" "steady (upd_config f a) = steady a"
  "steady (request r a) = steady a" "steady (upd_link g a) = steady a"
  "steady (set_io s a) = steady a" "steady (delay hw n a) = steady a"
  "steady (wipe_calibration hw a) = steady a" "steady (snd (save_learner hw a)) = steady a"
  "steady (a\<lparr>ap_brightness := i\<rparr>) = steady a" "steady (a\<lparr>ap_learner := l\<rparr>) = steady a"
  "steady (a\<lparr>ap_ble := b\<rparr>) = steady a"
  by (simp_all add: steady_def push_event_def upd_config_def request_def upd_link_def set_io_def delay_def
      wipe_calibration_def save_learner_def case_prod_beta)

lemma command_steady: "leaves steady (steady a) (on_command hw t c a)"
  by (cases c) (simp_all add: on_command_def Let_def)

lemma commands_steady: "leaves steady (steady a) (on_commands hw t cs a)"
proof (induction cs arbitrary: a)
  case (Cons c cs)
  show ?case unfolding on_commands.simps
    by (rule leaves_seq [OF command_steady], erule subst, rule Cons.IH)
qed simp

lemma credentials_steady [simp]: "steady (foldl (\<lambda>a w. on_credentials hw t w a) a ws) = steady a"
  by (induction ws arbitrary: a) (simp_all add: on_credentials_def)

lemma handle_steady: "leaves steady (steady a) (handle_ble_commands hw t a)"
proof (cases "ap_ble a")
  case (Some b)
  let ?a1 = "foldl (\<lambda>a w. on_credentials hw t w a) (a\<lparr>ap_ble := Some (b\<lparr>bs_cmds := [], bs_wifi := []\<rparr>)\<rparr>) (bs_wifi b)"
  have "steady ?a1 = steady a" by simp
  with commands_steady [of ?a1 hw t "bs_cmds b"] Some show ?thesis
    by (simp add: handle_ble_commands_def Let_def)
qed (simp add: handle_ble_commands_def)

lemma handle_flag: "leaves ap_ota_was_busy (ap_ota_was_busy a) (handle_ble_commands hw t a)"
  using leaves_weaken [where f = steady and g = ap_ota_was_busy, OF handle_steady, of a hw t]
  by (simp add: steady_def)

lemma handle_free: "free a \<Longrightarrow> lands free (handle_ble_commands hw t a)"
  unfolding free_def using lands_leaves [OF handle_ok handle_flag, of a hw t] by simp

lemma early_flags [simp]:
  "ap_ota_was_busy (boot_check hw a) = ap_ota_was_busy a"
  "ap_ota_was_busy (self_test hw t a) = ap_ota_was_busy a"
  "ap_ota_was_busy (button_step hw t a) = ap_ota_was_busy a"
  by (simp_all add: boot_check_def self_test_def button_step_def Let_def led_send_def set_io_def
      request_def push_event_def wipe_calibration_def upd_config_def case_prod_beta)

lemma drive_ok:
  assumes u: "drains (hw_uart hw) left" and a: "free a"
  shows "lands app_ok (drive_steps hw t a)"
proof -
  have "lands free (reconnect_step hw (button_step hw t a))"
    using a reconnect_ok [OF u button_ok, of a hw t] by (simp add: free_def [abs_def])
  moreover have "lands app_ok (seq (deep_step hw a1) (ride_steps hw t))" if "free a1" for a1
    using deep_ok [of a1 hw] ride_ok [of _ hw t] that by (cases "deep_step hw a1") (auto simp: seq_def free_def)
  ultimately show ?thesis
    by (cases "reconnect_step hw (button_step hw t a)") (simp_all add: drive_steps_def free_def seq_def)
qed

lemma work_ok:
  assumes u: "drains (hw_uart hw) left" and a: "free a"
  shows "lands app_ok (work_steps hw t a)"
proof -
  have "free (self_test hw t (boot_check hw a))"
    using a by (simp add: free_def boot_check_ok self_test_ok)
  from handle_free [OF this, of hw t] drive_ok [OF u] show ?thesis
    by (cases "handle_ble_commands hw t (self_test hw t (boot_check hw a))")
      (simp_all add: work_steps_def seq_def free_def)
qed

lemma loop_body_ok:
  fixes a :: "('s, 'n, 'c, 'b) app"
  assumes u: "drains (hw_uart hw) left" and a: "app_ok a" and h: "\<not> hangs a"
  shows "lands app_ok (loop_body hw a)"
proof -
  let ?t = "uptime hw a"
  have rest: "lands app_ok (seq (fail_step hw a2) (work_steps hw ?t))" if "free a2" for a2
  proof (rule lands_seq_Go)
    show "lands app_ok (fail_step hw a2)" using that by (simp add: free_def fail_ok)
    fix a3 assume "fail_step hw a2 = Go a3" "app_ok a3"
    then have "free a3" using that by (auto simp: free_def fail_step_def split: option.splits if_splits)
    then show "lands app_ok (work_steps hw ?t a3)" by (rule work_ok [OF u])
  qed
  have busy: "free a2" if "busy_step hw ?t a1 = Go a2" "app_ok a2" for a1 a2
    using that by (auto simp: free_def busy_step_def Let_def seq_def split: if_splits option.splits ctl.splits)
  show ?thesis unfolding loop_body_def Let_def
  proof (rule lands_seq_Go [OF mirror_ok [OF a h]], rule lands_seq_Go)
    fix a1 a2 :: "('s, 'n, 'c, 'b) app"
    assume "app_ok a1"
    then show "lands app_ok (busy_step hw ?t a1)" by (rule busy_ok)
    assume "busy_step hw ?t a1 = Go a2" "app_ok a2"
    from rest [OF busy [OF this]] show "lands app_ok (seq (fail_step hw a2) (work_steps hw ?t))" .
  qed
qed

section \<open>Runs\<close>

text \<open>
  What happens between the steps of the loop: the board moves, the BLE server handles an event,
  the worker takes a request, reports its status, or confirms the running image.
\<close>

datatype ('s, 'b) main_event = Iterate | BoardMoves 's | BleEvent "'b server_event" | TakeRequest
  | WorkerReports ota_status wifi_status | WorkerVerified

fun main_step :: "('s, 'n, 'c, 'b) hardware \<Rightarrow> ('s, 'n, 'c, 'b) app \<Rightarrow> ('s, 'b) main_event \<Rightarrow> ('s, 'n, 'c, 'b) app ctl" where
  "main_step hw a Iterate = loop_body hw a"
| "main_step hw a (BoardMoves s) = Go (set_io s a)"
| "main_step hw a (BleEvent v) = Go (a\<lparr>ap_ble := map_option (\<lambda>b. server_step (hw_bt hw) b v) (ap_ble a)\<rparr>)"
| "main_step hw a TakeRequest = Go (a\<lparr>ap_ota := map_option (\<lambda>lk. lk\<lparr>lk_queue := drop 1 (lk_queue lk)\<rparr>) (ap_ota a)\<rparr>)"
| "main_step hw a (WorkerReports o' w) =
     Go (upd_link (\<lambda>sh. sh\<lparr>sh_ota := o', sh_wifi := w, sh_changed := True\<rparr>) a)"
| "main_step hw a WorkerVerified = Go (upd_link (\<lambda>sh. sh\<lparr>sh_pending_verify := False, sh_changed := True\<rparr>) a)"

text \<open>A run ends at a restart of the chip, or stuck.\<close>

definition main_next ::
  "('s, 'n, 'c, 'b) hardware \<Rightarrow> ('s, 'n, 'c, 'b) app ctl \<Rightarrow> ('s, 'b) main_event \<Rightarrow> ('s, 'n, 'c, 'b) app ctl" where
  "main_next hw q v = (case q of Go a \<Rightarrow> main_step hw a v | Again a \<Rightarrow> main_step hw a v | _ \<Rightarrow> q)"

text \<open>Whatever happens, an iteration that does not hang ends in a well-formed state.\<close>

lemma main_step_ok:
  assumes "drains (hw_uart hw) left" "app_ok a" "v = Iterate \<Longrightarrow> \<not> hangs a"
  shows "lands app_ok (main_step hw a v)"
proof (cases v)
  case Iterate
  then show ?thesis using loop_body_ok [OF assms(1,2)] assms(3) by simp
next
  case (BleEvent ev)
  then show ?thesis using assms(2) by (cases "ap_ble a") (simp_all add: app_ok_def server_step_ok)
next
  case TakeRequest
  then show ?thesis using assms(2) by (cases "ap_ota a") (auto simp: app_ok_def link_ok_def)
next
  case (WorkerReports o' w)
  then show ?thesis using assms(2)
    by (cases "ap_ota a") (auto simp: app_ok_def link_ok_def upd_link_def)
next
  case WorkerVerified
  then show ?thesis using assms(2) by (auto intro: upd_link_ok)
qed (use assms(2) in simp)

text \<open>A result of the loop is sound when it is stuck or well formed.\<close>

definition sound :: "('s, 'n, 'c, 'b) app ctl \<Rightarrow> bool" where
  "sound q \<longleftrightarrow> q = Stuck \<or> lands app_ok q"

lemma next_sound:
  assumes "drains (hw_uart hw) left" "sound q"
  shows "sound (main_next hw q v)"
proof -
  have "sound (main_step hw a v)" if "app_ok a" for a
    using main_step_ok [OF assms(1) that, of v] hang_stuck [of a hw] by (cases "v = Iterate \<and> hangs a") (auto simp: sound_def)
  then show ?thesis using assms(2) by (cases q) (auto simp: sound_def main_next_def)
qed

lemma default_short: "short_status default_ota"
proof -
  have "length (ota_body (no_notes default_ota)) \<le> 512" by code_simp
  then show ?thesis by (simp add: short_status_def MAX_ATTR_LEN_def)
qed

lemma init_ok:
  assumes "pred_option server_ok ble" "pred_option link_ok ota"
  shows "lands app_ok (app_init hw s n reason c ble ota web)"
proof -
  have r: "small_ring (foldl (\<lambda>r e. ring_push r 0 e) r es)" if "small_ring r" for r es
    using that by (induction es arbitrary: r) (simp_all add: small_ring_push)
  have "small_ring []" by (simp add: small_ring_def)
  then show ?thesis
    using assms default_short r est.inv_init factory_good(2)
    by (auto simp: app_init_def Let_def set_bands_def NUM_GEARS_def BRIGHTNESS_STEPS_def kds_new_def
        app_ok_def est_inv_def bands_ok_def small_ring_push min_less_iff_disj intro!: derive_ok)
qed

text \<open>The loop is a machine: its start is well formed, and every event keeps it sound.\<close>

lemma main_machine:
  assumes "drains (hw_uart hw) left" "pred_option server_ok ble" "pred_option link_ok ota"
  shows "machine (app_init hw s n reason c ble ota web) (main_next hw) (\<lambda>_. True) sound"
proof
  show "sound (app_init hw s n reason c ble ota web)" unfolding sound_def using assms(2,3) by (intro disjI2 init_ok)
  show "sound q \<Longrightarrow> sound (main_next hw q v)" for q v by (rule next_sound [OF assms(1)])
qed

lemma main_run_sound:
  assumes "drains (hw_uart hw) left" "pred_option server_ok ble" "pred_option link_ok ota"
  shows "sound (run (main_next hw) (app_init hw s n reason c ble ota web) es)"
  using machine.inv_run [OF main_machine [OF assms]] by (simp add: list_all_iff)

text \<open>A state the loop goes on from.\<close>

definition goes_on :: "'x ctl \<Rightarrow> 'x \<Rightarrow> bool" where
  "goes_on q x \<longleftrightarrow> q = Go x \<or> q = Again x"

lemma goes_next: "goes_on q a \<Longrightarrow> main_next hw q v = main_step hw a v"
  by (auto simp: goes_on_def main_next_def)

lemma stuck_stays: "run (main_next hw) Stuck es = Stuck"
  by (induction es) (simp_all add: main_next_def)

lemma next_stuck:
  assumes "drains (hw_uart hw) left" "sound q" "q \<noteq> Stuck" "main_next hw q v = Stuck"
  shows "v = Iterate \<and> (\<exists>a. goes_on q a \<and> hangs a)"
proof -
  obtain a where a: "goes_on q a" "app_ok a" "main_step hw a v = Stuck"
    using assms(2-4) by (cases q) (auto simp: main_next_def goes_on_def sound_def)
  then show ?thesis using main_step_ok [OF assms(1) a(2), of v] by auto
qed

text \<open>A run is stuck exactly when one of its iterations began with a status that hangs.\<close>

lemma run_stuck_iff:
  assumes "drains (hw_uart hw) left" "pred_option server_ok ble" "pred_option link_ok ota"
  shows "run (main_next hw) (app_init hw s n reason c ble ota web) es = Stuck
    \<longleftrightarrow> (\<exists>us vs a. es = us @ Iterate # vs
          \<and> goes_on (run (main_next hw) (app_init hw s n reason c ble ota web) us) a \<and> hangs a)"
    (is "?r es = Stuck \<longleftrightarrow> ?h")
proof
  have "?r [] \<noteq> Stuck" using init_ok [OF assms(2,3), of hw s n reason c web] by auto
  moreover assume "?r es = Stuck"
  ultimately obtain us v vs where v: "es = us @ v # vs" "?r us \<noteq> Stuck" "main_next hw (?r us) v = Stuck"
    using run_cause [where P = "\<lambda>q. q = Stuck" and es = es and step = "main_next hw"] by (metis run.simps(1))
  from next_stuck [OF assms(1) main_run_sound [OF assms] v(2,3)] v(1) show ?h by blast
next
  assume ?h
  then obtain us vs a where a: "es = us @ Iterate # vs" "goes_on (?r us) a" "hangs a" by blast
  then have "main_next hw (?r us) Iterate = Stuck" by (simp add: goes_next hang_stuck)
  then show "?r es = Stuck" by (simp add: a(1) run_append stuck_stays)
qed

section \<open>A board\<close>

text \<open>A board of lists and maps, to evaluate iterations on: everything succeeds, pins read high.\<close>

definition sim_hw :: "(nat \<times> u8 list, string \<rightharpoonup> u8 list, (string \<rightharpoonup> string) \<times> (string \<rightharpoonup> u8), unit) hardware" where
  "sim_hw = \<lparr>hw_build = shipped_build, hw_uart = list_uart, hw_neutral_low = \<lambda>_. False, hw_button_low = \<lambda>_. False,
     hw_led = \<lambda>_ s. (True, s), hw_free_heap = \<lambda>_. 90000, hw_nvs = map_flash, hw_cfg = map_cfg, hw_bt = sim_bt,
     hw_fw_version = ''1.0.0'', hw_manifest_url = ''https://u'', hw_build_stamp = ''dev'',
     hw_idf_version = ''v5'', hw_mac = replicate 6 0\<rparr>"

definition sim_link :: ota_link where
  "sim_link = \<lparr>lk_queue = [], lk_shared = \<lparr>sh_ota = default_ota, sh_wifi = default_wifi, sh_changed = False,
     sh_moving = False, sh_slot = ''ota_0'', sh_pending_verify = True, sh_rolled_back_from = None\<rparr>\<rparr>"

text \<open>Just after start-up of an image on probation, at a time given, with the phone service up.\<close>

definition sim_app :: "nat \<Rightarrow> (nat \<times> u8 list, string \<rightharpoonup> u8 list, (string \<rightharpoonup> string) \<times> (string \<rightharpoonup> u8), unit) app" where
  "sim_app t = \<lparr>ap_kds = kds_new (t, []), ap_learner = learner_new map_flash Map.empty 1,
     ap_config = cfg_open map_cfg (Map.empty, Map.empty) DEFAULT_BOOT_POLICY, ap_ble = Some (new_server ()),
     ap_ota = Some sim_link, ap_slot = boot_slot (Some sim_link), ap_est = new_estimator, ap_learned = 0,
     ap_boot = 0, ap_last_reconnect = int t, ap_last_save = int t, ap_brightness = 1,
     ap_button_down = False, ap_button_at = 0, ap_neutral_was = False, ap_cycle = 1,
     ap_interlock = None, ap_prev_rpm = None, ap_flash_until = 0, ap_last_frame = None, ap_events = [],
     ap_last_publish = int t, ap_published = (Map.empty, Map.empty), ap_boot_check_done = True,
     ap_self_test_done = False, ap_ota_status = default_ota, ap_wifi_status = default_wifi,
     ap_fail_until = None, ap_ota_was_busy = False, ap_link_was_up = False, ap_web = None, ap_regs = None,
     ap_deep = None, ap_demo_start = 0\<rparr>"

lemma sim_app_ok: "app_ok (sim_app t)"
proof -
  have "est_inv new_estimator" by (rule est.inv_init)
  then show ?thesis using default_short
    by (simp add: sim_app_def app_ok_def BRIGHTNESS_STEPS_def small_ring_def new_server_ok link_ok_def sim_link_def)
qed

end
