(* ===== verification/Main_Safety.thy ===== *)
theory Main_Safety
  imports Main_Total
begin

text \<open>
  Safety of the main loop of \<open>Main_Loop\<close>: what it requests from the worker on its own account, what
  the app's commands do to the settings, what rests while an image is written, when the moving
  flag is kept up, and what is published.
\<close>

section \<open>Requests to the worker\<close>

definition reqs :: "('s, 'n, 'c, 'b) app \<Rightarrow> ota_request list" where
  "reqs a = (case ap_ota a of Some lk \<Rightarrow> lk_queue lk | None \<Rightarrow> [])"

text \<open>The queue with the two flags of what happens once per boot.\<close>

definition outbox :: "('s, 'n, 'c, 'b) app \<Rightarrow> ota_request list \<times> bool \<times> bool" where
  "outbox a = (reqs a, ap_boot_check_done a, ap_self_test_done a)"

text \<open>A step that, when it ends, has added only requests of a set, and left both flags.\<close>

definition adds :: "ota_request set \<Rightarrow> ('s, 'n, 'c, 'b) app \<Rightarrow> ('s, 'n, 'c, 'b) app \<Rightarrow> bool" where
  "adds S a x \<longleftrightarrow> (\<exists>new. outbox x = apfst (\<lambda>q. q @ new) (outbox a) \<and> set new \<subseteq> S)"

definition sends :: "ota_request set \<Rightarrow> ('s, 'n, 'c, 'b) app \<Rightarrow> ('s, 'n, 'c, 'b) app ctl \<Rightarrow> bool" where
  "sends S a q \<longleftrightarrow> q = Stuck \<or> lands (adds S a) q"

lemma adds_same: "outbox x = outbox a \<Longrightarrow> adds S a x"
  unfolding adds_def by (rule exI [of _ "[]"]) (simp add: outbox_def)

lemma adds_trans: "adds S a b \<Longrightarrow> adds S b c \<Longrightarrow> adds S a c"
  unfolding adds_def
proof (elim exE conjE)
  fix n1 n2
  assume "outbox b = apfst (\<lambda>q. q @ n1) (outbox a)" "set n1 \<subseteq> S"
    "outbox c = apfst (\<lambda>q. q @ n2) (outbox b)" "set n2 \<subseteq> S"
  then have "outbox c = apfst (\<lambda>q. q @ n1 @ n2) (outbox a) \<and> set (n1 @ n2) \<subseteq> S"
    by (simp add: outbox_def)
  then show "\<exists>new. outbox c = apfst (\<lambda>q. q @ new) (outbox a) \<and> set new \<subseteq> S" by blast
qed

lemma adds_request: "r \<in> S \<Longrightarrow> outbox b = outbox a \<Longrightarrow> adds S a (request r b)"
proof -
  assume r: "r \<in> S" and b: "outbox b = outbox a"
  have "outbox (request r b) = apfst (\<lambda>q. q @ (if ap_ota b \<noteq> None \<and> length (reqs b) < 4 then [r] else [])) (outbox b)"
    by (cases "ap_ota b") (simp_all add: outbox_def request_def reqs_def lk_request_def try_send_def)
  then show ?thesis using r b unfolding adds_def
    by (intro exI [of _ "if ap_ota b \<noteq> None \<and> length (reqs b) < 4 then [r] else []"]) auto
qed

lemma sends_simps [simp]:
  "sends S a Stuck" "sends S a (Go x) = adds S a x" "sends S a (Again x) = adds S a x"
  "sends S a (Rebooted x) = adds S a x"
  by (simp_all add: sends_def)

lemma sends_seq: "sends S a q \<Longrightarrow> (\<And>x. q = Go x \<Longrightarrow> adds S a x \<Longrightarrow> sends S x (f x)) \<Longrightarrow> sends S a (seq q f)"
  by (cases q) (auto simp: seq_def sends_def lands_def dest: adds_trans split: ctl.splits)

text \<open>Most updates touch neither the links to the worker and the phone, nor the flags, nor the policy.\<close>

definition policy :: "('s, 'n, 'c, 'b) app \<Rightarrow> u8" where
  "policy a = cfg_boot_policy (cs_cfg (ap_config a))"

definition outer :: "('s, 'n, 'c, 'b) app \<Rightarrow> ota_link option \<times> bool \<times> bool \<times> 'b server option \<times> u8" where
  "outer a = (ap_ota a, ap_boot_check_done a, ap_self_test_done a, ap_ble a, policy a)"

lemma outer_fields [simp]:
  "outer (a\<lparr>ap_kds := k\<rparr>) = outer a" "outer (a\<lparr>ap_learner := l\<rparr>) = outer a"
  "outer (a\<lparr>ap_est := e\<rparr>) = outer a" "outer (a\<lparr>ap_learned := n\<rparr>) = outer a"
  "outer (a\<lparr>ap_brightness := n\<rparr>) = outer a"
  "outer (a\<lparr>ap_events := ev\<rparr>) = outer a" "outer (a\<lparr>ap_ota_was_busy := f\<rparr>) = outer a"
  "outer (a\<lparr>ap_ota_status := o'\<rparr>) = outer a" "outer (a\<lparr>ap_wifi_status := w\<rparr>) = outer a"
  "outer (a\<lparr>ap_fail_until := fu\<rparr>) = outer a" "outer (a\<lparr>ap_last_frame := fr\<rparr>) = outer a"
  "outer (a\<lparr>ap_button_at := t\<rparr>) = outer a" "outer (a\<lparr>ap_button_down := f\<rparr>) = outer a"
  "outer (a\<lparr>ap_last_reconnect := t\<rparr>) = outer a" "outer (a\<lparr>ap_prev_rpm := pr\<rparr>) = outer a"
  "outer (a\<lparr>ap_interlock := i\<rparr>) = outer a" "outer (a\<lparr>ap_last_save := t\<rparr>) = outer a"
  "outer (a\<lparr>ap_flash_until := t\<rparr>) = outer a" "outer (a\<lparr>ap_neutral_was := f\<rparr>) = outer a"
  "outer (a\<lparr>ap_link_was_up := f\<rparr>) = outer a" "outer (a\<lparr>ap_last_publish := t\<rparr>) = outer a"
  "outer (a\<lparr>ap_published := p\<rparr>) = outer a" "outer (a\<lparr>ap_cycle := c\<rparr>) = outer a"
  "outer (a\<lparr>ap_web := wb\<rparr>) = outer a" "outer (a\<lparr>ap_regs := rg\<rparr>) = outer a"
  "outer (a\<lparr>ap_deep := dp\<rparr>) = outer a"
  by (simp_all add: outer_def policy_def)

lemma outer_steps [simp]:
  "outer (set_io s a) = outer a" "outer (delay hw n a) = outer a" "outer (push_event t e a) = outer a"
  "outer (upd_config (set_brightness nv i) a) = outer a" "outer (wipe_calibration hw a) = outer a"
  "outer (snd (save_learner hw a)) = outer a" "outer (snd (led_send hw fr a)) = outer a"
  by (simp_all add: set_io_def delay_def push_event_def upd_config_def set_brightness_def
      wipe_calibration_def save_learner_def led_send_def case_prod_beta) (simp add: outer_def policy_def)

lemma outer_more [simp]:
  "outer (show_frame hw fr a) = outer a" "outer (refresh_frame hw fr a) = outer a"
  "outer (neutral_tick hw up br a) = outer a" "outer (button_step hw t a) = outer a"
  "outer (drop_link hw t a) = outer a" "outer (learn_step hw al so a) = outer a"
  "outer (forget_learned a) = outer a" "outer (link_event up t a) = outer a"
  "outer (end_cycle hw a) = outer a" "outer (pause_polling hw a) = outer a"
  "outer (note_ota_change tn t o' a) = outer a" "outer (note_wifi_change t w a) = outer a"
  "outer (web_step hw rd g a) = outer a"
  by (auto simp: web_step_def show_frame_def refresh_frame_def neutral_tick_def button_step_def drop_link_def
      learn_step_def forget_learned_def link_event_def end_cycle_def pause_polling_def
      note_ota_change_def note_wifi_change_def Let_def case_prod_beta split: option.split)

lemma outbox_outer: "outer x = outer a \<Longrightarrow> outbox x = outbox a"
  by (simp add: outer_def outbox_def reqs_def)

lemmas outbox_same [simp] = outer_fields [THEN outbox_outer] outer_steps [THEN outbox_outer]
  outer_more [THEN outbox_outer]

lemma outbox_links [simp]: "outbox (upd_link g a) = outbox a" "outbox (a\<lparr>ap_ble := b\<rparr>) = outbox a"
  "outbox (upd_config f a) = outbox a"
  by (simp_all add: outbox_def reqs_def upd_link_def upd_config_def split: option.split)

lemma sends_same: "leaves outbox (outbox a) q \<Longrightarrow> sends S a q"
  by (cases q) (simp_all add: adds_same)

text \<open>From the button to the display nothing outside changes, and from there on nothing is requested.\<close>

lemma derive_outer: "leaves outer (outer a) (derive_and_install a)"
  by (auto simp: derive_and_install_def split: option.split)

lemma interlock_outer: "interlock_step hw a = Some a' \<Longrightarrow> outer a' = outer a"
  by (cases "fst (the (read_interlock (hw_uart hw) (ap_kds a)))")
    (auto simp: interlock_step_def split: if_splits)

lemma poll_outer: "poll hw t a = Some (rd, a') \<Longrightarrow> outer a' = outer a"
  by (auto simp: poll_def Let_def bind_eq_Some_conv dest!: interlock_outer split: if_splits)

lemma scan_outer: "scan_step hw a = Some (link, a') \<Longrightarrow> outer a' = outer a"
  by (auto simp: scan_step_def Let_def split: if_splits option.splits)

lemma deep_outer: "leaves outer (outer a) (deep_step hw a)"
  by (auto simp: deep_step_def split: option.split)

lemma display_outer: "display_step hw rd a = Some (g, low, rd1, a') \<Longrightarrow> outer a' = outer a"
  by (auto simp: display_step_def Let_def split: prod.splits option.splits)

lemma persist_outer: "leaves outer (outer a) (persist_step hw a)"
proof -
  obtain ok a1 where s: "save_learner hw (a\<lparr>ap_last_save := clock hw a\<rparr>) = (ok, a1)" by fastforce
  then have "outer a1 = outer a" using outer_steps(6) [of hw "a\<lparr>ap_last_save := clock hw a\<rparr>"] by simp
  then show ?thesis
    using s derive_outer [of "a1\<lparr>ap_flash_until := clock hw a1 + 800000\<rparr>"]
    by (cases ok) (simp_all add: persist_step_def)
qed

lemma reconnect_outer: "leaves outer (outer a) (reconnect_step hw a)"
  by (auto simp: reconnect_step_def split: option.split)

lemma telemetry_outbox: "leaves outbox (outbox a) (telemetry hw t rd g low a)"
  by (auto simp: telemetry_def slow_publish_def note_moving_def Let_def case_prod_beta
      split: option.split)

lemma telemetry_no_phone: "ap_ble a = None \<Longrightarrow> leaves outer (outer a) (telemetry hw t rd g low a)"
proof -
  assume "ap_ble a = None"
  then have "ap_ble (link_event (rd_link_up rd) t a) = None" using outer_more(8) [of "rd_link_up rd" t a]
    by (simp only: outer_def prod.inject)
  then show ?thesis by (simp add: telemetry_def)
qed

text \<open>A view that nothing from the button on changes but the telemetry.\<close>

lemma ride_leaves:
  assumes f: "\<And>x a. outer x = outer a \<Longrightarrow> f x = f a"
    and t: "\<And>rd g low x. f x = f a \<Longrightarrow> leaves f (f a) (telemetry hw t rd g low x)"
  shows "leaves f (f a) (ride_steps hw t a)"
proof (cases "scan_step hw a")
  case (Some q)
  then obtain link a0 where s: "scan_step hw a = Some (link, a0)" by (cases q) auto
  show ?thesis
  proof (cases "poll hw t a0")
    case (Some p)
    then obtain rd0 a1 where p: "poll hw t a0 = Some (rd0, a1)" by (cases p) auto
    have r: "leaves f (f a) (case display_step hw rd (forget_learned a2) of None \<Rightarrow> Stuck
        | Some (g, low, rd1, a3) \<Rightarrow> seq (telemetry hw t rd1 g low (web_step hw rd1 g a3)) (\<lambda>a4. Go (end_cycle hw a4)))"
      if a2: "f a2 = f a" for a2 rd
    proof (cases "display_step hw rd (forget_learned a2)")
      case (Some q)
      then obtain g low rd1 a3 where d: "display_step hw rd (forget_learned a2) = Some (g, low, rd1, a3)"
        by (cases q) auto
      have "f (forget_learned a2) = f a2" "f (web_step hw rd1 g a3) = f a3" "f (end_cycle hw x) = f x" for x
        by (rule f, simp)+
      then show ?thesis unfolding d using t [of "web_step hw rd1 g a3" rd1 g low] f [OF display_outer [OF d]] a2
        by (simp, intro leaves_seq) simp_all
    qed simp
    have "f a1 = f a" using f [OF poll_outer [OF p]] f [OF scan_outer [OF s]] by simp
    then have "leaves f (f a) (persist_step hw a1)"
      using leaves_weaken [where f = outer and g = f, OF persist_outer f, of a1 hw] by simp
    then show ?thesis
      unfolding ride_steps_def s p option.case prod.case Let_def by (rule leaves_seq) (rule r)
  qed (simp add: ride_steps_def s)
qed (simp add: ride_steps_def)

lemma drive_leaves:
  assumes f: "\<And>x a. outer x = outer a \<Longrightarrow> f x = f a"
    and t: "\<And>rd g low x. f x = f a \<Longrightarrow> leaves f (f a) (telemetry hw t rd g low x)"
  shows "leaves f (f a) (drive_steps hw t a)"
  unfolding drive_steps_def
proof (rule leaves_seq)
  have "f (button_step hw t a) = f a" by (rule f) simp
  then show "leaves f (f a) (reconnect_step hw (button_step hw t a))"
    using leaves_weaken [where f = outer and g = f, OF reconnect_outer f, of "button_step hw t a" hw] by simp
  fix x :: "('a, 'b, 'c, 'd) app"
  assume x: "f x = f a"
  show "leaves f (f a) (seq (deep_step hw x) (ride_steps hw t))"
  proof (rule leaves_seq)
    show "leaves f (f a) (deep_step hw x)"
      using leaves_weaken [where f = outer and g = f, OF deep_outer f, of x hw] x by simp
    show "leaves f (f a) (ride_steps hw t y)" if "f y = f a" for y
      using ride_leaves [where f = f and a = y and hw = hw and t = t, OF f] t that by simp
  qed
qed

lemma drive_outbox: "leaves outbox (outbox a) (drive_steps hw t a)"
proof (rule drive_leaves)
  show "leaves outbox (outbox a) (telemetry hw t rd g low x)" if "outbox x = outbox a" for rd g low x
    using telemetry_outbox [of x hw t rd g low] that by simp
qed (rule outbox_outer)

text \<open>What the app may ask for.\<close>

definition app_reqs :: "ota_request set" where
  "app_reqs = {ReqCheck False, ReqInstall, ReqTestWifi}"

lemma command_sends: "sends app_reqs a (on_command hw t c a)"
  by (cases c) (auto simp: on_command_def app_reqs_def Let_def intro!: adds_request intro: adds_same)

lemma commands_send: "sends app_reqs a (on_commands hw t cs a)"
proof (induction cs arbitrary: a)
  case (Cons c cs)
  show ?case unfolding on_commands.simps using command_sends Cons.IH by (rule sends_seq)
qed (simp add: adds_same)

lemma credentials_send: "adds app_reqs a (foldl (\<lambda>a w. on_credentials hw t w a) a ws)"
proof (induction ws arbitrary: a)
  case (Cons w ws)
  have "adds app_reqs a (on_credentials hw t w a)"
    by (auto simp: on_credentials_def app_reqs_def intro!: adds_request)
  then show ?case using Cons.IH by (simp add: adds_trans)
qed (simp add: adds_same)

lemma sends_after: "adds S a b \<Longrightarrow> sends S b q \<Longrightarrow> sends S a q"
  by (cases q) (auto intro: adds_trans)

lemma handle_sends: "sends app_reqs a (handle_ble_commands hw t a)"
proof (cases "ap_ble a")
  case (Some b)
  let ?b = "a\<lparr>ap_ble := Some (b\<lparr>bs_cmds := [], bs_wifi := []\<rparr>)\<rparr>"
  have "adds app_reqs a ?b" by (simp add: adds_same)
  then have "adds app_reqs a (foldl (\<lambda>a w. on_credentials hw t w a) ?b (bs_wifi b))"
    using credentials_send adds_trans by blast
  then show ?thesis using Some commands_send sends_after by (fastforce simp: handle_ble_commands_def Let_def)
qed (simp add: handle_ble_commands_def adds_same)

text \<open>What the first three steps leave alone when the iteration goes on.\<close>

definition early :: "('s, 'n, 'c, 'b) hardware \<Rightarrow> ('s, 'n, 'c, 'b) app \<Rightarrow>
    (ota_request list \<times> bool \<times> bool) \<times> 's \<times> int \<times> 'c config_store \<times> command list option" where
  "early hw a = (outbox a, k_io (ap_kds a), ap_boot a, ap_config a, map_option bs_cmds (ap_ble a))"

lemma mirror_early: "leaves (early hw) (early hw a) (mirror_ota hw t a)"
proof -
  have "early hw (note_ota_change tn t o' a) = early hw a" "early hw (note_wifi_change t w a) = early hw a"
    "early hw (upd_link g a) = early hw a" "early hw (a\<lparr>ap_ota_status := o', ap_wifi_status := w\<rparr>) = early hw a"
    for tn o' w g a
    by (auto simp: early_def note_ota_change_def note_wifi_change_def push_event_def upd_link_def Let_def
        outbox_def reqs_def split: option.split)
  moreover have "ap_ble x = Some b \<Longrightarrow> early hw (x\<lparr>ap_ble := Some (notify bt at v (notify bt at' v' b))\<rparr>) = early hw x"
    for x b bt at v at' v'
    by (simp add: early_def)
  ultimately show ?thesis by (auto simp: mirror_ota_def Let_def split: option.split)
qed

lemma mirror_outbox: "leaves outbox (outbox a) (mirror_ota hw t a)"
  using mirror_early [of hw a t] by (cases "mirror_ota hw t a") (simp_all add: early_def)

lemma busy_early: "busy_step hw t a = Go x \<Longrightarrow> early hw x = early hw a"
  by (auto simp: busy_step_def Let_def seq_def early_def split: if_splits option.splits ctl.splits)

lemma fail_early: "fail_step hw a = Go x \<Longrightarrow> early hw x = early hw a"
  by (auto simp: fail_step_def early_def split: if_splits option.splits)

lemma busy_sends: "sends app_reqs a (busy_step hw t a)"
proof (cases "writing (o_state (ap_ota_status a))")
  case True
  have "sends app_reqs a (seq (handle_ble_commands hw t (show_frame hw fr (pause_polling hw a)))
      (\<lambda>a3. Again (delay hw 100000 a3)))" for fr
  proof (rule sends_after)
    show "adds app_reqs a (show_frame hw fr (pause_polling hw a))"
      by (rule adds_same) (simp add: pause_polling_def)
    show "sends app_reqs (show_frame hw fr (pause_polling hw a))
        (seq (handle_ble_commands hw t (show_frame hw fr (pause_polling hw a))) (\<lambda>a3. Again (delay hw 100000 a3)))"
      using handle_sends by (rule sends_seq) (simp add: adds_same)
  qed
  then show ?thesis using True by (simp add: busy_step_def split: option.split)
qed (simp add: busy_step_def adds_same)

lemma fail_outbox: "leaves outbox (outbox a) (fail_step hw a)"
  by (auto simp: fail_step_def split: option.split)

text \<open>The iteration after the boot check and the self-test.\<close>

lemma tail_sends: "sends app_reqs a (seq (handle_ble_commands hw t a) (drive_steps hw t))"
  by (rule sends_seq [OF handle_sends]) (rule sends_same, rule drive_outbox)

text \<open>What may be requested on the device's own account, and what is then true.\<close>

definition on_own_account :: "('s, 'n, 'c, 'b) hardware \<Rightarrow> ('s, 'n, 'c, 'b) app \<Rightarrow> ota_request list \<Rightarrow> bool \<times> bool \<Rightarrow> bool" where
  "on_own_account hw a new f \<longleftrightarrow>
     (ReqMarkValid \<in> set new \<longrightarrow> \<not> ap_self_test_done a \<and> snd f \<and> ap_ble a \<noteq> None
        \<and> SELF_TEST_UPTIME \<le> elapsed hw (ap_boot a) a
        \<and> (\<exists>fr. fst (hw_led hw fr (k_io (ap_kds a)))))
     \<and> (ReqCheck True \<in> set new \<longrightarrow> \<not> ap_boot_check_done a \<and> fst f \<and> ap_self_test_done a
        \<and> BOOT_CHECK_DELAY \<le> elapsed hw (ap_boot a) a
        \<and> cfg_boot_policy (cs_cfg (ap_config a)) = BOOT_CHECK_AND_INSTALL
        \<and> cfg_ssid (cs_cfg (ap_config a)) \<noteq> None)
     \<and> count_list new ReqMarkValid \<le> 1 \<and> count_list new (ReqCheck True) \<le> 1
     \<and> (ap_boot_check_done a \<longrightarrow> fst f) \<and> (ap_self_test_done a \<longrightarrow> snd f)"

lemma request_reqs: "reqs (request r a) = reqs a @ (if ap_ota a \<noteq> None \<and> length (reqs a) < 4 then [r] else [])"
  by (cases "ap_ota a") (simp_all add: request_def reqs_def lk_request_def try_send_def)

lemma own_requests:
  fixes a :: "('s, 'n, 'c, 'b) app" and hw :: "('s, 'n, 'c, 'b) hardware"
  assumes b_def: "b = self_test hw t (boot_check hw a)"
  shows "\<exists>new. reqs b = reqs a @ new \<and> on_own_account hw a new (ap_boot_check_done b, ap_self_test_done b)"
proof -
  let ?c = "boot_check hw a"
  let ?due = "\<not> ap_boot_check_done a \<and> BOOT_CHECK_DELAY \<le> elapsed hw (ap_boot a) a"
  let ?ask = "?due \<and> BOOT_CHECK \<le> cfg_boot_policy (cs_cfg (ap_config a)) \<and> cfg_ssid (cs_cfg (ap_config a)) \<noteq> None
    \<and> ap_self_test_done a"
  obtain n1 where n1: "reqs ?c = reqs a @ n1"
    "n1 = [] \<or> ?ask \<and> n1 = [ReqCheck (cfg_boot_policy (cs_cfg (ap_config a)) = BOOT_CHECK_AND_INSTALL)]"
    by (cases ?ask) (auto simp: boot_check_def Let_def request_reqs, simp_all add: reqs_def)
  have c: "ap_boot_check_done ?c = (ap_boot_check_done a \<or> ?due)" "ap_self_test_done ?c = ap_self_test_done a"
    "ap_ble ?c = ap_ble a" "ap_boot ?c = ap_boot a" "ap_kds ?c = ap_kds a"
    by (auto simp: boot_check_def Let_def request_def)
  let ?tdue = "\<not> ap_self_test_done a \<and> SELF_TEST_UPTIME \<le> elapsed hw (ap_boot a) a"
  have e: "elapsed hw (ap_boot a) ?c = elapsed hw (ap_boot a) a" by (simp add: elapsed_def clock_def c)
  have b: "ap_boot_check_done b = ap_boot_check_done ?c" "ap_self_test_done b = (ap_self_test_done a \<or> ?tdue)"
    unfolding b_def self_test_def
    by (auto simp: Let_def c e led_send_def set_io_def push_event_def request_def case_prod_beta)
  obtain n2 where n2: "reqs b = reqs ?c @ n2" "n2 = [] \<or> ?tdue \<and> ap_ble a \<noteq> None \<and> (\<exists>fr. fst (hw_led hw fr (k_io (ap_kds a)))) \<and> n2 = [ReqMarkValid]"
  proof (cases "?tdue \<and> ap_ble a \<noteq> None")
    case True
    let ?l = "led_send hw (case ap_last_frame ?c of Some fr \<Rightarrow> fr | None \<Rightarrow> replicate 25 OFF) (?c\<lparr>ap_self_test_done := True\<rparr>)"
    obtain ok x where l: "?l = (ok, x)" by fastforce
    have "reqs (snd ?l) = reqs ?c" by (simp add: led_send_def set_io_def case_prod_beta reqs_def)
    then have x: "reqs x = reqs ?c" by (simp add: l)
    have p: "reqs (push_event t' e' x) = reqs x" for t' e' and x :: "('s, 'n, 'c, 'b) app"
      by (simp add: reqs_def push_event_def)
    have "b = (if ok then push_event t ''self-test passed'' (request ReqMarkValid x)
        else push_event t ''self-test FAILED'' x)"
      using True l by (auto simp: b_def self_test_def c e)
    then have "reqs b = reqs ?c @ (if ok \<and> ap_ota x \<noteq> None \<and> length (reqs x) < 4 then [ReqMarkValid] else [])"
      by (simp add: p request_reqs x)
    moreover have "ok \<Longrightarrow> fst (hw_led hw (case ap_last_frame ?c of Some fr \<Rightarrow> fr | None \<Rightarrow> replicate 25 OFF) (k_io (ap_kds a)))"
      using l by (auto simp: led_send_def c split: prod.splits)
    ultimately show ?thesis using True that [of "[]"] that [of "[ReqMarkValid]"]
      by (cases "ok \<and> ap_ota x \<noteq> None \<and> length (reqs x) < 4") auto
  next
    case False
    then have "reqs b = reqs ?c" by (auto simp: b_def self_test_def c e Let_def reqs_def push_event_def)
    then show ?thesis using that [of "[]"] by simp
  qed
  have "reqs b = reqs a @ n1 @ n2" using n1(1) n2(1) by simp
  moreover have "on_own_account hw a (n1 @ n2) (ap_boot_check_done b, ap_self_test_done b)"
    using n1(2) n2(2) by (auto simp: on_own_account_def b c)
  ultimately show ?thesis by blast
qed

lemma early_fields:
  assumes "early hw x = early hw a"
  shows "reqs x = reqs a" "ap_boot_check_done x = ap_boot_check_done a" "ap_self_test_done x = ap_self_test_done a"
    "k_io (ap_kds x) = k_io (ap_kds a)" "elapsed hw (ap_boot x) x = elapsed hw (ap_boot a) a"
    "ap_config x = ap_config a" "ap_ble x = None \<longleftrightarrow> ap_ble a = None" "map_option bs_cmds (ap_ble x) = map_option bs_cmds (ap_ble a)"
  using assms by (auto simp: early_def outbox_def elapsed_def clock_def dest: map_option_eq_Some [THEN iffD1])

lemma early_own: "early hw x = early hw a \<Longrightarrow> on_own_account hw x new f = on_own_account hw a new f"
  by (frule early_fields) (simp add: on_own_account_def early_fields [of hw x a])

lemma own_more: "set extra \<subseteq> app_reqs \<Longrightarrow> on_own_account hw a new f \<Longrightarrow> on_own_account hw a (new @ extra) f"
proof -
  assume m: "set extra \<subseteq> app_reqs"
  then have "ReqMarkValid \<notin> set extra" "ReqCheck True \<notin> set extra" by (auto simp: app_reqs_def)
  then have "count_list extra ReqMarkValid = 0" "count_list extra (ReqCheck True) = 0" by simp_all
  with \<open>ReqMarkValid \<notin> set extra\<close> \<open>ReqCheck True \<notin> set extra\<close>
  show "on_own_account hw a new f \<Longrightarrow> on_own_account hw a (new @ extra) f"
    by (simp add: on_own_account_def)
qed

lemma own_none: "on_own_account hw a [] (ap_boot_check_done a, ap_self_test_done a)"
  by (simp add: on_own_account_def)

lemma adds_own:
  assumes "adds app_reqs b x" "reqs b = reqs a @ new" "on_own_account hw a new (ap_boot_check_done b, ap_self_test_done b)"
  shows "\<exists>new. reqs x = reqs a @ new \<and> on_own_account hw a new (ap_boot_check_done x, ap_self_test_done x)"
proof -
  obtain extra where m: "reqs x = reqs b @ extra" "set extra \<subseteq> app_reqs"
    "ap_boot_check_done x = ap_boot_check_done b" "ap_self_test_done x = ap_self_test_done b"
    using assms(1) by (auto simp: adds_def outbox_def)
  then show ?thesis using own_more [OF m(2) assms(3)] assms(2) by auto
qed

lemma loop_own:
  fixes a :: "('s, 'n, 'c, 'b) app"
  assumes "ends_in (loop_body hw a) x"
  shows "\<exists>new. reqs x = reqs a @ new \<and> on_own_account hw a new (ap_boot_check_done x, ap_self_test_done x)"
proof -
  let ?t = "uptime hw a"
  let ?P = "\<lambda>a x. \<exists>new. reqs x = reqs a @ new \<and> on_own_account hw a new (ap_boot_check_done x, ap_self_test_done x)"
  have quiet: "?P a x" if "adds app_reqs a x" for a x :: "('s, 'n, 'c, 'b) app"
    using adds_own [OF that, of a "[]" hw] own_none [of hw a] by simp
  have shift: "?P a x" if "early hw b = early hw a" "?P b x" for a b x :: "('s, 'n, 'c, 'b) app"
    using that early_own [OF that(1)] by (auto simp: early_def outbox_def)
  have tail: "?P b x" if "ends_in (work_steps hw ?t b) x"
    for b x :: "('s, 'n, 'c, 'b) app"
  proof -
    let ?b = "self_test hw ?t (boot_check hw b)"
    have "adds app_reqs ?b x" using that tail_sends [of ?b hw ?t] by (auto simp: work_steps_def ends_in_def)
    with own_requests [OF refl, of hw ?t b] show ?thesis using adds_own by metis
  qed
  have fails: "?P a x" if h: "ends_in (seq (fail_step hw a2) (work_steps hw ?t)) x" "early hw a2 = early hw a" for a2
  proof (cases "fail_step hw a2")
    case (Go a3)
    then have "early hw a3 = early hw a" using fail_early h(2) by metis
    then show ?thesis using shift tail h(1) by (simp add: Go)
  qed (use h fail_outbox [of a2 hw] in \<open>auto simp: ends_in_def seq_def early_def intro!: quiet adds_same\<close>)
  have busy: "?P a x" if h: "ends_in (seq (busy_step hw ?t a1) (\<lambda>a2. seq (fail_step hw a2) (work_steps hw ?t))) x" "early hw a1 = early hw a" for a1
  proof (cases "busy_step hw ?t a1")
    case (Go a2)
    with h fails [of a2] busy_early [OF this] show ?thesis by simp
  next
    case (Again y)
    then have "x = y" "adds app_reqs a1 y" using h busy_sends [of a1 hw ?t] by (simp_all add: ends_in_def seq_def)
    then show ?thesis using shift [OF h(2)] quiet by simp
  next
    case (Rebooted y)
    then have "x = y" "adds app_reqs a1 y" using h busy_sends [of a1 hw ?t] by (simp_all add: ends_in_def seq_def)
    then show ?thesis using shift [OF h(2)] quiet by simp
  qed (use h in \<open>simp add: ends_in_def seq_def\<close>)
  have m: "leaves (early hw) (early hw a) (mirror_ota hw ?t a)" by (rule mirror_early)
  have out: "?P a y" if "early hw y = early hw a" for y
    using that quiet by (simp add: early_def adds_same)
  show ?thesis
  proof (cases "mirror_ota hw ?t a")
    case (Go a1)
    then show ?thesis using assms m busy [of a1] by (simp add: loop_body_def Let_def)
  next
    case (Again y)
    then show ?thesis using assms m out [of y] by (simp add: loop_body_def Let_def seq_def ends_in_def)
  next
    case (Rebooted y)
    then show ?thesis using assms m out [of y] by (simp add: loop_body_def Let_def seq_def ends_in_def)
  qed (use assms in \<open>simp add: loop_body_def Let_def seq_def ends_in_def\<close>)
qed

section \<open>The app's commands and the settings\<close>

fun cmd_ops :: "command \<Rightarrow> cfg_op list" where
  "cmd_ops (SetBrightness i) = [SetBright (of_nat (min (unat i) 2))]"
| "cmd_ops (SetBootPolicy p) = [SetBoot p]"
| "cmd_ops ForgetWifi = [ClearWifi]"
| "cmd_ops (SetManifestUrl u) = [SetUrl (if u = [] then None else Some u)]"
| "cmd_ops _ = []"

text \<open>What the queues of a server mean for the settings: nothing after a restart command.\<close>

definition settings_ops :: "'b server \<Rightarrow> cfg_op list" where
  "settings_ops b = map (\<lambda>w. SetWifi (w_ssid w) (w_psk w)) (bs_wifi b)
     @ concat (map cmd_ops (takeWhile (\<lambda>c. c \<noteq> Reboot) (bs_cmds b)))"

lemma config_same [simp]:
  "ap_config (push_event t e a) = ap_config a" "ap_config (request r a) = ap_config a"
  "ap_config (wipe_calibration hw a) = ap_config a" "ap_config (upd_link g a) = ap_config a"
  "ap_config (snd (save_learner hw a)) = ap_config a" "ap_config (delay hw n a) = ap_config a"
  "ap_config (upd_config f a) = f (ap_config a)"
  by (simp_all add: push_event_def request_def wipe_calibration_def upd_link_def save_learner_def
      delay_def set_io_def upd_config_def case_prod_beta)

lemma command_config:
  "c \<noteq> Reboot \<Longrightarrow> \<exists>x. on_command hw t c a = Go x \<and> ap_config x = run (cfg_step (hw_cfg hw)) (ap_config a) (cmd_ops c)"
  by (cases c) (simp_all add: on_command_def Let_def BRIGHTNESS_STEPS_def numeral_2_eq_2)

lemma commands_config:
  "ends_in (on_commands hw t cs a) x \<Longrightarrow>
    ap_config x = run (cfg_step (hw_cfg hw)) (ap_config a) (concat (map cmd_ops (takeWhile (\<lambda>c. c \<noteq> Reboot) cs)))"
proof (induction cs arbitrary: a)
  case (Cons c cs)
  show ?case
  proof (cases "c = Reboot")
    case True
    then show ?thesis using Cons.prems by (auto simp: on_command_def seq_def ends_in_def)
  next
    case False
    then obtain y where "on_command hw t c a = Go y" "ap_config y = run (cfg_step (hw_cfg hw)) (ap_config a) (cmd_ops c)"
      using command_config by blast
    then show ?thesis using Cons.IH [of y] Cons.prems False by (simp add: run_append)
  qed
qed (simp add: ends_in_def)

lemma handle_config:
  assumes "ap_ble a = Some b" "ends_in (handle_ble_commands hw t a) x"
  shows "ap_config x = run (cfg_step (hw_cfg hw)) (ap_config a) (settings_ops b)"
proof -
  have c: "ap_config (foldl (\<lambda>a w. on_credentials hw t w a) a ws)
      = run (cfg_step (hw_cfg hw)) (ap_config a) (map (\<lambda>w. SetWifi (w_ssid w) (w_psk w)) ws)" for a ws
    by (induction ws arbitrary: a) (simp_all add: on_credentials_def)
  show ?thesis
    using assms commands_config [of hw t "bs_cmds b" _ x]
    by (simp add: handle_ble_commands_def Let_def settings_ops_def run_append c)
qed

lemma settings_ops_ok:
  assumes "server_ok b" "\<And>u. SetManifestUrl u \<in> set (bs_cmds b) \<Longrightarrow> length u < 256"
  shows "list_all cfg_op_ok (settings_ops b)"
proof -
  have "list_all cfg_op_ok (cmd_ops c)" if "c \<in> set (bs_cmds b)" for c
    using assms(2) that by (cases c) auto
  moreover have "c \<in> set (bs_cmds b)" if "c \<in> set (takeWhile (\<lambda>c. c \<noteq> Reboot) (bs_cmds b))" for c
    using that by (auto dest: set_takeWhileD)
  moreover have "cfg_op_ok (SetWifi (w_ssid w) (w_psk w))" if "w \<in> set (bs_wifi b)" for w
    using assms(1) that by (auto simp: server_ok_def list_all_iff wifi_ok_def)
  ultimately show ?thesis by (auto simp: settings_ops_def list_all_iff)
qed

lemma app_settings_facts:
  assumes "cfg_lawful (hw_cfg hw) strs u8s" "cfg_reliable (hw_cfg hw)"
    and "ap_config a = run (cfg_step (hw_cfg hw)) (cfg_open (hw_cfg hw) n d) past" "list_all cfg_op_ok past"
    and "ap_ble a = Some b" "server_ok b" "\<And>u. SetManifestUrl u \<in> set (bs_cmds b) \<Longrightarrow> length u < 256"
    and "ends_in (handle_ble_commands hw t a) x"
  shows "cs_cfg (cfg_open (hw_cfg hw) (cs_nvs (ap_config x)) d) = cs_cfg (ap_config x)"
proof -
  let ?ops = "past @ settings_ops b"
  have x: "ap_config x = run (cfg_step (hw_cfg hw)) (cfg_open (hw_cfg hw) n d) ?ops"
    using handle_config [OF assms(5,8)] assms(3) by (simp add: run_append)
  have "list_all cfg_op_ok ?ops" using assms(4) settings_ops_ok [OF assms(6,7)] by simp
  moreover have "cs_nvs (cfg_open (hw_cfg hw) n d) = n" by (simp add: cfg_open_def cfg_load_def Let_def)
  ultimately show ?thesis using reopen_run [OF assms(1,2), of ?ops "cfg_open (hw_cfg hw) n d" d]
    by (simp add: x cfg_run_spec)
qed

section \<open>While an image is written\<close>

text \<open>The status of the worker as the iteration sees it.\<close>

definition status_seen :: "('s, 'n, 'c, 'b) app \<Rightarrow> ota_status" where
  "status_seen a = (case ap_ota a of
     Some lk \<Rightarrow> if sh_changed (lk_shared lk) then sh_ota (lk_shared lk) else ap_ota_status a
   | None \<Rightarrow> ap_ota_status a)"

lemma mirror_sees: "mirror_ota hw t a = Go a1 \<Longrightarrow> ap_ota_status a1 = status_seen a \<and> steady a1 = steady a"
proof -
  have "steady (note_ota_change tn t o' y) = steady y" "steady (note_wifi_change t w y) = steady y"
    "steady (y\<lparr>ap_ota_status := o', ap_wifi_status := w\<rparr>) = steady y"
    for tn o' w and y :: "('a, 'b, 'c, 'd) app"
    by (auto simp: note_ota_change_def note_wifi_change_def push_event_def Let_def steady_def split: option.split)
  then show "mirror_ota hw t a = Go a1 \<Longrightarrow> ?thesis"
    by (auto simp: mirror_ota_def status_seen_def Let_def split: option.splits if_splits)
qed

lemma mirror_goes: "app_ok a \<Longrightarrow> \<not> hangs a \<Longrightarrow> \<exists>a1. mirror_ota hw t a = Go a1 \<and> app_ok a1"
proof -
  assume "app_ok a" "\<not> hangs a"
  then have "lands app_ok (mirror_ota hw t a)" by (rule mirror_ok)
  moreover have "mirror_ota hw t a \<noteq> Again x" "mirror_ota hw t a \<noteq> Rebooted x" for x
    by (auto simp: mirror_ota_def Let_def split: option.split)
  ultimately show ?thesis by (cases "mirror_ota hw t a") auto
qed

text \<open>What the handling of the phone's requests does to the board: a restart waits 300 ms first.\<close>

lemma mirror_board: "mirror_ota hw t a = Go a1 \<Longrightarrow> k_io (ap_kds a1) = k_io (ap_kds a)"
proof -
  have "ap_kds (note_ota_change tn t o' y) = ap_kds y" "ap_kds (note_wifi_change t w y) = ap_kds y"
    "ap_kds (upd_link g y) = ap_kds y" for tn o' w g and y :: "('a, 'b, 'c, 'd) app"
    by (auto simp: note_ota_change_def note_wifi_change_def push_event_def upd_link_def Let_def split: option.split)
  then show "mirror_ota hw t a = Go a1 \<Longrightarrow> ?thesis"
    by (auto simp: mirror_ota_def Let_def split: option.splits if_splits)
qed

definition waits_only :: "('s, 'n, 'c, 'b) hardware \<Rightarrow> 's \<Rightarrow> ('s, 'n, 'c, 'b) app ctl \<Rightarrow> bool" where
  "waits_only hw s q \<longleftrightarrow> (case q of Rebooted x \<Rightarrow> k_io (ap_kds x) = sleep (hw_uart hw) 300000 s
     | Go x \<Rightarrow> k_io (ap_kds x) = s | Again x \<Rightarrow> False | Stuck \<Rightarrow> True)"

lemma waits_simps [simp]:
  "waits_only hw s (Go x) = (k_io (ap_kds x) = s)" "waits_only hw s Stuck" "\<not> waits_only hw s (Again x)"
  "waits_only hw s (Rebooted x) = (k_io (ap_kds x) = sleep (hw_uart hw) 300000 s)"
  by (simp_all add: waits_only_def)

lemma command_waits: "waits_only hw (k_io (ap_kds a)) (on_command hw t c a)"
  by (cases c) (simp_all add: on_command_def Let_def push_event_def upd_config_def request_def upd_link_def
      delay_def set_io_def wipe_calibration_def save_learner_def case_prod_beta)

lemma commands_wait: "waits_only hw (k_io (ap_kds a)) (on_commands hw t cs a)"
proof (induction cs arbitrary: a)
  case (Cons c cs)
  show ?case using command_waits [of hw a t c]
  proof (cases "on_command hw t c a")
    case (Go x)
    then show ?thesis using command_waits [of hw a t c] Cons.IH [of x] by simp
  qed (simp_all add: seq_def)
qed simp

lemma handle_waits: "waits_only hw (k_io (ap_kds a)) (handle_ble_commands hw t a)"
proof (cases "ap_ble a")
  case (Some b)
  let ?a1 = "foldl (\<lambda>a w. on_credentials hw t w a) (a\<lparr>ap_ble := Some (b\<lparr>bs_cmds := [], bs_wifi := []\<rparr>)\<rparr>) (bs_wifi b)"
  have "ap_kds (foldl (\<lambda>a w. on_credentials hw t w a) y ws) = ap_kds y" for ws and y :: "('a, 'b, 'c, 'd) app"
    by (induction ws arbitrary: y) (simp_all add: on_credentials_def push_event_def request_def upd_config_def)
  then have "k_io (ap_kds ?a1) = k_io (ap_kds a)" by simp
  with commands_wait [of hw ?a1 t "bs_cmds b"] Some show ?thesis by (simp add: handle_ble_commands_def Let_def)
qed (simp add: handle_ble_commands_def)

text \<open>
  The board of a busy iteration: a frame other than the last one is sent, and then the iteration only
  waits.
\<close>

definition shown_board :: "('s, 'n, 'c, 'b) hardware \<Rightarrow> rgb list \<Rightarrow> ('s, 'n, 'c, 'b) app \<Rightarrow> 's" where
  "shown_board hw fr a = (if ap_last_frame a = Some fr then k_io (ap_kds a) else snd (hw_led hw fr (k_io (ap_kds a))))"

text \<open>
  How an iteration rests: it comes round again after 100 ms, or the phone's restart comes after 300 ms;
  the frame is on the matrix, the link is dropped, no cycle is counted, and apart from
  the frame the board has only been waited on.
\<close>

definition rests :: "('s, 'n, 'c, 'b) hardware \<Rightarrow> ('s, 'n, 'c, 'b) app \<Rightarrow> rgb list \<Rightarrow> ('s, 'n, 'c, 'b) app ctl \<Rightarrow> bool" where
  "rests hw a fr q \<longleftrightarrow> (\<exists>x. (q = Again x \<and> k_io (ap_kds x) = sleep (hw_uart hw) 100000 (shown_board hw fr a)
        \<or> q = Rebooted x \<and> k_io (ap_kds x) = sleep (hw_uart hw) 300000 (shown_board hw fr a))
     \<and> \<not> k_connected (ap_kds x) \<and> ap_ota_was_busy x \<and> ap_cycle x = ap_cycle a \<and> ap_last_frame x = Some fr)"

lemma busy_rests:
  assumes a: "app_ok a" "writing (o_state (ap_ota_status a))" and br: "brightness (pause_polling hw a) = Some br"
  shows "rests hw a (busy_frame (ap_ota_status a) br) (busy_step hw t a)"
proof -
  let ?fr = "busy_frame (ap_ota_status a) br"
  let ?y = "show_frame hw ?fr (pause_polling hw a)"
  let ?h = "handle_ble_commands hw t ?y"
  have y: "steady ?y = (False, True, ap_cycle a, Some ?fr)" "k_io (ap_kds ?y) = shown_board hw ?fr a"
    using a(1) by (auto simp: steady_def show_frame_def pause_polling_def save_learner_def led_send_def set_io_def
        shown_board_def app_ok_def case_prod_beta)
  have "lands app_ok ?h" using a(1) by (intro handle_ok) (simp add: pause_ok)
  moreover note handle_steady [of ?y hw t] handle_waits [of hw ?y t]
  moreover have "busy_step hw t a = seq ?h (\<lambda>z. Again (delay hw 100000 z))" using a(2) br by (simp add: busy_step_def)
  ultimately show ?thesis using y
    by (cases ?h) (simp_all add: rests_def seq_def steady_def delay_def set_io_def)
qed

text \<open>An iteration that sees an image written.\<close>

lemma writing_rests:
  assumes "app_ok a" "\<not> hangs a" "writing (o_state (status_seen a))"
  shows "\<exists>br. rests hw a (busy_frame (status_seen a) br) (loop_body hw a)"
proof -
  let ?t = "uptime hw a"
  obtain a1 where a1: "mirror_ota hw ?t a = Go a1" "app_ok a1" using mirror_goes [OF assms(1,2)] by blast
  then have s: "ap_ota_status a1 = status_seen a" "steady a1 = steady a"
    using mirror_sees [OF a1(1)] by simp_all
  obtain br where "brightness (pause_polling hw a1) = Some br"
    using brightness_some pause_ok [OF a1(2)] by blast
  from busy_rests [OF a1(2) _ this, of ?t] assms(3)
  have r: "rests hw a1 (busy_frame (status_seen a) br) (busy_step hw ?t a1)" by (simp add: s)
  moreover have "shown_board hw fr a1 = shown_board hw fr a" "ap_cycle a1 = ap_cycle a" for fr
    using s(2) mirror_board [OF a1(1)] by (simp_all add: shown_board_def steady_def)
  moreover have "loop_body hw a = busy_step hw ?t a1"
    using r by (auto simp: loop_body_def Let_def a1(1) rests_def seq_def)
  ultimately have "rests hw a (busy_frame (status_seen a) br) (loop_body hw a)" by (simp add: rests_def)
  then show ?thesis ..
qed

section \<open>The moving flag\<close>

text \<open>The flag the worker's install gate reads, and whether the BLE service is down.\<close>

definition motion :: "('s, 'n, 'c, 'b) app \<Rightarrow> bool option \<times> bool" where
  "motion a = (map_option (\<lambda>lk. sh_moving (lk_shared lk)) (ap_ota a), ap_ble a = None)"

lemma motion_outer: "outer x = outer a \<Longrightarrow> motion x = motion a"
  by (simp add: outer_def motion_def)

lemmas motion_same [simp] = outer_fields [THEN motion_outer] outer_steps [THEN motion_outer]
  outer_more [THEN motion_outer]

lemma motion_request [simp]: "motion (request r a) = motion a"
  by (cases "ap_ota a") (simp_all add: motion_def request_def lk_request_def)

lemma motion_link: "(\<And>sh. sh_moving (g sh) = sh_moving sh) \<Longrightarrow> motion (upd_link g a) = motion a"
  by (cases "ap_ota a") (simp_all add: motion_def upd_link_def)

lemma mirror_motion: "leaves motion (motion a) (mirror_ota hw t a)"
proof -
  have b: "ap_ble x = Some b \<Longrightarrow> motion (x\<lparr>ap_ble := Some b'\<rparr>) = motion x" for x :: "('a, 'b, 'c, 'd) app" and b b'
    by (simp add: motion_def)
  have u: "motion (upd_link (\<lambda>sh. sh\<lparr>sh_changed := False\<rparr>) a) = motion a" by (rule motion_link) simp
  show ?thesis
    by (auto simp: mirror_ota_def Let_def b u split: option.split)
qed

lemma motion_tests [simp]: "motion (boot_check hw a) = motion a" "motion (self_test hw t a) = motion a"
proof -
  have f: "motion (a\<lparr>ap_boot_check_done := d\<rparr>) = motion a" "motion (a\<lparr>ap_self_test_done := d\<rparr>) = motion a" for d
    by (simp_all add: motion_def)
  show "motion (boot_check hw a) = motion a" by (simp add: boot_check_def Let_def f)
  have "motion (snd (led_send hw fr (a\<lparr>ap_self_test_done := True\<rparr>))) = motion a" for fr by (simp add: f)
  then show "motion (self_test hw t a) = motion a" by (simp add: self_test_def Let_def f case_prod_beta)
qed

lemma no_phone_handle: "snd (motion a) \<Longrightarrow> handle_ble_commands hw t a = Go a"
  by (simp add: motion_def handle_ble_commands_def)

lemma no_phone_drive: "snd (motion a) \<Longrightarrow> leaves motion (motion a) (drive_steps hw t a)"
proof (rule drive_leaves)
  fix rd g low and x :: "('a, 'b, 'c, 'd) app"
  assume "snd (motion a)" "motion x = motion a"
  then have "ap_ble x = None" by (simp add: motion_def)
  then have "leaves motion (motion x) (telemetry hw t rd g low x)"
    using leaves_weaken [where f = outer and g = motion, OF telemetry_no_phone motion_outer] by blast
  then show "leaves motion (motion a) (telemetry hw t rd g low x)" using \<open>motion x = motion a\<close> by simp
qed (rule motion_outer)

lemma fail_motion: "leaves motion (motion a) (fail_step hw a)"
  by (auto simp: fail_step_def split: option.split)

lemma loop_motion:
  fixes a :: "('s, 'n, 'c, 'b) app"
  assumes "ap_ble a = None"
  shows "leaves motion (motion a) (loop_body hw a)"
proof -
  let ?t = "uptime hw a"
  have m: "snd (motion a)" using assms by (simp add: motion_def)
  have work: "leaves motion (motion a) (work_steps hw ?t x)" if x: "motion x = motion a" for x
  proof -
    let ?y = "self_test hw ?t (boot_check hw x)"
    have "handle_ble_commands hw ?t ?y = Go ?y" using m x by (simp add: no_phone_handle)
    then show ?thesis using no_phone_drive [of ?y hw ?t] m x by (simp add: work_steps_def)
  qed
  have busy: "leaves motion (motion a) (busy_step hw ?t x)" if x: "motion x = motion a" for x
  proof -
    have "motion (show_frame hw fr (pause_polling hw x)) = motion a" for fr using x by simp
    then have "handle_ble_commands hw ?t (show_frame hw fr (pause_polling hw x))
        = Go (show_frame hw fr (pause_polling hw x))" for fr
      using m no_phone_handle by metis
    then show ?thesis using x by (auto simp: busy_step_def split: option.split)
  qed
  have fails: "leaves motion (motion a) (seq (fail_step hw x) (work_steps hw ?t))" if x: "motion x = motion a" for x
    by (rule leaves_seq) (use fail_motion [of x hw] x in simp, rule work)
  show ?thesis unfolding loop_body_def Let_def
    by (rule leaves_seq [OF mirror_motion], rule leaves_seq, rule busy, assumption, rule fails)
qed

lemma slow_publish_ota: "leaves ap_ota (ap_ota a) (slow_publish hw t b a)"
  by (auto simp: slow_publish_def Let_def case_prod_beta split: option.split)

lemma telemetry_motion:
  assumes "ap_ble a = Some b"
  shows "leaves (\<lambda>x. map_option (\<lambda>lk. sh_moving (lk_shared lk)) (ap_ota x))
    (map_option (\<lambda>_. moving_now rd) (ap_ota a)) (telemetry hw t rd g low a)"
proof -
  let ?m = "\<lambda>x. map_option (\<lambda>lk. sh_moving (lk_shared lk)) (ap_ota x)"
  let ?a1 = "link_event (rd_link_up rd) t a"
  have b: "ap_ble ?a1 = Some b" "ap_ota ?a1 = ap_ota a"
    using assms outer_more(8) [of "rd_link_up rd" t a] by (simp_all only: outer_def prod.inject)
  then have m: "?m (note_moving rd ?a1) = map_option (\<lambda>_. moving_now rd) (ap_ota a)"
    by (cases "ap_ota a") (simp_all add: note_moving_def upd_link_def)
  have s: "leaves ?m (?m x) (slow_publish hw t b1 x)" for x b1
    using slow_publish_ota [of x hw t b1] by (cases "slow_publish hw t b1 x") simp_all
  show ?thesis
  proof (cases "live_notify hw (live_now hw t rd g low (note_moving rd ?a1)) b")
    case (Some b1)
    let ?a3 = "(note_moving rd ?a1)\<lparr>ap_ble := Some b1\<rparr>"
    show ?thesis
      using b(1) Some m s [of "?a3\<lparr>ap_last_publish := clock hw ?a3\<rparr>" b1] by (simp add: telemetry_def Let_def)
  qed (use b in \<open>simp add: telemetry_def Let_def\<close>)
qed

section \<open>What is published\<close>

text \<open>The values of a series that differ from the one before.\<close>

fun changes :: "'v option \<Rightarrow> 'v list \<Rightarrow> 'v list" where
  "changes o' [] = []"
| "changes o' (v # vs) = (if o' = Some v then changes o' vs else v # changes (Some v) vs)"

abbreviation publish_all ::
  "'b bt_stack \<Rightarrow> attr \<Rightarrow> string list \<Rightarrow> 'b server \<times> published \<Rightarrow> 'b server \<times> published" where
  "publish_all bt at vs p \<equiv> foldl (\<lambda>p v. publish_if_changed bt at v p) p vs"

lemma publish_all_ready:
  assumes "bs_ready b" "bs_handles b ! char_index at = Some h"
  shows "bs_calls (fst (publish_all bt at vs (b, ss, bs)))
    = bs_calls b @ map (\<lambda>v. SetAttr h (take (cd_max_len (CHARS ! char_index at)) (bytes_of v))) (changes (ss at) vs)"
  using assms
proof (induction vs arbitrary: b ss)
  case (Cons v vs)
  show ?case
  proof (cases "ss at = Some v")
    case True
    then show ?thesis using Cons by (simp add: publish_if_changed_def)
  next
    case False
    let ?b1 = "publish bt at (bytes_of v) b"
    have b1: "?b1 = snd (bcall bt (SetAttr h (take (cd_max_len (CHARS ! char_index at)) (bytes_of v))) b)"
      using Cons.prems by (simp add: publish_def)
    show ?thesis using False Cons.prems Cons.IH [of ?b1 "ss(at \<mapsto> v)"]
      by (simp add: publish_if_changed_def b1 fun_upd_def)
  qed
qed simp

lemma publish_all_early:
  assumes "\<not> bs_ready b"
  shows "fst (publish_all bt at vs (b, ss, bs)) = b"
    and "fst (snd (publish_all bt at (vs @ [v]) (b, ss, bs))) at = Some v"
proof -
  have "fst (publish_if_changed bt at v (b, p)) = b" for v p
    using assms by (cases p) (simp add: publish_if_changed_def publish_def)
  then have f: "fst (publish_all bt at vs (b, p)) = b" for p vs
    by (induction vs arbitrary: p rule: rev_induct) (simp_all, metis prod.collapse)
  then show "fst (publish_all bt at vs (b, ss, bs)) = b" by simp
  show "fst (snd (publish_all bt at (vs @ [v]) (b, ss, bs))) at = Some v"
    by (cases "publish_all bt at vs (b, ss, bs)") (auto simp: publish_if_changed_def)
qed

section \<open>Properties\<close>

text \<open>
  C5. Unattended actions: whatever an iteration asks the worker for beyond the app's own requests, it
  asks at most once per boot and under its conditions. An image is confirmed only while it is
  on probation, 20 s after start-up, with the phone service up; an installing check needs 8 s
  of uptime, stored credentials, the install policy, and no image on probation.
\<close>

theorem unattended_requests:
  assumes "ends_in (loop_body hw a) x"
  shows "\<exists>new. reqs x = reqs a @ new \<and> set new \<subseteq> {ReqMarkValid, ReqCheck True, ReqCheck False, ReqInstall, ReqTestWifi}
    \<and> count_list new ReqMarkValid \<le> 1 \<and> count_list new (ReqCheck True) \<le> 1
    \<and> (ReqMarkValid \<in> set new \<longrightarrow> \<not> ap_self_test_done a \<and> ap_self_test_done x \<and> ap_ble a \<noteq> None
         \<and> 20000000 \<le> elapsed hw (ap_boot a) a)
    \<and> (ReqCheck True \<in> set new \<longrightarrow> \<not> ap_boot_check_done a \<and> ap_boot_check_done x \<and> ap_self_test_done a
         \<and> 8000000 \<le> elapsed hw (ap_boot a) a \<and> cfg_boot_policy (cs_cfg (ap_config a)) = 2
         \<and> cfg_ssid (cs_cfg (ap_config a)) \<noteq> None)
    \<and> (ap_boot_check_done a \<longrightarrow> ap_boot_check_done x) \<and> (ap_self_test_done a \<longrightarrow> ap_self_test_done x)"
proof -
  obtain new where n: "reqs x = reqs a @ new"
    "on_own_account hw a new (ap_boot_check_done x, ap_self_test_done x)"
    using loop_own [OF assms] by blast
  have all: "r \<in> {ReqMarkValid, ReqCheck True, ReqCheck False, ReqInstall, ReqTestWifi}" for r
  proof (cases r)
    case (ReqCheck b)
    then show ?thesis by (cases b) simp_all
  qed simp_all
  show ?thesis
    by (rule exI [of _ new], use n all in \<open>simp add: on_own_account_def SELF_TEST_UPTIME_def
        BOOT_CHECK_DELAY_def BOOT_CHECK_AND_INSTALL_def subset_iff\<close>)
qed

text \<open>After twenty seconds on probation the simulated board asks for the confirmation.\<close>

lemma sim_confirms: "\<exists>x. ends_in (loop_body sim_hw (sim_app 20000000)) x \<and> ReqMarkValid \<in> set (reqs x)"
proof -
  let ?a = "sim_app 20000000"
  let ?t = "uptime sim_hw ?a"
  let ?b = "self_test sim_hw ?t (boot_check sim_hw ?a)"
  have u: "drains (hw_uart sim_hw) (length \<circ> snd)" by (simp add: sim_hw_def list_uart_drains)
  have c: "clock sim_hw ?a = 20000000" by (simp add: clock_def sim_hw_def sim_app_def list_uart_def kds_new_def)
  have f: "ap_ota ?a = Some sim_link" "\<not> writing (o_state (ap_ota_status ?a))" "ap_fail_until ?a = None"
    "ap_ota_was_busy ?a = False" "ap_ota ?a = Some sim_link" "ap_self_test_done ?a = False" "ap_boot ?a = 0"
    "ap_ble ?a \<noteq> None" "ap_boot_check_done ?a = True" "\<not> sh_changed (lk_shared sim_link)"
    by (simp_all add: sim_app_def writing_def default_ota_def sim_link_def)
  have nb: "?a\<lparr>ap_ota_was_busy := False\<rparr> = ?a" by (simp add: sim_app_def)
  have l: "loop_body sim_hw ?a = seq (handle_ble_commands sim_hw ?t ?b) (drive_steps sim_hw ?t)"
    by (simp add: loop_body_def work_steps_def Let_def mirror_ota_def busy_step_def fail_step_def f nb)
  have b: "boot_check sim_hw ?a = ?a" by (simp add: boot_check_def f)
  have led: "led_send sim_hw fr y = (True, y)" for fr y by (simp add: led_send_def sim_hw_def set_io_def)
  have "ReqMarkValid \<in> set (reqs ?b)"
    using f by (auto simp: self_test_def b elapsed_def c SELF_TEST_UPTIME_def Let_def led push_event_def
        request_def lk_request_def try_send_def sim_link_def reqs_def)
  moreover have "\<not> hangs ?a" by (simp add: hangs_def f)
  with u sim_app_ok have "lands app_ok (loop_body sim_hw ?a)" by (rule loop_body_ok)
  then obtain x where x: "ends_in (loop_body sim_hw ?a) x" by (cases "loop_body sim_hw ?a") (auto simp: ends_in_def)
  moreover have "adds app_reqs ?b x" using x tail_sends [of ?b sim_hw ?t] by (auto simp: l ends_in_def)
  ultimately show ?thesis by (auto simp: adds_def outbox_def)
qed

theorem unattended_requests_witness:
  "\<exists>x. ends_in (loop_body sim_hw (sim_app 20000000)) x
     \<and> ap_self_test_done x \<and> 20000000 \<le> elapsed sim_hw (ap_boot (sim_app 20000000)) (sim_app 20000000)"
proof -
  obtain x where x: "ends_in (loop_body sim_hw (sim_app 20000000)) x" "ReqMarkValid \<in> set (reqs x)"
    using sim_confirms by blast
  have "reqs (sim_app 20000000) = []" by (simp add: reqs_def sim_app_def sim_link_def)
  with unattended_requests [OF x(1)] x show ?thesis by auto
qed

text \<open>
  C22. The app's settings survive a restart: handling the queued credentials and commands leaves exactly
  the settings that their meaning gives, in order and up to a restart command, and with working
  flash the next boot loads them.
\<close>

theorem app_settings_survive_restart:
  assumes "cfg_lawful (hw_cfg hw) strs u8s" "cfg_reliable (hw_cfg hw)"
    and "ap_config a = run (cfg_step (hw_cfg hw)) (cfg_open (hw_cfg hw) n d) past" "list_all cfg_op_ok past"
    and "ap_ble a = Some b" "server_ok b" "\<And>u. SetManifestUrl u \<in> set (bs_cmds b) \<Longrightarrow> length u < 256"
    and "ends_in (handle_ble_commands hw t a) x"
  shows "cs_cfg (ap_config x) = run cfg_spec (cs_cfg (ap_config a)) (settings_ops b)
    \<and> cs_cfg (cfg_open (hw_cfg hw) (cs_nvs (ap_config x)) d) = cs_cfg (ap_config x)"
  using app_settings_facts [OF assms] handle_config [OF assms(5,8)] by (simp add: cfg_run_spec)

definition sim_commands :: "unit server" where
  "sim_commands = (new_server ())\<lparr>bs_cmds := [SetBootPolicy 2, SetBrightness 9, ForgetWifi, Reboot, SetBootPolicy 0],
     bs_wifi := [\<lparr>w_ssid = ''garage'', w_psk = ''secret12''\<rparr>]\<rparr>"

theorem app_settings_survive_restart_witness:
  "\<exists>x. ends_in (handle_ble_commands sim_hw 7 ((sim_app 5)\<lparr>ap_ble := Some sim_commands\<rparr>)) x
     \<and> cs_cfg (cfg_open map_cfg (cs_nvs (ap_config x)) 1)
       = \<lparr>cfg_ssid = None, cfg_psk = [], cfg_boot_policy = 2, cfg_manifest_url = None, cfg_brightness_idx = 2\<rparr>"
proof -
  let ?a = "(sim_app 5)\<lparr>ap_ble := Some sim_commands\<rparr>"
  have ok: "server_ok sim_commands"
    using new_server_ok [of "()"]
    by (simp add: sim_commands_def server_ok_def CMD_QUEUE_def WIFI_QUEUE_def wifi_ok_def utf8_valid.simps)
  have hc: "hw_cfg sim_hw = map_cfg" by (simp add: sim_hw_def)
  have c: "ap_config ?a = run (cfg_step (hw_cfg sim_hw)) (cfg_open (hw_cfg sim_hw) (Map.empty, Map.empty) 1) []"
    by (simp add: sim_app_def hc DEFAULT_BOOT_POLICY_def BOOT_CHECK_def)
  have "app_ok ?a" using sim_app_ok [of 5] ok by (intro ble_ok) (simp_all add: sim_app_def)
  then have "lands app_ok (handle_ble_commands sim_hw 7 ?a)" by (rule handle_ok)
  then obtain x where x: "ends_in (handle_ble_commands sim_hw 7 ?a) x"
    by (cases "handle_ble_commands sim_hw 7 ?a") (auto simp: ends_in_def)
  have u: "\<And>u. SetManifestUrl u \<in> set (bs_cmds sim_commands) \<Longrightarrow> length u < 256" by (simp add: sim_commands_def)
  have "cfg_lawful (hw_cfg sim_hw) fst snd" "cfg_reliable (hw_cfg sim_hw)"
    by (simp_all add: hc map_cfg_lawful map_cfg_reliable)
  from app_settings_survive_restart [OF this c _ _ ok u x]
  have "cs_cfg (cfg_open map_cfg (cs_nvs (ap_config x)) 1) = run cfg_spec (cs_cfg (ap_config ?a)) (settings_ops sim_commands)"
    by (simp add: hc)
  also have "cs_cfg (ap_config ?a) = cs_cfg (cfg_open map_cfg (Map.empty, Map.empty) 1)" using c by (simp add: hc)
  finally show ?thesis using x
    by (intro exI [of _ x]) (simp add: open_stored [OF map_cfg_lawful] fit_def settings_ops_def sim_commands_def min_def)
qed

text \<open>
  C28. The moving flag, which the worker's install gate reads, follows the speed only through the phone
  link: with the BLE service up the telemetry sets it to whether the speed read in this cycle
  is at least 1 km/h, and with the service down no iteration changes it.
\<close>

theorem moving_flag_needs_phone:
  "(\<forall>b. ap_ble a = Some b \<longrightarrow> ends_in (telemetry hw t rd g low a) x \<longrightarrow>
      map_option (\<lambda>lk. sh_moving (lk_shared lk)) (ap_ota x) = map_option (\<lambda>_. moving_now rd) (ap_ota a))
   \<and> (ap_ble a = None \<longrightarrow> ends_in (loop_body hw a) x \<longrightarrow>
      map_option (\<lambda>lk. sh_moving (lk_shared lk)) (ap_ota x) = map_option (\<lambda>lk. sh_moving (lk_shared lk)) (ap_ota a))"
  using telemetry_motion [of a _ rd hw t g low] loop_motion [of a hw] by (auto simp: ends_in_def motion_def)

theorem moving_flag_needs_phone_witness:
  "\<exists>x. ends_in (loop_body sim_hw ((sim_app 5)\<lparr>ap_ble := None\<rparr>)) x
     \<and> map_option (\<lambda>lk. sh_moving (lk_shared lk)) (ap_ota x) = Some False"
proof -
  let ?a = "(sim_app 5)\<lparr>ap_ble := None\<rparr>"
  have u: "drains (hw_uart sim_hw) (length \<circ> snd)" by (simp add: sim_hw_def list_uart_drains)
  have "app_ok ?a" using sim_app_ok [of 5] by (simp add: app_ok_def)
  moreover have "\<not> hangs ?a" by (simp add: hangs_def)
  ultimately have "lands app_ok (loop_body sim_hw ?a)" using u loop_body_ok by blast
  then obtain x where x: "ends_in (loop_body sim_hw ?a) x"
    by (cases "loop_body sim_hw ?a") (auto simp: ends_in_def)
  have "map_option (\<lambda>lk. sh_moving (lk_shared lk)) (ap_ota ?a) = Some False" by (simp add: sim_app_def sim_link_def)
  then show ?thesis using moving_flag_needs_phone [of ?a sim_hw _ _ _ _ x] x by auto
qed

text \<open>
  C40. The published cache: for a built service the attribute is written with exactly the values that
  differ from the one before, in order; for a service still being built nothing is written, yet
  the last value counts as published, so that the same value is not written later either.
\<close>

theorem published_on_change_only:
  "(bs_ready b \<and> bs_handles b ! char_index at = Some h \<longrightarrow>
      bs_calls (fst (publish_all bt at vs (b, ss, bs)))
        = bs_calls b @ map (\<lambda>v. SetAttr h (take (cd_max_len (CHARS ! char_index at)) (bytes_of v))) (changes (ss at) vs))
   \<and> (\<not> bs_ready b \<longrightarrow> fst (publish_all bt at (vs @ [v]) (b, ss, bs)) = b
      \<and> publish_if_changed bt at v (b2, snd (publish_all bt at (vs @ [v]) (b, ss, bs)))
        = (b2, snd (publish_all bt at (vs @ [v]) (b, ss, bs))))"
proof (intro conjI impI)
  assume n: "\<not> bs_ready b"
  show "fst (publish_all bt at (vs @ [v]) (b, ss, bs)) = b" using n by (rule publish_all_early(1))
  show "publish_if_changed bt at v (b2, snd (publish_all bt at (vs @ [v]) (b, ss, bs)))
      = (b2, snd (publish_all bt at (vs @ [v]) (b, ss, bs)))"
    using publish_all_early(2) [OF n, where bt = bt and at = at and vs = vs and v = v and ss = ss and bs = bs]
    by (cases "snd (publish_all bt at (vs @ [v]) (b, ss, bs))") (simp add: publish_if_changed_def)
qed (use publish_all_ready in blast)

theorem published_on_change_only_witness:
  "bs_calls (fst (publish_all sim_bt Command [''a'', ''a'', ''b''] (sim_ble, Map.empty, Map.empty)))
     = bs_calls sim_ble @ [SetAttr 60 (bytes_of ''a''), SetAttr 60 (bytes_of ''b'')]
   \<and> fst (publish_all sim_bt Events [''a''] (new_server (), Map.empty, Map.empty)) = new_server ()"
proof -
  have r: "bs_ready sim_ble" "bs_handles sim_ble ! char_index Command = Some 60" "\<not> bs_ready (new_server ())"
    by (simp_all add: sim_ble_def new_server_def)
  have l: "cd_max_len (CHARS ! 7) = 256" by (simp add: CHARS_def writable_def)
  show ?thesis
    using published_on_change_only [where b = sim_ble and at = Command and h = 60 and bt = sim_bt
        and vs = "[''a'', ''a'', ''b'']" and ss = Map.empty and bs = Map.empty]
      published_on_change_only [where b = "new_server ()" and at = Events and bt = sim_bt and vs = "[]"
        and v = "''a''" and ss = Map.empty and bs = Map.empty] r
    by (simp add: l bytes_of_def)
qed

end
