(* ===== verification/Main_Guarantee.thy ===== *)
theory Main_Guarantee
  imports Main_Safety
begin

text \<open>
  What one iteration of the main loop may do to the state it shares with the worker and the
  phone: a locale of guarantees, proved once for every step of the iteration, with two instances.
  An iteration asks for no install unless the phone did or the policy says so, and it only
  nudges the shared status. The last section puts this together with \<open>Main_Total\<close>: when a run of
  the loop gets stuck.
\<close>

section \<open>What an iteration may do\<close>

text \<open>A step that, when it ends, ends in a relation to where it began.\<close>

definition guar :: "('x \<Rightarrow> 'x \<Rightarrow> bool) \<Rightarrow> 'x \<Rightarrow> 'x ctl \<Rightarrow> bool" where
  "guar R a q \<longleftrightarrow> q = Stuck \<or> lands (R a) q"

lemma guar_simps [simp]:
  "guar R a Stuck" "guar R a (Go x) = R a x" "guar R a (Again x) = R a x" "guar R a (Rebooted x) = R a x"
  by (simp_all add: guar_def)

lemma guar_ends: "guar R a q \<Longrightarrow> ends_in q x \<Longrightarrow> R a x"
  by (auto simp: ends_in_def)

lemma guar_after: "transp R \<Longrightarrow> R a b \<Longrightarrow> guar R b q \<Longrightarrow> guar R a q"
  by (cases q) (simp_all, (erule (2) transpD)+)

lemma guar_seq: "transp R \<Longrightarrow> guar R a q \<Longrightarrow> (\<And>x. guar R x (f x)) \<Longrightarrow> guar R a (seq q f)"
  by (cases q) (simp_all add: seq_def, erule (1) guar_after, simp)

text \<open>
  The iteration is its approach, up to the bus, and the ride: reading, learning, showing, telling.
\<close>

definition approach :: "('s, 'n, 'c, 'b) hardware \<Rightarrow> ('s, 'n, 'c, 'b) app \<Rightarrow> ('s, 'n, 'c, 'b) app ctl" where
  "approach hw a =
     (let t = uptime hw a in
      seq (mirror_ota hw t a) (\<lambda>a1.
      seq (busy_step hw t a1) (\<lambda>a2.
      seq (fail_step hw a2) (\<lambda>a3.
      seq (handle_ble_commands hw t (self_test hw t (boot_check hw a3))) (\<lambda>a4.
      seq (reconnect_step hw (button_step hw t a4)) (deep_step hw))))))"

lemma seq_assoc: "seq (seq q f) g = seq q (\<lambda>x. seq (f x) g)"
  by (cases q) (simp_all add: seq_def)

lemma loop_split: "loop_body hw a = seq (approach hw a) (ride_steps hw (uptime hw a))"
  by (simp add: loop_body_def approach_def work_steps_def [abs_def] drive_steps_def [abs_def] Let_def seq_assoc)

text \<open>
  A relation that every step keeps is kept by the approach, or the iteration: the one place that
  follows the code's composition of the steps.
\<close>

locale approach_relation =
  fixes hw :: "('s, 'n, 'c, 'b) hardware"
    and R :: "('s, 'n, 'c, 'b) app \<Rightarrow> ('s, 'n, 'c, 'b) app \<Rightarrow> bool"
  assumes trans: "transp R"
    and idle: "R a a" "R a (delay hw n a)" "R a (a\<lparr>ap_ota_was_busy := f\<rparr>)"
    and mirror: "guar R a (mirror_ota hw t a)"
    and paused: "R a (pause_polling hw a)" "R a (show_frame hw fr a)" "guar R a (fail_step hw a)"
    and tests: "R a (boot_check hw a)" "R a (self_test hw t a)"
    and commands: "guar R a (handle_ble_commands hw t a)"
    and button: "R a (button_step hw t a)"
    and bus: "guar R a (reconnect_step hw a)" "guar R a (deep_step hw a)"
begin

lemmas after = guar_after [OF trans]
lemmas steps = guar_seq [OF trans]
lemmas chain = transpD [OF trans]

lemma busy: "guar R a (busy_step hw t a)"
proof -
  have "guar R a (seq (handle_ble_commands hw t (show_frame hw fr (pause_polling hw a))) (\<lambda>a3. Again (delay hw 100000 a3)))" for fr
    by (rule steps [OF after [OF chain [OF paused(1,2)] commands]]) (simp add: idle)
  then show ?thesis by (simp add: busy_step_def idle split: option.split)
qed

lemma approach: "guar R a (approach hw a)"
  unfolding approach_def Let_def
  by (intro steps mirror busy paused after [OF chain [OF tests] commands] after [OF button bus(1)] bus(2))

end

locale step_relation = approach_relation +
  assumes reads: "scan_step hw a = Some (link, x) \<Longrightarrow> R a x" "poll hw t a = Some (rd, x) \<Longrightarrow> R a x"
    and persist: "guar R a (persist_step hw a)" "R a (forget_learned a)"
    and displays: "display_step hw rd a = Some (g, low, rd1, x) \<Longrightarrow> R a x"
    and web: "R a (web_step hw rd g a)"
    and tells: "guar R a (telemetry hw t rd g low a)"
    and ends: "R a (end_cycle hw a)"
begin

lemma shows_and_tells:
  "guar R a (case display_step hw rd (forget_learned a) of None \<Rightarrow> Stuck
     | Some (g, low, rd1, a3) \<Rightarrow> seq (telemetry hw t rd1 g low (web_step hw rd1 g a3)) (\<lambda>a4. Go (end_cycle hw a4)))"
proof (cases "display_step hw rd (forget_learned a)")
  case (Some q)
  then obtain g low rd1 a3 where d: "display_step hw rd (forget_learned a) = Some (g, low, rd1, a3)"
    by (cases q) auto
  have "R a (web_step hw rd1 g a3)" by (rule chain [OF persist(2) chain [OF displays [OF d] web]])
  moreover have "guar R x (seq (telemetry hw t rd1 g low x) (\<lambda>a4. Go (end_cycle hw a4)))" for x
    by (rule steps [OF tells]) (simp add: ends)
  ultimately show ?thesis unfolding d by (simp add: after)
qed simp

lemma ride: "guar R a (ride_steps hw t a)"
proof (cases "scan_step hw a")
  case (Some q)
  then obtain link a0 where s: "scan_step hw a = Some (link, a0)" by (cases q) auto
  show ?thesis
  proof (cases "poll hw t a0")
    case (Some p)
    then obtain rd0 a1 where p: "poll hw t a0 = Some (rd0, a1)" by (cases p) auto
    have "guar R a (persist_step hw a1)" by (rule after [OF chain [OF reads(1) [OF s] reads(2) [OF p]] persist(1)])
    then show ?thesis unfolding ride_steps_def s p option.case prod.case Let_def using shows_and_tells by (rule steps)
  qed (simp add: ride_steps_def s)
qed (simp add: ride_steps_def)

lemma iteration: "guar R a (loop_body hw a)"
  unfolding loop_split by (rule steps [OF approach ride])

end

text \<open>
  A guarantee towards the outside: a transitive relation that holds of every step which changes
  nothing outside, and of the few steps that do.
\<close>

locale guarantee =
  fixes hw :: "('s, 'n, 'c, 'b) hardware"
    and R :: "('s, 'n, 'c, 'b) app \<Rightarrow> ('s, 'n, 'c, 'b) app \<Rightarrow> bool"
  assumes same: "outer x = outer a \<Longrightarrow> R a x"
    and trans: "transp R"
    and mirror: "guar R a (mirror_ota hw t a)"
    and tests: "R a (boot_check hw a)" "R a (self_test hw t a)"
    and commands: "guar R a (handle_ble_commands hw t a)"
    and tells: "guar R a (telemetry hw t rd g low a)"
begin

lemma guar_same: "leaves outer (outer a) q \<Longrightarrow> guar R a q"
  by (cases q) (simp_all add: same)

end

sublocale guarantee < loop: step_relation hw R
proof
  fix a x t link rd g low rd1
  show "guar R a (persist_step hw a)" "guar R a (reconnect_step hw a)" "guar R a (deep_step hw a)"
    by (rule guar_same, rule persist_outer reconnect_outer deep_outer)+
  show "scan_step hw a = Some (link, x) \<Longrightarrow> R a x" "poll hw t a = Some (rd, x) \<Longrightarrow> R a x"
    "display_step hw rd a = Some (g, low, rd1, x) \<Longrightarrow> R a x"
    using scan_outer poll_outer display_outer same by blast+
qed (simp_all add: same trans mirror tests commands tells fail_step_def split: option.split)

section \<open>Consent to an update\<close>

text \<open>The commands by which the rider's phone asks for an install, now or at every start-up.\<close>

fun consent :: "command \<Rightarrow> bool" where
  "consent InstallUpdate \<longleftrightarrow> True"
| "consent (SetBootPolicy p) \<longleftrightarrow> BOOT_CHECK_AND_INSTALL \<le> p"
| "consent _ \<longleftrightarrow> False"

definition calm :: "'b server \<Rightarrow> bool" where
  "calm b \<longleftrightarrow> server_ok b \<and> (\<forall>c \<in> set (bs_cmds b). \<not> consent c)"

definition harmless :: "ota_request set" where
  "harmless = {ReqCheck False, ReqTestWifi, ReqMarkValid}"

text \<open>No install is asked for, and nothing waits that would ask for one.\<close>

definition quiet :: "('s, 'n, 'c, 'b) app \<Rightarrow> bool" where
  "quiet a \<longleftrightarrow> set (reqs a) \<subseteq> harmless \<and> policy a < BOOT_CHECK_AND_INSTALL \<and> pred_option calm (ap_ble a)"

lemma quiet_outer: "outer x = outer a \<Longrightarrow> quiet x = quiet a"
  by (simp add: outer_def quiet_def reqs_def)

lemmas quiet_same [simp] = outer_fields [THEN quiet_outer] outer_steps [THEN quiet_outer]
  outer_more [THEN quiet_outer]

lemma reqs_set_request: "set (reqs (request r a)) \<subseteq> insert r (set (reqs a))"
  by (auto simp: request_reqs)

lemma quiet_request: "r \<in> harmless \<Longrightarrow> quiet a \<Longrightarrow> quiet (request r a)"
  using reqs_set_request [of r a] by (auto simp: quiet_def policy_def request_def)

lemma quiet_link: "quiet (upd_link g a) = quiet a"
  by (cases "ap_ota a") (simp_all add: quiet_def reqs_def policy_def upd_link_def)

lemma quiet_config:
  "cfg_boot_policy (cs_cfg (f (ap_config a))) < BOOT_CHECK_AND_INSTALL \<Longrightarrow> quiet a \<Longrightarrow> quiet (upd_config f a)"
  by (simp add: quiet_def reqs_def policy_def upd_config_def)

lemma quiet_ble: "pred_option calm b \<Longrightarrow> quiet a \<Longrightarrow> quiet (a\<lparr>ap_ble := b\<rparr>)"
  by (simp add: quiet_def reqs_def policy_def)

lemma quiet_policy: "quiet a \<Longrightarrow> cfg_boot_policy (cs_cfg (ap_config a)) < BOOT_CHECK_AND_INSTALL"
  by (simp add: quiet_def policy_def)

lemma quiet_calm: "quiet a \<Longrightarrow> ap_ble a = Some b \<Longrightarrow> calm b"
  by (simp add: quiet_def)

lemma calm_steps [simp]:
  "calm (publish bt at v b) = calm b" "calm (notify bt at v b) = calm b"
  by (simp_all add: calm_def publish_def Let_def split: option.split)

lemma quiet_command:
  assumes "quiet a" "\<not> consent c"
  shows "lands quiet (on_command hw t c a)"
proof -
  have p: "cfg_boot_policy (cs_cfg (set_brightness nv i cs)) = cfg_boot_policy (cs_cfg cs)"
    "cfg_boot_policy (cs_cfg (set_boot_policy nv q cs)) = min q BOOT_CHECK_AND_INSTALL"
    "cfg_boot_policy (cs_cfg (clear_wifi nv cs)) = cfg_boot_policy (cs_cfg cs)"
    "cfg_boot_policy (cs_cfg (set_manifest_url nv u cs)) = cfg_boot_policy (cs_cfg cs)"
    for nv :: "'c cfg_nvs" and i q u cs
    by (simp_all add: set_brightness_def set_boot_policy_def clear_wifi_def set_manifest_url_def Let_def
        case_prod_beta split: option.split)
  show ?thesis using assms quiet_policy [OF assms(1)]
    by (cases c) (auto simp: on_command_def Let_def p harmless_def quiet_link min_less_iff_disj not_le
        intro!: quiet_request quiet_config)
qed

lemma quiet_commands: "quiet a \<Longrightarrow> \<forall>c \<in> set cs. \<not> consent c \<Longrightarrow> lands quiet (on_commands hw t cs a)"
  by (induction cs arbitrary: a) (auto intro!: lands_seq quiet_command)

lemma quiet_credentials: "quiet a \<Longrightarrow> quiet (foldl (\<lambda>a w. on_credentials hw t w a) a ws)"
proof (induction ws arbitrary: a)
  case (Cons w ws)
  have "quiet (on_credentials hw t w a)"
    using Cons.prems quiet_policy [OF Cons.prems]
    by (auto simp: on_credentials_def harmless_def set_wifi_def Let_def case_prod_beta
        intro!: quiet_request quiet_config)
  then show ?case using Cons.IH by simp
qed simp

lemma calm_emptied: "calm b \<Longrightarrow> calm (b\<lparr>bs_cmds := [], bs_wifi := []\<rparr>)"
  by (simp add: calm_def server_ok_def)

lemma quiet_handle: "quiet a \<Longrightarrow> lands quiet (handle_ble_commands hw t a)"
proof (cases "ap_ble a")
  case (Some b)
  assume q: "quiet a"
  have b: "calm b" using q Some by (rule quiet_calm)
  then have "quiet (a\<lparr>ap_ble := Some (b\<lparr>bs_cmds := [], bs_wifi := []\<rparr>)\<rparr>)"
    using q by (simp add: quiet_ble calm_emptied)
  from quiet_commands [OF quiet_credentials [OF this]] b Some show ?thesis
    by (simp add: handle_ble_commands_def Let_def calm_def)
qed (simp add: handle_ble_commands_def)

lemma quiet_mirror: "quiet a \<Longrightarrow> guar (\<lambda>_. quiet) a (mirror_ota hw t a)"
proof -
  assume q: "quiet a"
  have n: "quiet (note_wifi_change t w (note_ota_change tn t o' (upd_link g a))\<lparr>ap_ota_status := o'', ap_wifi_status := w'\<rparr>)"
    for w tn o' g o'' w' using q by (simp add: quiet_link)
  show ?thesis
    using q n quiet_calm [OF n] by (auto simp: mirror_ota_def Let_def intro!: quiet_ble split: option.split)
qed

lemma quiet_tests:
  assumes "quiet a"
  shows "quiet (boot_check hw a)" "quiet (self_test hw t a)"
proof -
  have d: "quiet (a\<lparr>ap_boot_check_done := x\<rparr>)" "quiet (a\<lparr>ap_self_test_done := x\<rparr>)" for x
    using assms by (simp_all add: quiet_def reqs_def policy_def)
  show "quiet (boot_check hw a)" using assms d(1) quiet_policy [OF assms]
    by (auto simp: boot_check_def Let_def harmless_def intro!: quiet_request)
  have "quiet (snd (led_send hw fr (a\<lparr>ap_self_test_done := True\<rparr>)))" for fr using d by simp
  then show "quiet (self_test hw t a)" using assms d(2)
    by (auto simp: self_test_def Let_def harmless_def case_prod_beta intro!: quiet_request)
qed

lemma publish_calm [simp]: "calm (fst (foldl (\<lambda>p (at, v). publish_if_changed bt at v p) p vs)) = calm (fst p)"
  by (induction vs arbitrary: p) (simp_all add: case_prod_beta publish_if_changed_def)

lemma publish_bytes_calm [simp]:
  "calm (fst (foldl (\<lambda>p (at, v). publish_bytes_if_changed bt at v p) p vs)) = calm (fst p)"
  by (induction vs arbitrary: p) (simp_all add: case_prod_beta publish_bytes_if_changed_def)

lemma quiet_slow: "quiet a \<Longrightarrow> calm b \<Longrightarrow> guar (\<lambda>_. quiet) a (slow_publish hw t b a)"
  by (simp add: slow_publish_def Let_def case_prod_beta quiet_ble split: option.split)

lemma quiet_telemetry: "quiet a \<Longrightarrow> guar (\<lambda>_. quiet) a (telemetry hw t rd g low a)"
proof (cases "ap_ble (link_event (rd_link_up rd) t a)")
  case (Some b)
  assume q: "quiet a"
  let ?a1 = "link_event (rd_link_up rd) t a"
  let ?a2 = "note_moving rd ?a1"
  have a2: "quiet ?a2" using q by (simp add: note_moving_def quiet_link)
  have "calm b" using quiet_calm [of ?a1, OF _ Some] q by simp
  show ?thesis
  proof (cases "live_notify hw (live_now hw t rd g low ?a2) b")
    case n: (Some b1)
    let ?a3 = "?a2\<lparr>ap_ble := Some b1\<rparr>"
    have b1: "calm b1" using n \<open>calm b\<close> by (auto simp: live_notify_def split: if_splits)
    then have a3: "quiet ?a3" using a2 by (simp add: quiet_ble)
    then have "quiet (?a3\<lparr>ap_last_publish := u\<rparr>)" for u by (simp only: quiet_same)
    from quiet_slow [where hw = hw and t = t, OF this b1] a3 show ?thesis
      by (auto simp: telemetry_def Let_def Some n guar_def)
  qed (simp add: telemetry_def Let_def Some)
qed (simp add: telemetry_def)

lemma guar_only_if: "(P a \<Longrightarrow> guar (\<lambda>_. Q) a q) \<Longrightarrow> guar (\<lambda>a x. P a \<longrightarrow> Q x) a q"
  by (cases "P a"; cases q) simp_all

interpretation hushed: guarantee hw "\<lambda>a x. quiet a \<longrightarrow> quiet x" for hw :: "('s, 'n, 'c, 'b) hardware"
proof
  fix a x b c :: "('s, 'n, 'c, 'b) app" and t rd g low
  show "outer x = outer a \<Longrightarrow> quiet a \<longrightarrow> quiet x" using quiet_outer by blast
  show "transp (\<lambda>a (x :: ('s, 'n, 'c, 'b) app). quiet a \<longrightarrow> quiet x)" by (auto intro: transpI)
  show "guar (\<lambda>a x. quiet a \<longrightarrow> quiet x) a (mirror_ota hw t a)" by (rule guar_only_if, rule quiet_mirror)
  show "quiet a \<longrightarrow> quiet (boot_check hw a)" "quiet a \<longrightarrow> quiet (self_test hw t a)"
    using quiet_tests by blast+
  show "guar (\<lambda>a x. quiet a \<longrightarrow> quiet x) a (handle_ble_commands hw t a)"
    by (rule guar_only_if, simp add: guar_def quiet_handle)
  show "guar (\<lambda>a x. quiet a \<longrightarrow> quiet x) a (telemetry hw t rd g low a)"
    by (rule guar_only_if, rule quiet_telemetry)
qed

section \<open>What the main loop does to the shared status\<close>

text \<open>It may mark it as seen, set the moving flag, and reset the WiFi status; all else is the worker's.\<close>

definition nudged :: "ota_shared \<Rightarrow> ota_shared \<Rightarrow> bool" where
  "nudged sh sh' \<longleftrightarrow> sh_ota sh' = sh_ota sh \<and> sh_slot sh' = sh_slot sh
     \<and> sh_pending_verify sh' = sh_pending_verify sh \<and> sh_rolled_back_from sh' = sh_rolled_back_from sh
     \<and> (sh_wifi sh' = sh_wifi sh \<and> (sh_changed sh' \<longrightarrow> sh_changed sh) \<or> sh_wifi sh' = default_wifi)"

definition nudges :: "('s, 'n, 'c, 'b) app \<Rightarrow> ('s, 'n, 'c, 'b) app \<Rightarrow> bool" where
  "nudges a x \<longleftrightarrow> rel_option nudged (map_option lk_shared (ap_ota a)) (map_option lk_shared (ap_ota x))"

lemma nudged_refl: "nudged sh sh"
  by (simp add: nudged_def)

lemma nudged_trans: "nudged s1 s2 \<Longrightarrow> nudged s2 s3 \<Longrightarrow> nudged s1 s3"
  by (auto simp: nudged_def)

lemma transp_nudges: "transp (nudges :: ('s, 'n, 'c, 'b) app \<Rightarrow> _)"
proof (rule transpI)
  show "nudges a b \<Longrightarrow> nudges b c \<Longrightarrow> nudges a c" for a b c :: "('s, 'n, 'c, 'b) app"
    by (cases "ap_ota a"; cases "ap_ota b"; cases "ap_ota c") (auto simp: nudges_def elim: nudged_trans)
qed

lemmas nudges_trans = transpD [OF transp_nudges]

lemma nudges_same: "map_option lk_shared (ap_ota x) = map_option lk_shared (ap_ota a) \<Longrightarrow> nudges a x"
  by (simp add: nudges_def option.rel_refl nudged_refl)

lemma nudges_outer: "outer x = outer a \<Longrightarrow> nudges a x"
  by (rule nudges_same) (simp add: outer_def)

lemma nudges_link: "(\<And>sh. nudged sh (g sh)) \<Longrightarrow> nudges a (upd_link g a)"
  by (cases "ap_ota a") (simp_all add: nudges_def upd_link_def)

lemma shared_request [simp]: "map_option lk_shared (ap_ota (request r a)) = map_option lk_shared (ap_ota a)"
  by (cases "ap_ota a") (simp_all add: request_def lk_request_def)

lemma shared_config [simp]: "ap_ota (upd_config f a) = ap_ota a"
  by (simp add: upd_config_def)

lemma shared_same:
  "outer x = outer a \<Longrightarrow> map_option lk_shared (ap_ota x) = map_option lk_shared (ap_ota a)"
  by (simp add: outer_def)

lemma command_nudges: "guar nudges a (on_command hw t c a)"
proof -
  have forget: "nudges a (upd_link (upd_wifi (\<lambda>_. default_wifi)) (push_event t e (upd_config f a)))" for e f
    by (rule nudges_trans [OF nudges_same nudges_link])
      (simp_all add: push_event_def nudged_def upd_wifi_def)
  show ?thesis
    by (cases c) (simp_all add: on_command_def Let_def forget, (intro conjI impI nudges_same,
      simp_all add: push_event_def wipe_calibration_def delay_def set_io_def save_learner_def case_prod_beta)+)
qed

lemma commands_nudge: "guar nudges a (on_commands hw t cs a)"
  by (induction cs arbitrary: a) (simp_all add: nudges_same guar_seq [OF transp_nudges command_nudges])

lemma credentials_nudge: "nudges a (foldl (\<lambda>a w. on_credentials hw t w a) a ws)"
proof (induction ws arbitrary: a)
  case (Cons w ws)
  have "nudges a (on_credentials hw t w a)"
    by (rule nudges_same) (simp add: on_credentials_def push_event_def)
  then show ?case using Cons.IH nudges_trans by simp blast
qed (simp add: nudges_same)

lemma handle_nudges: "guar nudges a (handle_ble_commands hw t a)"
proof (cases "ap_ble a")
  case (Some b)
  let ?b = "a\<lparr>ap_ble := Some (b\<lparr>bs_cmds := [], bs_wifi := []\<rparr>)\<rparr>"
  let ?a = "foldl (\<lambda>a w. on_credentials hw t w a) ?b (bs_wifi b)"
  have "nudges a ?b" by (rule nudges_same) simp
  then have "nudges a ?a" using credentials_nudge nudges_trans by blast
  from guar_after [OF transp_nudges this commands_nudge] Some show ?thesis
    by (simp add: handle_ble_commands_def Let_def)
qed (simp add: handle_ble_commands_def nudges_same)

lemma mirror_nudges: "guar nudges a (mirror_ota hw t a)"
proof -
  let ?a1 = "upd_link (\<lambda>sh. sh\<lparr>sh_changed := False\<rparr>) a"
  have 1: "nudges a ?a1" by (rule nudges_link) (simp add: nudged_def)
  have "map_option lk_shared (ap_ota (note_wifi_change t w (note_ota_change tn t o' ?a1)))
      = map_option lk_shared (ap_ota ?a1)" for w tn o'
    by (rule shared_same) simp
  then have n: "nudges a x"
    if "ap_ota x = ap_ota (note_wifi_change t w (note_ota_change tn t o' ?a1))" for x w tn o'
    using nudges_trans [OF 1 nudges_same] that by simp
  show ?thesis by (auto simp: mirror_ota_def Let_def nudges_same intro!: n split: option.split)
qed

lemma telemetry_nudges: "guar nudges a (telemetry hw t rd g low a)"
proof (cases "ap_ble (link_event (rd_link_up rd) t a)")
  case None
  have "nudges a (link_event (rd_link_up rd) t a)" by (rule nudges_outer) simp
  then show ?thesis by (simp add: telemetry_def None)
next
  case (Some b)
  let ?a1 = "link_event (rd_link_up rd) t a"
  let ?a2 = "note_moving rd ?a1"
  have a2: "nudges a ?a2"
    unfolding note_moving_def
    by (rule nudges_trans [OF nudges_outer nudges_link]) (simp_all add: nudged_def)
  then have n: "nudges a x" if "ap_ota x = ap_ota ?a2" for x
    by (rule nudges_trans [OF _ nudges_same]) (simp add: that)
  show ?thesis
  proof (cases "live_notify hw (live_now hw t rd g low ?a2) b")
    case (Some b1)
    let ?a3 = "?a2\<lparr>ap_ble := Some b1\<rparr>"
    let ?a4 = "?a3\<lparr>ap_last_publish := clock hw ?a3\<rparr>"
    have "guar nudges a (slow_publish hw t b1 ?a4)"
      using slow_publish_ota [of ?a4 hw t b1] n by (cases "slow_publish hw t b1 ?a4") simp_all
    then show ?thesis using n by (simp add: telemetry_def Let_def Some \<open>ap_ble ?a1 = Some b\<close>)
  qed (simp add: telemetry_def Let_def Some)
qed

interpretation nudging: guarantee hw nudges for hw :: "('s, 'n, 'c, 'b) hardware"
proof
  fix a x b c :: "('s, 'n, 'c, 'b) app" and t
  show "nudges a (boot_check hw a)"
    by (rule nudges_same) (simp add: boot_check_def Let_def)
  have "ap_ota (snd (led_send hw fr y)) = ap_ota y" for fr and y :: "('s, 'n, 'c, 'b) app"
    by (simp add: led_send_def set_io_def case_prod_beta)
  then show "nudges a (self_test hw t a)"
    by (intro nudges_same) (simp add: self_test_def Let_def push_event_def case_prod_beta)
qed (use nudges_outer transp_nudges mirror_nudges handle_nudges telemetry_nudges in blast)+

section \<open>Runs that get stuck\<close>

text \<open>Every status an end of the loop's run holds fits an attribute.\<close>

definition all_short :: "('s, 'n, 'c, 'b) app ctl \<Rightarrow> bool" where
  "all_short q \<longleftrightarrow> (\<forall>x. ends_in q x \<longrightarrow> pred_option (\<lambda>lk. short_status (sh_ota (lk_shared lk))) (ap_ota x))"

lemma init_link: "ends_in (app_init hw s n reason c ble ota web) a \<Longrightarrow> ap_ota a = ota \<and> ap_ble a = ble"
  by (auto simp: app_init_def derive_and_install_def ends_in_def Let_def split: option.splits)

lemma nudges_short:
  "nudges a x \<Longrightarrow> pred_option (\<lambda>lk. short_status (sh_ota (lk_shared lk))) (ap_ota a)
    \<Longrightarrow> pred_option (\<lambda>lk. short_status (sh_ota (lk_shared lk))) (ap_ota x)"
  by (cases "ap_ota a"; cases "ap_ota x") (simp_all add: nudges_def nudged_def)

lemma step_short:
  assumes "pred_option (\<lambda>lk. short_status (sh_ota (lk_shared lk))) (ap_ota a)"
    and "\<And>o' w. v = WorkerReports o' w \<Longrightarrow> short_status o'"
  shows "all_short (main_step hw a v)"
proof (cases v)
  case Iterate
  then show ?thesis using nudges_short [OF guar_ends [OF nudging.loop.iteration] assms(1)] by (simp add: all_short_def)
next
  case (BoardMoves s)
  then show ?thesis using assms(1) by (simp add: all_short_def ends_in_def set_io_def)
next
  case TakeRequest
  then show ?thesis using assms(1) by (cases "ap_ota a") (simp_all add: all_short_def ends_in_def)
next
  case (WorkerReports o' w)
  then show ?thesis using assms(2) by (cases "ap_ota a") (simp_all add: all_short_def ends_in_def upd_link_def)
next
  case WorkerVerified
  then show ?thesis using assms(1) by (cases "ap_ota a") (simp_all add: all_short_def ends_in_def upd_link_def)
qed (use assms(1) in \<open>simp add: all_short_def ends_in_def\<close>)

lemma run_short:
  assumes "all_short q" "\<And>o' w. WorkerReports o' w \<in> set es \<Longrightarrow> short_status o'"
  shows "all_short (run (main_next hw) q es)"
  using assms
proof (induction es arbitrary: q)
  case (Cons v es)
  have s: "all_short (main_step hw a v)" if "ends_in q a" for a
    using Cons.prems that by (intro step_short) (auto simp: all_short_def)
  have "all_short (main_next hw q v)"
  proof (cases q)
    case (Go a)
    then show ?thesis using s [of a] by (simp add: main_next_def ends_in_def)
  next
    case (Again a)
    then show ?thesis using s [of a] by (simp add: main_next_def ends_in_def)
  qed (use Cons.prems(1) in \<open>simp_all add: main_next_def\<close>)
  from Cons.IH [OF this] Cons.prems(2) show ?case by auto
qed simp

lemma short_not_stuck:
  assumes d: "drains (hw_uart hw) left" "pred_option server_ok ble" "pred_option link_ok ota"
    and "pred_option (\<lambda>lk. short_status (sh_ota (lk_shared lk))) ota"
    and "\<And>o' w. WorkerReports o' w \<in> set es \<Longrightarrow> short_status o'"
  shows "run (main_next hw) (app_init hw s n reason c ble ota web) es \<noteq> Stuck"
proof
  let ?q = "app_init hw s n reason c ble ota web"
  assume "run (main_next hw) ?q es = Stuck"
  then obtain us vs a where a: "es = us @ Iterate # vs" "goes_on (run (main_next hw) ?q us) a" "hangs a"
    using run_stuck_iff [OF d] by blast
  have "all_short ?q" using init_link assms(4) by (fastforce simp: all_short_def)
  then have "all_short (run (main_next hw) ?q us)" using assms(5) a(1) by (intro run_short) auto
  then show False using a(2,3) by (auto simp: all_short_def ends_in_def goes_on_def hangs_def)
qed

text \<open>
  C1. The main loop gets stuck in one way only: given a receive buffer that empties, from start-up and
  after any sequence of iterations, stack events, worker reports and board changes, the firmware
  is in a well-formed state, with neither a panic nor a call that does not return, unless some
  iteration began with the BLE service up and a changed update status whose fields but the
  notes exceed an attribute; and such an iteration does not return. While every status reported
  fits, the loop is never stuck.
\<close>

theorem main_loop_never_stuck:
  assumes "drains (hw_uart hw) left" "pred_option server_ok ble" "pred_option link_ok ota"
    and "start = app_init hw s n reason c ble ota web"
  shows "(run (main_next hw) start es = Stuck
      \<longleftrightarrow> (\<exists>us vs a. es = us @ Iterate # vs \<and> goes_on (run (main_next hw) start us) a \<and> hangs a))
    \<and> (run (main_next hw) start es \<noteq> Stuck \<longrightarrow> (\<exists>a. ends_in (run (main_next hw) start es) a \<and> app_ok a))
    \<and> (pred_option (\<lambda>lk. short_status (sh_ota (lk_shared lk))) ota
        \<and> (\<forall>o' w. WorkerReports o' w \<in> set es \<longrightarrow> short_status o') \<longrightarrow> run (main_next hw) start es \<noteq> Stuck)"
proof (intro conjI)
  show "run (main_next hw) start es = Stuck
      \<longleftrightarrow> (\<exists>us vs a. es = us @ Iterate # vs \<and> goes_on (run (main_next hw) start us) a \<and> hangs a)"
    unfolding assms(4) by (rule run_stuck_iff [OF assms(1-3)])
  show "run (main_next hw) start es \<noteq> Stuck \<longrightarrow> (\<exists>a. ends_in (run (main_next hw) start es) a \<and> app_ok a)"
    using main_run_sound [OF assms(1-3), of s n reason c web es, folded assms(4)]
    by (cases "run (main_next hw) start es") (auto simp: sound_def ends_in_def)
qed (use short_not_stuck [OF assms(1-3), of es s n reason c web, folded assms(4)] in blast)

text \<open>A status of the update that fits keeps the loop going; one with a long error stops it.\<close>

definition sim_boot :: "(nat \<times> u8 list, string \<rightharpoonup> u8 list, (string \<rightharpoonup> string) \<times> (string \<rightharpoonup> u8), unit) app ctl" where
  "sim_boot = app_init sim_hw (5, [1]) Map.empty 1 (Map.empty, Map.empty) (Some (new_server ())) (Some sim_link) None"

theorem main_loop_never_stuck_witness:
  "(\<exists>a. ends_in (run (main_next sim_hw) sim_boot [Iterate, WorkerReports default_ota default_wifi, Iterate]) a \<and> app_ok a)
    \<and> run (main_next sim_hw) sim_boot [WorkerReports wit_ota default_wifi, Iterate] = Stuck"
proof -
  have h: "drains (hw_uart sim_hw) (length \<circ> snd)" "pred_option server_ok (Some (new_server ()))"
    "pred_option link_ok (Some sim_link)"
    using list_uart_drains by (simp_all add: sim_hw_def new_server_ok link_ok_def sim_link_def)
  note t = main_loop_never_stuck [OF h sim_boot_def]
  have "run (main_next sim_hw) sim_boot [Iterate, WorkerReports default_ota default_wifi, Iterate] \<noteq> Stuck"
    by (rule t [THEN conjunct2, THEN conjunct2, rule_format]) (auto simp: sim_link_def default_short)
  then have 1: "\<exists>a. ends_in (run (main_next sim_hw) sim_boot [Iterate, WorkerReports default_ota default_wifi, Iterate]) a \<and> app_ok a"
    using t by blast
  have "run (main_next sim_hw) sim_boot [] \<noteq> Stuck" 
    by (rule t [THEN conjunct2, THEN conjunct2, rule_format]) (auto simp: sim_link_def default_short)
  then obtain a where a: "goes_on sim_boot a" 
    by (cases sim_boot) (auto simp: goes_on_def sim_boot_def app_init_def derive_and_install_def Let_def split: option.splits)
  then have l: "ap_ota a = Some sim_link" "ap_ble a = Some (new_server ())"
    using init_link [of sim_hw "(5, [1])" Map.empty 1 "(Map.empty, Map.empty)" "Some (new_server ())" "Some sim_link" None a]
    by (auto simp: sim_boot_def goes_on_def ends_in_def)
  let ?b = "upd_link (\<lambda>sh. sh\<lparr>sh_ota := wit_ota, sh_wifi := default_wifi, sh_changed := True\<rparr>) a"
  have "goes_on (run (main_next sim_hw) sim_boot [WorkerReports wit_ota default_wifi]) ?b"
    by (simp add: goes_next [OF a]) (simp add: goes_on_def)
  moreover have "hangs ?b" using long_error_never_returns l by (simp add: hangs_def upd_link_def ota_hangs)
  ultimately show ?thesis using 1 t [of "[WorkerReports wit_ota default_wifi, Iterate]"]
    by (metis append_Cons append_Nil)
qed

end
