(* ===== verification/Main_Watch.thy ===== *)
theory Main_Watch
  imports Main_Guarantee
begin

text \<open>
  How the main loop watches the worker: between iterations its copy of the update status is the
  shared one, or the shared one is marked as changed, so that every iteration acts on the status
  as it is. One more instance of the relations a whole iteration keeps.
\<close>

definition mirrored :: "('s, 'n, 'c, 'b) app \<Rightarrow> bool" where
  "mirrored a \<longleftrightarrow> (\<forall>lk. ap_ota a = Some lk \<longrightarrow> sh_changed (lk_shared lk) \<or> ap_ota_status a = sh_ota (lk_shared lk))"

lemma mirrored_sees: "mirrored a \<Longrightarrow> ap_ota a = Some lk \<Longrightarrow> status_seen a = sh_ota (lk_shared lk)"
  by (auto simp: mirrored_def status_seen_def)

text \<open>What that rests on, which no step but the first of an iteration changes.\<close>

definition known :: "('s, 'n, 'c, 'b) app \<Rightarrow> (ota_status \<times> bool) option \<times> ota_status" where
  "known a = (map_option (\<lambda>lk. (sh_ota (lk_shared lk), sh_changed (lk_shared lk))) (ap_ota a), ap_ota_status a)"

lemma known_mirrored: "known x = known a \<Longrightarrow> mirrored x = mirrored a"
  by (cases "ap_ota a"; cases "ap_ota x") (simp_all add: known_def mirrored_def)

lemma known_fields [simp]:
  "known (a\<lparr>ap_kds := k\<rparr>) = known a" "known (a\<lparr>ap_learner := l\<rparr>) = known a" "known (a\<lparr>ap_est := e\<rparr>) = known a"
  "known (a\<lparr>ap_ble := b\<rparr>) = known a" "known (a\<lparr>ap_config := c\<rparr>) = known a" "known (a\<lparr>ap_learned := n\<rparr>) = known a"
  "known (a\<lparr>ap_brightness := n\<rparr>) = known a" "known (a\<lparr>ap_boot_check_done := f\<rparr>) = known a"
  "known (a\<lparr>ap_self_test_done := f\<rparr>) = known a"
  "known (a\<lparr>ap_events := ev\<rparr>) = known a" "known (a\<lparr>ap_ota_was_busy := f\<rparr>) = known a"
  "known (a\<lparr>ap_fail_until := fu\<rparr>) = known a" "known (a\<lparr>ap_last_frame := fr\<rparr>) = known a"
  "known (a\<lparr>ap_button_at := t\<rparr>) = known a" "known (a\<lparr>ap_button_down := f\<rparr>) = known a"
  "known (a\<lparr>ap_last_reconnect := t\<rparr>) = known a" "known (a\<lparr>ap_prev_rpm := pr\<rparr>) = known a"
  "known (a\<lparr>ap_interlock := i\<rparr>) = known a" "known (a\<lparr>ap_last_save := t\<rparr>) = known a"
  "known (a\<lparr>ap_flash_until := t\<rparr>) = known a" "known (a\<lparr>ap_neutral_was := f\<rparr>) = known a"
  "known (a\<lparr>ap_link_was_up := f\<rparr>) = known a" "known (a\<lparr>ap_last_publish := t\<rparr>) = known a"
  "known (a\<lparr>ap_published := p\<rparr>) = known a" "known (a\<lparr>ap_cycle := c'\<rparr>) = known a"
  "known (a\<lparr>ap_web := wb\<rparr>) = known a" "known (a\<lparr>ap_regs := rg\<rparr>) = known a" "known (a\<lparr>ap_deep := dp\<rparr>) = known a"
  by (simp_all add: known_def)

lemma known_request [simp]: "known (request r a) = known a"
  by (cases "ap_ota a") (simp_all add: known_def request_def lk_request_def)

lemma known_moving [simp]: "known (note_moving rd a) = known a"
  by (cases "ap_ota a") (simp_all add: known_def note_moving_def upd_link_def)

lemma known_steps [simp]:
  "known (set_io s a) = known a" "known (delay hw n a) = known a" "known (push_event t e a) = known a"
  "known (upd_config f a) = known a" "known (wipe_calibration hw a) = known a"
  "known (snd (save_learner hw a)) = known a" "known (snd (led_send hw fr a)) = known a"
  by (simp_all add: set_io_def delay_def push_event_def upd_config_def wipe_calibration_def save_learner_def
      led_send_def case_prod_beta)

lemma known_more [simp]:
  "known (show_frame hw fr a) = known a" "known (refresh_frame hw fr a) = known a"
  "known (neutral_tick hw up br a) = known a" "known (button_step hw t a) = known a"
  "known (drop_link hw t a) = known a" "known (learn_step hw al so a) = known a"
  "known (forget_learned a) = known a" "known (link_event up t a) = known a"
  "known (end_cycle hw a) = known a" "known (pause_polling hw a) = known a"
  "known (boot_check hw a) = known a" "known (self_test hw t a) = known a"
  "known (on_credentials hw t wc a) = known a" "known (web_step hw rd g a) = known a"
  by (auto simp: show_frame_def refresh_frame_def neutral_tick_def button_step_def drop_link_def learn_step_def
      forget_learned_def link_event_def end_cycle_def pause_polling_def boot_check_def self_test_def
      on_credentials_def web_step_def Let_def case_prod_beta split: option.split)

lemma known_credentials [simp]: "known (foldl (\<lambda>a w. on_credentials hw t w a) a ws) = known a"
  by (induction ws arbitrary: a) simp_all

lemma known_ctl:
  "leaves known (known a) (fail_step hw a)" "leaves known (known a) (reconnect_step hw a)"
  "leaves known (known a) (deep_step hw a)" "leaves known (known a) (derive_and_install a)"
  "leaves known (known a) (slow_publish hw t b a)"
  by (auto simp: fail_step_def reconnect_step_def deep_step_def derive_and_install_def slow_publish_def Let_def
      case_prod_beta split: option.split)

lemma known_telemetry: "leaves known (known a) (telemetry hw t rd g low a)"
proof -
  have "leaves known (known a) (slow_publish hw t b x)" if "known x = known a" for b and x :: "('a, 'b, 'c, 'd) app"
    using known_ctl(5) [of x hw t b] that by simp
  then show ?thesis by (auto simp: telemetry_def Let_def split: option.split)
qed

lemma known_persist: "leaves known (known a) (persist_step hw a)"
proof -
  obtain ok a1 where s: "save_learner hw (a\<lparr>ap_last_save := clock hw a\<rparr>) = (ok, a1)" by fastforce
  then have "known a1 = known a" using known_steps(6) [of hw "a\<lparr>ap_last_save := clock hw a\<rparr>"] by simp
  then show ?thesis
    using s known_ctl(4) [of "a1\<lparr>ap_flash_until := clock hw a1 + 800000\<rparr>"]
    by (cases ok) (simp_all add: persist_step_def)
qed

lemma known_reads:
  "scan_step hw a = Some (link, x) \<Longrightarrow> known x = known a"
  "poll hw t a = Some (rd, x) \<Longrightarrow> known x = known a"
  "display_step hw rd a = Some (g, low, rd1, x) \<Longrightarrow> known x = known a"
proof -
  have i: "known y' = known y" if "interlock_step hw y = Some y'" for y y' :: "('a, 'b, 'c, 'd) app"
    using that by (cases "fst (the (read_interlock (hw_uart hw) (ap_kds y)))")
      (auto simp: interlock_step_def split: if_splits)
  show "scan_step hw a = Some (link, x) \<Longrightarrow> known x = known a"
    by (auto simp: scan_step_def Let_def split: if_splits option.splits)
  show "poll hw t a = Some (rd, x) \<Longrightarrow> known x = known a"
    by (auto simp: poll_def Let_def bind_eq_Some_conv dest!: i split: if_splits)
  show "display_step hw rd a = Some (g, low, rd1, x) \<Longrightarrow> known x = known a"
    by (auto simp: display_step_def Let_def case_prod_beta split: if_splits option.splits)
qed

section \<open>The relation\<close>

definition keeps_watch :: "('s, 'n, 'c, 'b) app \<Rightarrow> ('s, 'n, 'c, 'b) app \<Rightarrow> bool" where
  "keeps_watch a x \<longleftrightarrow> (mirrored a \<longrightarrow> mirrored x)"

lemma watch_known: "known x = known a \<Longrightarrow> keeps_watch a x"
  using known_mirrored by (auto simp: keeps_watch_def)

lemma watch_leaves: "leaves known (known a) q \<Longrightarrow> guar keeps_watch a q"
  by (cases q) (simp_all add: watch_known)

lemma transp_watch: "transp keeps_watch"
  by (auto simp: keeps_watch_def intro: transpI)

lemma shared_view: "outer x = outer a \<Longrightarrow> ap_ota x = ap_ota a"
  by (simp add: outer_def)

lemma watch_mirror: "guar keeps_watch a (mirror_ota hw t a)"
proof (cases "ap_ota a")
  case (Some lk)
  have l: "ap_ota (note_wifi_change t w (note_ota_change tn t o' y)) = ap_ota y" for t w tn o' and y :: "('a, 'b, 'c, 'd) app"
    using shared_view [of "note_wifi_change t w (note_ota_change tn t o' y)" y] by simp
  show ?thesis
    by (auto simp: mirror_ota_def Some Let_def keeps_watch_def mirrored_def l upd_link_def split: option.split)
qed (simp add: mirror_ota_def watch_known)

lemma watch_command: "guar keeps_watch a (on_command hw t c a)"
proof -
  have "keeps_watch a (upd_link (upd_wifi (\<lambda>_. default_wifi)) x)" if "known x = known a" for x :: "('a, 'b, 'c, 'd) app"
    using known_mirrored [OF that] by (auto simp: keeps_watch_def mirrored_def upd_link_def upd_wifi_def split: option.splits)
  then show ?thesis by (cases c) (simp_all add: on_command_def Let_def watch_known)
qed

lemma watch_commands: "guar keeps_watch a (on_commands hw t cs a)"
  by (induction cs arbitrary: a) (simp_all add: watch_known guar_seq [OF transp_watch watch_command])

lemma watch_handle: "guar keeps_watch a (handle_ble_commands hw t a)"
proof (cases "ap_ble a")
  case (Some b)
  let ?a = "foldl (\<lambda>a w. on_credentials hw t w a) (a\<lparr>ap_ble := Some (b\<lparr>bs_cmds := [], bs_wifi := []\<rparr>)\<rparr>) (bs_wifi b)"
  have "keeps_watch a ?a" by (simp add: watch_known)
  from guar_after [OF transp_watch this watch_commands] Some show ?thesis
    by (simp add: handle_ble_commands_def Let_def)
qed (simp add: handle_ble_commands_def watch_known)

interpretation watching: step_relation hw keeps_watch for hw :: "('s, 'n, 'c, 'b) hardware"
proof
  fix a x :: "('s, 'n, 'c, 'b) app" and t rd g low link rd1
  show "guar keeps_watch a (fail_step hw a)" "guar keeps_watch a (reconnect_step hw a)"
    "guar keeps_watch a (deep_step hw a)" "guar keeps_watch a (persist_step hw a)"
    "guar keeps_watch a (telemetry hw t rd g low a)"
    by (rule watch_leaves, rule known_ctl known_persist known_telemetry)+
  show "scan_step hw a = Some (link, x) \<Longrightarrow> keeps_watch a x" "poll hw t a = Some (rd, x) \<Longrightarrow> keeps_watch a x"
    "display_step hw rd a = Some (g, low, rd1, x) \<Longrightarrow> keeps_watch a x"
    using known_reads watch_known by blast+
qed (simp_all add: transp_watch watch_mirror watch_handle watch_known)

end
