(* ===== verification/Ota_Thread.thy ===== *)
theory Ota_Thread
  imports Ota_Worker
begin

text \<open>
  The worker's thread, \<open>Worker::run\<close> of \<open>esp32/src/ota.rs\<close>, as the main loop meets it: a request
  is handled in stages, cut after every write to the shared status and before every read of
  what the main loop may change (the moving flag, the settings). Between two stages the main
  loop and the world may do what they like. \<open>Ota_Worker\<close>'s handlers are the stages run through.
\<close>

section \<open>Stages\<close>

text \<open>What a connection is made for: a check, with the time it began and whether an install follows; an
  install of a manifest; or only to test the credentials.\<close>

datatype purpose = ForCheck u32 bool | ForInstall manifest | ForTest

text \<open>
  \<open>Begins\<close> is about to look for a connection, \<open>Links\<close> has the credentials, \<open>Linked\<close> the outcome;
  \<open>Fetches\<close> is about to fetch the manifest, \<open>Notes\<close> to note a failed check; \<open>Installs\<close> is about to
  look at the moving flag, \<open>Opens\<close> to ask for the image, \<open>Streams\<close> to read its next chunk (the
  services in its record are those of the moment), \<open>Activates\<close> to end and activate the slot,
  \<open>Restarts\<close> to restart the chip.
\<close>

datatype 'e stage = AtRest | Begins purpose | Links purpose string string | Linked purpose bool
  | Fetches u32 bool | Notes u32 | Installs | Opens manifest | Streams manifest "'e download"
  | Activates manifest | Restarts

type_synonym 'e thread = "flow \<times> 'e stage \<times> 'e worker"

definition begin_check :: "'e platform \<Rightarrow> bool \<Rightarrow> 'e worker \<Rightarrow> 'e thread" where
  "begin_check pf inst w =
     (Continue, Begins (ForCheck (pf_uptime pf (sv_env (wk_sv w))) inst),
      set_ota (\<lambda>o'. o'\<lparr>o_state := Connecting, o_progress := 0, o_error := None\<rparr>) w)"

definition begin_request :: "'e platform \<Rightarrow> ota_request \<Rightarrow> 'e worker \<Rightarrow> 'e thread" where
  "begin_request pf q w =
     (case q of
        ReqCheck inst \<Rightarrow> begin_check pf inst w
      | ReqInstall \<Rightarrow> if wk_manifest w = None then begin_check pf True w else (Continue, Installs, w)
      | ReqTestWifi \<Rightarrow> (Continue, Begins ForTest, w)
      | ReqMarkValid \<Rightarrow> (Continue, AtRest, mark_valid pf w))"

text \<open>What follows a connection, and what follows when it failed.\<close>

definition check_linked :: "u32 \<Rightarrow> bool \<Rightarrow> bool \<Rightarrow> 'e worker \<Rightarrow> 'e thread" where
  "check_linked t inst b w =
     (if b then (Continue, Fetches t inst, set_ota (\<lambda>o'. o'\<lparr>o_state := Checking\<rparr>) w)
      else (Continue, AtRest, fail ''WiFi connection failed'' w))"

definition install_linked :: "manifest \<Rightarrow> bool \<Rightarrow> 'e worker \<Rightarrow> 'e thread" where
  "install_linked m b w =
     (if b then (Continue, Opens m,
        set_ota (\<lambda>o'. o'\<lparr>o_state := Downloading, o_progress := 0, o_error := None\<rparr>) w)
      else (Continue, AtRest, fail ''WiFi connection failed'' w))"

definition after_link :: "purpose \<Rightarrow> bool \<Rightarrow> 'e worker \<Rightarrow> 'e thread" where
  "after_link p b w =
     (case p of
        ForCheck t inst \<Rightarrow> check_linked t inst b w
      | ForInstall m \<Rightarrow> install_linked m b w
      | ForTest \<Rightarrow> (Continue, AtRest, w))"

lemmas after_link_defs = after_link_def check_linked_def install_linked_def

definition fetch_step :: "'e platform \<Rightarrow> u32 \<Rightarrow> bool \<Rightarrow> 'e worker \<Rightarrow> 'e thread" where
  "fetch_step pf t inst w =
     (case get_small pf (manifest_url w) w of
        (Inl e, w1) \<Rightarrow> (Continue, Notes t, fail (''manifest fetch failed: '' @ e) w1)
      | (Inr body, w1) \<Rightarrow>
          (case manifest_parse (pf_from_str pf) body of
             Inl e \<Rightarrow> (Continue, Notes t, fail (show_manifest_error e) w1)
           | Inr m \<Rightarrow>
               (case apply_manifest t m w1 of
                  (ok, w2) \<Rightarrow> (Continue, if ok \<and> inst then Installs else AtRest, w2))))"

definition install_step :: "'e worker \<Rightarrow> 'e thread" where
  "install_step w =
     (case wk_manifest w of
        None \<Rightarrow> (Continue, AtRest, fail ''no update available to install'' w)
      | Some m \<Rightarrow>
          if sh_moving (sv_shared (wk_sv w))
          then (Continue, AtRest, fail (''bike is moving '' @ [CHR 0xE2, CHR 0x80, CHR 0x94] @ '' stop before updating'') w)
          else (Continue, Begins (ForInstall m), w))"

text \<open>The end of a download that failed.\<close>

definition give_up :: "string \<Rightarrow> 'e services \<Rightarrow> 'e worker \<Rightarrow> 'e thread" where
  "give_up e s w = (Continue, AtRest, (fail e (w\<lparr>wk_sv := s\<rparr>))\<lparr>wk_manifest := None\<rparr>)"

definition open_step :: "'e platform \<Rightarrow> manifest \<Rightarrow> 'e worker \<Rightarrow> 'e thread" where
  "open_step pf m w =
     (case open_image pf m (wk_sv w) of
        (Inl e, s) \<Rightarrow> give_up e s w
      | (Inr _, s) \<Rightarrow> (Continue, Streams m (dl_start s), w\<lparr>wk_sv := s\<rparr>))"

text \<open>One chunk is read, checked, hashed, written and counted; or the stream has ended and is checked.\<close>

definition stream_step :: "'e platform \<Rightarrow> manifest \<Rightarrow> 'e download \<Rightarrow> 'e worker \<Rightarrow> 'e thread" where
  "stream_step pf m x w =
     (case with_env (pf_http_read pf CHUNK) (wk_sv w) of
        (Inl e, s) \<Rightarrow> give_up e (slot_drop pf s) w
      | (Inr [], s) \<Rightarrow>
          (case final_checks pf m x of
             Inl e \<Rightarrow> give_up e (slot_drop pf s) w
           | Inr _ \<Rightarrow> (Continue, Activates m, w\<lparr>wk_sv := note_verifying s\<rparr>))
      | (Inr (b # bs), s) \<Rightarrow>
          (case take_chunk pf m (wk_project w) (b # bs) (x\<lparr>dl_sv := s\<rparr>) of
             (Inl e, x1) \<Rightarrow> give_up e (slot_drop pf (dl_sv x1)) w
           | (Inr _, x1) \<Rightarrow> (Continue, Streams m x1, w\<lparr>wk_sv := dl_sv x1\<rparr>)))"

definition activate_step :: "'e platform \<Rightarrow> 'e worker \<Rightarrow> 'e thread" where
  "activate_step pf w =
     (case finish_and_activate pf (wk_sv w) of
        (Inl e, s) \<Rightarrow> give_up e s w
      | (Inr _, s) \<Rightarrow> (Continue, Restarts, set_ota (\<lambda>o'. o'\<lparr>o_state := Rebooting, o_progress := 100\<rparr>)
          (w\<lparr>wk_sv := s, wk_last_use := pf_now pf (sv_env s)\<rparr>)))"

fun stage_step :: "'e platform \<Rightarrow> 'e stage \<Rightarrow> 'e worker \<Rightarrow> 'e thread" where
  "stage_step pf AtRest w = (Continue, AtRest, w)"
| "stage_step pf (Begins p) w =
     (case link_start pf w of
        (Inl b, w1) \<Rightarrow> (Continue, Linked p b, w1)
      | (Inr (ssid, psk), w1) \<Rightarrow> (Continue, Links p ssid psk, w1))"
| "stage_step pf (Links p ssid psk) w =
     (case link_finish pf ssid psk w of (b, w1) \<Rightarrow> (Continue, Linked p b, w1))"
| "stage_step pf (Linked p b) w = after_link p b w"
| "stage_step pf (Fetches t inst) w = fetch_step pf t inst w"
| "stage_step pf (Notes t) w =
     (Continue, AtRest, set_ota (\<lambda>o'. o'\<lparr>o_last_check_uptime := Some t, o_last_check_ok := False\<rparr>) w)"
| "stage_step pf Installs w = install_step w"
| "stage_step pf (Opens m) w = open_step pf m w"
| "stage_step pf (Streams m x) w = stream_step pf m x w"
| "stage_step pf (Activates m) w = activate_step pf w"
| "stage_step pf Restarts w = (Restart, Restarts, wk_env (pf_sleep pf 2500) w)"

section \<open>The thread among the others\<close>

text \<open>
  The thread takes what its channel delivers when it is at rest (a request, five seconds without one,
  its end), or goes on to its next stage; the main loop sets the moving flag, marks the status
  as seen, forgets the WiFi status, changes the settings; time, the network and the server move.
\<close>

datatype 'e thread_event = Takes ota_request | Waits | Disconnected | GoesOn
  | MainMoving bool | MainSeen | MainForgetWifi | MainSettings config | WorldMoves 'e

fun thread_step :: "'e platform \<Rightarrow> 'e thread_event \<Rightarrow> 'e stage \<Rightarrow> 'e worker \<Rightarrow> 'e thread" where
  "thread_step pf (Takes q) st w = (case st of AtRest \<Rightarrow> begin_request pf q w | _ \<Rightarrow> (Continue, st, w))"
| "thread_step pf Waits st w = (case st of AtRest \<Rightarrow> (Continue, AtRest, on_idle pf w) | _ \<Rightarrow> (Continue, st, w))"
| "thread_step pf Disconnected st w = (case st of AtRest \<Rightarrow> (Exit, AtRest, w) | _ \<Rightarrow> (Continue, st, w))"
| "thread_step pf GoesOn st w = stage_step pf st w"
| "thread_step pf (MainMoving b) st w = (Continue, st, set_shared (\<lambda>sh. sh\<lparr>sh_moving := b\<rparr>) w)"
| "thread_step pf MainSeen st w = (Continue, st, set_shared (\<lambda>sh. sh\<lparr>sh_changed := False\<rparr>) w)"
| "thread_step pf MainForgetWifi st w = (Continue, st, set_shared (upd_wifi (\<lambda>_. default_wifi)) w)"
| "thread_step pf (MainSettings c) st w = (Continue, st, w\<lparr>wk_cfg := c\<rparr>)"
| "thread_step pf (WorldMoves e) st w = (Continue, st, wk_env (\<lambda>_. e) w)"

primrec thread_run :: "'e platform \<Rightarrow> 'e thread_event list \<Rightarrow> 'e stage \<Rightarrow> 'e worker \<Rightarrow> 'e thread" where
  "thread_run pf [] st w = (Continue, st, w)"
| "thread_run pf (v # vs) st w =
     (case thread_step pf v st w of
        (Continue, st1, w1) \<Rightarrow> thread_run pf vs st1 w1
      | r \<Rightarrow> r)"

lemmas thread_defs [model_defs] = begin_check_def begin_request_def after_link_def check_linked_def install_linked_def fetch_step_def
  install_step_def give_up_def open_step_def stream_step_def activate_step_def

lemma thread_run_append:
  "thread_run pf (us @ vs) st w = (case thread_run pf us st w of (Continue, st1, w1) \<Rightarrow> thread_run pf vs st1 w1 | r \<Rightarrow> r)"
  by (induction us arbitrary: st w) (auto split: prod.split flow.split)

section \<open>Run through, the stages are the handler\<close>

definition goes_through :: "'e platform \<Rightarrow> 'e stage \<Rightarrow> 'e worker \<Rightarrow> 'e thread \<Rightarrow> bool" where
  "goes_through pf st w r \<longleftrightarrow> (\<exists>n. thread_run pf (replicate n GoesOn) st w = r)"

lemma through_rest: "goes_through pf AtRest w (Continue, AtRest, w)"
  unfolding goes_through_def by (rule exI [of _ 0]) simp

lemma through_step:
  assumes "stage_step pf st w = (Continue, st1, w1)" "goes_through pf st1 w1 r"
  shows "goes_through pf st w r"
proof -
  obtain n where "thread_run pf (replicate n GoesOn) st1 w1 = r" using assms(2) by (auto simp: goes_through_def)
  then have "thread_run pf (replicate (Suc n) GoesOn) st w = r" using assms(1) by simp
  then show ?thesis unfolding goes_through_def by blast
qed

lemmas through_last = through_step [OF _ through_rest]

lemma through_restart: "goes_through pf Restarts w (Restart, Restarts, wk_env (pf_sleep pf 2500) w)"
  unfolding goes_through_def by (rule exI [of _ 1]) simp

lemma through_link:
  assumes "wifi_connect pf w = (b, w1)" "goes_through pf (Linked p b) w1 r"
  shows "goes_through pf (Begins p) w r"
proof (cases "link_start pf w")
  case (Pair q w2)
  show ?thesis
  proof (cases q)
    case (Inl b')
    then have "stage_step pf (Begins p) w = (Continue, Linked p b, w1)"
      using assms(1) Pair by (simp add: wifi_connect_def)
    then show ?thesis using assms(2) by (rule through_step)
  next
    case (Inr c)
    obtain ssid psk where c: "c = (ssid, psk)" by fastforce
    have "stage_step pf (Links p ssid psk) w2 = (Continue, Linked p b, w1)"
      using assms(1) Pair Inr c by (simp add: wifi_connect_def)
    then have "goes_through pf (Links p ssid psk) w2 r" using assms(2) by (rule through_step)
    moreover have "stage_step pf (Begins p) w = (Continue, Links p ssid psk, w2)" using Pair Inr c by simp
    ultimately show ?thesis by (rule through_step [rotated])
  qed
qed

lemma give_up_services [simp]: "give_up e s (w\<lparr>wk_sv := s'\<rparr>) = give_up e s w"
  by (simp add: give_up_def)

lemma final_checks_services [simp]: "final_checks pf m (x\<lparr>dl_sv := s\<rparr>) = final_checks pf m x"
  by (simp add: final_checks_def)

text \<open>The stage that the whole stream ends in.\<close>

definition stream_end :: "'e platform \<Rightarrow> manifest \<Rightarrow> (string + unit) \<times> 'e download \<Rightarrow> 'e worker \<Rightarrow> 'e thread" where
  "stream_end pf m q w =
     (case q of
        (Inl e, x) \<Rightarrow> give_up e (slot_drop pf (dl_sv x)) w
      | (Inr _, x) \<Rightarrow>
          (case final_checks pf m x of
             Inl e \<Rightarrow> give_up e (slot_drop pf (dl_sv x)) w
           | Inr _ \<Rightarrow> (Continue, Activates m, w\<lparr>wk_sv := note_verifying (dl_sv x)\<rparr>)))"

lemma stream_end_services [simp]: "stream_end pf m q (w\<lparr>wk_sv := s\<rparr>) = stream_end pf m q w"
  by (simp add: stream_end_def split: prod.split sum.split)

lemma through_stream:
  assumes "wk_project w = p" "dl_sv x = wk_sv w"
    and "stream_end pf m (download_loop pf m p x) w = (Continue, st, w1)" "goes_through pf st w1 r"
  shows "goes_through pf (Streams m x) w r"
  using assms
proof (induction pf m p x arbitrary: w rule: download_loop.induct)
  case (1 pf m p x)
  obtain q s where q: "with_env (pf_http_read pf CHUNK) (dl_sv x) = (q, s)" by fastforce
  show ?case
  proof (cases "\<exists>b bs. q = Inr (b # bs)")
    case False
    then have "stage_step pf (Streams m x) w = stream_end pf m (download_loop pf m p x) w"
      using q "1.prems"(2)
      by (auto simp: download_loop.simps [of pf m p x] stream_step_def stream_end_def split: sum.split list.split)
    then show ?thesis using "1.prems"(3,4) by (simp del: stage_step.simps add: through_step)
  next
    case True
    then obtain b bs where b: "q = Inr (b # bs)" by blast
    obtain t x1 where t: "take_chunk pf m p (b # bs) (x\<lparr>dl_sv := s\<rparr>) = (t, x1)" by fastforce
    show ?thesis
    proof (cases t)
      case (Inl e)
      then have "stage_step pf (Streams m x) w = stream_end pf m (download_loop pf m p x) w"
        using q b t "1.prems"(1,2) by (simp add: download_loop.simps [of pf m p x] stream_step_def stream_end_def)
      then show ?thesis using "1.prems"(3,4) by (simp del: stage_step.simps add: through_step)
    next
      case (Inr u)
      then have l: "download_loop pf m p x = download_loop pf m p x1"
        using q b t by (simp add: download_loop.simps [of pf m p x])
      have "goes_through pf (Streams m x1) (w\<lparr>wk_sv := dl_sv x1\<rparr>) r"
        using "1.IH" [OF q [symmetric] b refl t [symmetric] Inr, of "w\<lparr>wk_sv := dl_sv x1\<rparr>"] "1.prems"(1,3,4)
        by (simp add: l)
      moreover have "stage_step pf (Streams m x) w = (Continue, Streams m x1, w\<lparr>wk_sv := dl_sv x1\<rparr>)"
        using q b t Inr "1.prems"(1,2) by (simp add: stream_step_def)
      ultimately show ?thesis by (rule through_step [rotated])
    qed
  qed
qed

lemma through_gives_up:
  assumes "stage_step pf st w = give_up e s w'"
  shows "goes_through pf st w (Continue, AtRest, (fail e (w'\<lparr>wk_sv := s\<rparr>))\<lparr>wk_manifest := None\<rparr>)"
  using assms [unfolded give_up_def] by (rule through_last)

text \<open>What a handler's answer means for the thread.\<close>

definition answered :: "bool \<Rightarrow> 'e worker \<Rightarrow> 'e thread" where
  "answered r w = (if r then (Restart, Restarts, w) else (Continue, AtRest, w))"

lemma through_download:
  assumes "wk_download pf m w = (q, w3)"
  shows "goes_through pf (Opens m) w (case q of
     Inr _ \<Rightarrow> answered True (wk_env (pf_sleep pf 2500) (set_ota (\<lambda>o'. o'\<lparr>o_state := Rebooting, o_progress := 100\<rparr>) w3))
   | Inl e \<Rightarrow> answered False ((fail e w3)\<lparr>wk_manifest := None\<rparr>))"
proof -
  obtain q1 s1 where 1: "open_image pf m (wk_sv w) = (q1, s1)" by fastforce
  show ?thesis
  proof (cases q1)
    case (Inl e)
    then have "stage_step pf (Opens m) w = give_up e s1 w" by (simp add: open_step_def 1)
    from through_gives_up [OF this] show ?thesis
      using assms Inl by (auto simp: wk_download_def download_and_write_def 1 answered_def)
  next
    case (Inr u)
    let ?p = "wk_project w" let ?w1 = "w\<lparr>wk_sv := s1\<rparr>"
    have o: "stage_step pf (Opens m) w = (Continue, Streams m (dl_start s1), ?w1)"
      by (simp add: open_step_def 1 Inr)
    obtain q2 s2 where 2: "stream_image pf m ?p s1 = (q2, s2)" by fastforce
    have e: "stream_end pf m (download_loop pf m ?p (dl_start s1)) w
        = (case q2 of Inl e \<Rightarrow> give_up e s2 w | Inr _ \<Rightarrow> (Continue, Activates m, w\<lparr>wk_sv := note_verifying s2\<rparr>))"
      using 2 by (auto simp: stream_image_def stream_end_def split: prod.splits sum.splits)
    have d: "dl_sv (dl_start s1) = wk_sv ?w1" "wk_project ?w1 = ?p" by (simp_all add: dl_start_def)
    note stream = through_step [OF o through_stream [OF d(2,1)]]
    show ?thesis
    proof (cases q2)
      case (Inl e2)
      have "goes_through pf (Opens m) w (Continue, AtRest, (fail e2 (w\<lparr>wk_sv := s2\<rparr>))\<lparr>wk_manifest := None\<rparr>)"
        by (rule stream [OF _ through_rest]) (simp add: e Inl give_up_def)
      then show ?thesis
        using assms Inl by (auto simp: wk_download_def download_and_write_def 1 Inr 2 answered_def)
    next
      case r2: (Inr u2)
      obtain q3 s3 where 3: "finish_and_activate pf (note_verifying s2) = (q3, s3)" by fastforce
      have e2: "stream_end pf m (download_loop pf m ?p (dl_start s1)) ?w1
          = (Continue, Activates m, w\<lparr>wk_sv := note_verifying s2\<rparr>)" by (simp add: e r2)
      show ?thesis
      proof (cases q3)
        case (Inl e3)
        then have "stage_step pf (Activates m) (w\<lparr>wk_sv := note_verifying s2\<rparr>) = give_up e3 s3 w"
          by (simp add: activate_step_def 3)
        from stream [OF e2 through_gives_up [OF this]] show ?thesis
          using assms Inl by (auto simp: wk_download_def download_and_write_def 1 Inr 2 r2 3 answered_def)
      next
        case r3: (Inr u3)
        let ?w3 = "w\<lparr>wk_sv := s3, wk_last_use := pf_now pf (sv_env s3)\<rparr>"
        have "stage_step pf (Activates m) (w\<lparr>wk_sv := note_verifying s2\<rparr>)
            = (Continue, Restarts, set_ota (\<lambda>o'. o'\<lparr>o_state := Rebooting, o_progress := 100\<rparr>) ?w3)"
          by (simp add: activate_step_def 3 r3)
        from stream [OF e2 through_step [OF this through_restart]] show ?thesis
          using assms by (auto simp: wk_download_def download_and_write_def 1 Inr 2 r2 3 r3 answered_def)
      qed
    qed
  qed
qed

lemma through_image:
  assumes "install_image pf m w = (r, w')"
  shows "goes_through pf (Begins (ForInstall m)) w (answered r w')"
proof -
  obtain b w1 where 1: "wifi_connect pf w = (b, w1)" by fastforce
  have "goes_through pf (Linked (ForInstall m) b) w1 (answered r w')"
  proof (cases b)
    case False
    then have "stage_step pf (Linked (ForInstall m) b) w1 = (Continue, AtRest, w') \<and> \<not> r"
      using assms 1 by (auto simp: install_image_def after_link_defs)
    then show ?thesis by (simp add: answered_def through_last del: stage_step.simps)
  next
    case b: True
    let ?w2 = "set_ota (\<lambda>o'. o'\<lparr>o_state := Downloading, o_progress := 0, o_error := None\<rparr>) w1"
    obtain q w3 where 3: "wk_download pf m ?w2 = (q, w3)" by fastforce
    have "stage_step pf (Linked (ForInstall m) b) w1 = (Continue, Opens m, ?w2)" by (simp add: after_link_defs b)
    from through_step [OF this through_download [OF 3]] show ?thesis
      using assms 1 b 3 by (auto simp: install_image_def Let_def split: sum.splits)
  qed
  with 1 show ?thesis by (rule through_link)
qed

lemma through_install:
  assumes "install pf w = (r, w')"
  shows "goes_through pf Installs w (answered r w')"
proof (cases "\<exists>m. wk_manifest w = Some m \<and> \<not> sh_moving (sv_shared (wk_sv w))")
  case False
  then have "stage_step pf Installs w = (Continue, AtRest, w') \<and> \<not> r"
    using assms by (auto simp: install_def install_step_def split: option.splits if_splits)
  then show ?thesis by (simp add: answered_def through_last del: stage_step.simps)
next
  case True
  then obtain m where m: "wk_manifest w = Some m" "\<not> sh_moving (sv_shared (wk_sv w))" by blast
  then have "stage_step pf Installs w = (Continue, Begins (ForInstall m), w)" by (simp add: install_step_def)
  moreover have "install_image pf m w = (r, w')" using assms m by (simp add: install_def)
  then have "goes_through pf (Begins (ForInstall m)) w (answered r w')" by (rule through_image)
  ultimately show ?thesis by (rule through_step)
qed

lemma through_check:
  assumes "check pf w = (ok, w1)" "begin_check pf inst w = (Continue, st, w0)"
    and "goes_through pf (if ok \<and> inst then Installs else AtRest) w1 r"
  shows "goes_through pf st w0 r"
proof -
  let ?t = "pf_uptime pf (sv_env (wk_sv w))"
  have st: "st = Begins (ForCheck ?t inst)"
    "w0 = set_ota (\<lambda>o'. o'\<lparr>o_state := Connecting, o_progress := 0, o_error := None\<rparr>) w"
    using assms(2) by (simp_all add: begin_check_def)
  obtain b w2 where 2: "wifi_connect pf w0 = (b, w2)" by fastforce
  have "goes_through pf (Linked (ForCheck ?t inst) b) w2 r"
  proof (cases b)
    case False
    then have "\<not> ok \<and> stage_step pf (Linked (ForCheck ?t inst) b) w2 = (Continue, AtRest, w1)"
      using assms(1) 2 st(2) by (auto simp: check_def after_link_defs Let_def)
    then show ?thesis using assms(3) through_step by (metis (full_types))
  next
    case b: True
    let ?w3 = "set_ota (\<lambda>o'. o'\<lparr>o_state := Checking\<rparr>) w2"
    obtain q w4 where 4: "get_small pf (manifest_url ?w3) ?w3 = (q, w4)" by fastforce
    have f: "stage_step pf (Linked (ForCheck ?t inst) b) w2 = (Continue, Fetches ?t inst, ?w3)"
      by (simp add: after_link_defs b)
    show ?thesis
    proof (cases "\<exists>body m. q = Inr body \<and> manifest_parse (pf_from_str pf) body = Inr m")
      case True
      then obtain body m where m: "q = Inr body" "manifest_parse (pf_from_str pf) body = Inr m" by blast
      have "apply_manifest ?t m w4 = (ok, w1)"
        using assms(1) 2 b 4 m st(2) by (simp add: check_def Let_def)
      then have "stage_step pf (Fetches ?t inst) ?w3 = (Continue, if ok \<and> inst then Installs else AtRest, w1)"
        by (simp add: fetch_step_def 4 m)
      from through_step [OF f through_step [OF this assms(3)]] show ?thesis .
    next
      case False
      then obtain e where e: "\<not> ok" "w1 = note_failed_check ?t e w4"
        "stage_step pf (Fetches ?t inst) ?w3 = (Continue, Notes ?t, fail e w4)"
        using assms(1) 2 b 4 st(2) by (cases q) (auto simp: check_def fetch_step_def Let_def split: sum.splits)
      have "stage_step pf (Notes ?t) (fail e w4) = (Continue, AtRest, w1)"
        by (simp add: e(2) note_failed_check_def)
      moreover have "goes_through pf AtRest w1 r" using assms(3) e(1) by simp
      ultimately have "goes_through pf (Notes ?t) (fail e w4) r" by (rule through_step)
      from through_step [OF f through_step [OF e(3) this]] show ?thesis .
    qed
  qed
  from through_link [OF 2 this] show ?thesis by (simp add: st(1))
qed

definition flow_end :: "flow \<times> 'e worker \<Rightarrow> 'e thread" where
  "flow_end p = (case p of (f, w) \<Rightarrow> (f, if f = Restart then Restarts else AtRest, w))"

lemma through_check_install:
  assumes "begin_check pf inst w = (Continue, st, w0)"
  shows "goes_through pf st w0 (flow_end (on_request pf (ReqCheck inst) w))"
proof -
  obtain ok w1 where c: "check pf w = (ok, w1)" by fastforce
  obtain r w2 where i: "install pf w1 = (r, w2)" by fastforce
  have "goes_through pf (if ok \<and> inst then Installs else AtRest) w1 (flow_end (on_request pf (ReqCheck inst) w))"
    using through_install [OF i] through_rest by (auto simp: on_request_def c i flow_end_def answered_def)
  then show ?thesis by (rule through_check [OF c assms])
qed

lemma through_request:
  assumes "begin_request pf q w = (Continue, st, w0)"
  shows "goes_through pf st w0 (flow_end (on_request pf q w))"
proof (cases q)
  case (ReqCheck inst)
  then show ?thesis using through_check_install assms by (simp add: begin_request_def)
next
  case ReqInstall
  show ?thesis
  proof (cases "wk_manifest w")
    case None
    then have "on_request pf q w = on_request pf (ReqCheck True) w" using ReqInstall by (simp add: on_request_def)
    then show ?thesis using through_check_install assms ReqInstall None by (simp add: begin_request_def)
  next
    case (Some m)
    obtain r w2 where i: "install pf w = (r, w2)" by fastforce
    have "st = Installs" "w0 = w" using assms ReqInstall Some by (simp_all add: begin_request_def)
    with through_install [OF i] show ?thesis
      using ReqInstall Some i by (cases r) (simp_all add: on_request_def flow_end_def answered_def)
  qed
next
  case ReqTestWifi
  obtain b w1 where 1: "wifi_connect pf w = (b, w1)" by fastforce
  have "goes_through pf (Linked ForTest b) w1 (Continue, AtRest, w1)"
    by (rule through_last) (simp add: after_link_defs)
  from through_link [OF 1 this] show ?thesis
    using assms ReqTestWifi 1 by (simp add: begin_request_def on_request_def flow_end_def)
next
  case ReqMarkValid
  then show ?thesis using assms through_rest by (simp add: begin_request_def on_request_def flow_end_def)
qed

section \<open>What a stage leaves alone\<close>

context update_blind
begin

lemma gives_up: "others s = others (wk_sv w) \<Longrightarrow> give_up e s w = (f, st, w') \<Longrightarrow> g w' = g w"
  by (auto simp: give_up_def manifest failing services)

lemma fetch_stage: "fetch_step pf t inst w = (f, st, w') \<Longrightarrow> g w' = g w"
proof -
  obtain q w1 where 1: "get_small pf (manifest_url w) w = (q, w1)" by fastforce
  then have "g w1 = g w" using fetch [of pf "manifest_url w" w] by simp
  then show "fetch_step pf t inst w = (f, st, w') \<Longrightarrow> g w' = g w"
    using applied by (auto simp: fetch_step_def 1 failing case_prod_beta split: sum.splits)
qed

lemma stream_stage: "stream_step pf m x w = (f, st, w') \<Longrightarrow> g w' = g w"
proof -
  assume st: "stream_step pf m x w = (f, st, w')"
  obtain q s where q: "with_env (pf_http_read pf CHUNK) (wk_sv w) = (q, s)" by fastforce
  then have s: "others s = others (wk_sv w)" using io_others(1) [of "pf_http_read pf CHUNK" "wk_sv w"] by simp
  have "others (dl_sv x1) = others (wk_sv w)"
    if "take_chunk pf m (wk_project w) c (x\<lparr>dl_sv := s\<rparr>) = (t, x1)" for t x1 c
    using take_chunk_others [OF that] s by simp
  then show ?thesis using st s q
    by (auto simp: stream_step_def services elim!: gives_up [rotated] split: sum.splits list.splits prod.splits)
qed

lemma stage: "stage_step pf st w = (f, st', w') \<Longrightarrow> g w' = g w"
proof (cases st)
  case (Begins p)
  assume "stage_step pf st w = (f, st', w')"
  then show ?thesis using Begins link_start [of pf w] by (auto split: prod.splits sum.splits)
next
  case (Links p ssid psk)
  assume "stage_step pf st w = (f, st', w')"
  then show ?thesis using Links link_finish [of pf ssid psk w] by (auto split: prod.splits)
next
  case (Opens m)
  assume "stage_step pf st w = (f, st', w')"
  then show ?thesis using Opens open_others [of pf m "wk_sv w"]
    by (auto simp: open_step_def services elim!: gives_up [rotated] split: prod.splits sum.splits)
next
  case (Activates m)
  assume "stage_step pf st w = (f, st', w')"
  then show ?thesis using Activates finish_others [of pf "wk_sv w"]
    by (auto simp: activate_step_def services ota fields elim!: gives_up [rotated] split: prod.splits sum.splits)
qed (auto simp: after_link_defs install_step_def ota failing env fetch_stage stream_stage
    split: purpose.splits if_splits option.splits)

lemma request: "q \<noteq> ReqMarkValid \<Longrightarrow> begin_request pf q w = (f, st, w') \<Longrightarrow> g w' = g w"
  by (cases q) (auto simp: begin_request_def begin_check_def ota split: if_splits)

lemma idling: "g (on_idle pf w) = g w"
  by (simp add: on_idle_def disconnect)

lemma turn:
  assumes "thread_step pf v st w = (f, st', w')" "v \<noteq> Takes ReqMarkValid"
    and "(\<exists>q. v = Takes q) \<or> v = Waits \<or> v = GoesOn \<or> (\<exists>e. v = WorldMoves e)"
  shows "g w' = g w"
  using assms by (cases v) (auto simp: idling stage request env split: stage.splits)

end

section \<open>What an install writes\<close>

text \<open>The manifest that a stage is installing, past the look at the moving flag.\<close>

fun committed :: "'e stage \<Rightarrow> manifest option" where
  "committed (Begins (ForInstall m)) = Some m"
| "committed (Links (ForInstall m) _ _) = Some m"
| "committed (Linked (ForInstall m) _) = Some m"
| "committed (Opens m) = Some m"
| "committed (Streams m _) = Some m"
| "committed (Activates m) = Some m"
| "committed _ = None"

text \<open>The flash calls an install has made at a stage.\<close>

fun written :: "'e platform \<Rightarrow> string \<Rightarrow> 'e stage \<Rightarrow> flash_op list \<Rightarrow> bool" where
  "written pf project (Streams m x) ops \<longleftrightarrow>
     (\<exists>cs. ops = OtaBegin # map OtaWrite cs \<and> dl_hashed x = concat cs \<and> dl_inv pf m project x)"
| "written pf project (Activates m) ops \<longleftrightarrow>
     (\<exists>cs. ops = OtaBegin # map OtaWrite cs \<and> good_image pf m project (concat cs))"
| "written pf project _ ops \<longleftrightarrow> ops = []"

text \<open>One stage of an install: it goes on with the next calls, or ends, with the switch only when activating.\<close>

definition install_goes :: "'e platform \<Rightarrow> string \<Rightarrow> manifest \<Rightarrow> 'e stage \<Rightarrow> 'e worker \<Rightarrow> flash_op list \<Rightarrow> 'e thread \<Rightarrow> bool" where
  "install_goes pf project m st w ops r \<longleftrightarrow> (case r of (f, st', w') \<Rightarrow> f = Continue
     \<and> (\<exists>new. calls w' = calls w @ new
        \<and> (if committed st' = Some m then written pf project st' (ops @ new) \<and> OtaSetBoot \<notin> set new
           else committed st' = None \<and> (OtaSetBoot \<in> set new \<longrightarrow> st = Activates m \<and> new = [OtaEnd, OtaSetBoot])
             \<and> (st' = Restarts \<longrightarrow> OtaSetBoot \<in> set new))))"

lemma goes_simp: "install_goes pf project m st w ops (Continue, st', w') \<longleftrightarrow>
    (\<exists>new. calls w' = calls w @ new
        \<and> (if committed st' = Some m then written pf project st' (ops @ new) \<and> OtaSetBoot \<notin> set new
           else committed st' = None \<and> (OtaSetBoot \<in> set new \<longrightarrow> st = Activates m \<and> new = [OtaEnd, OtaSetBoot])
             \<and> (st' = Restarts \<longrightarrow> OtaSetBoot \<in> set new)))"
  by (simp add: install_goes_def)

lemma goes_gives_up:
  assumes "sv_flash s = calls w @ new" "OtaSetBoot \<in> set new \<longrightarrow> st = Activates m \<and> new = [OtaEnd, OtaSetBoot]"
  shows "install_goes pf project m st w ops (give_up e s w')"
  unfolding give_up_def goes_simp using assms by (intro exI [of _ new]) simp

lemma open_goes: "install_goes pf project m (Opens m) w [] (open_step pf m w)"
proof -
  obtain q s where q: "open_image pf m (wk_sv w) = (q, s)" by fastforce
  note c = open_calls [OF q]
  show ?thesis
  proof (cases q)
    case (Inl e)
    then obtain new where "sv_flash s = calls w @ new" "OtaSetBoot \<notin> set new" using c by auto
    then show ?thesis using q Inl by (simp add: open_step_def goes_gives_up)
  next
    case (Inr u)
    then have "sv_flash s = calls w @ [OtaBegin]" using c by auto
    then show ?thesis using q Inr dl_inv_start [of pf m project s]
      by (simp add: open_step_def goes_simp) (simp add: dl_start_def)
  qed
qed

lemma stream_goes:
  assumes "written pf (wk_project w) (Streams m x) ops"
  shows "install_goes pf (wk_project w) m (Streams m x) w ops (stream_step pf m x w)"
proof -
  obtain cs where cs: "ops = OtaBegin # map OtaWrite cs" "dl_hashed x = concat cs" "dl_inv pf m (wk_project w) x"
    using assms by auto
  obtain q s where q: "with_env (pf_http_read pf CHUNK) (wk_sv w) = (q, s)" by fastforce
  then have s: "sv_flash s = calls w" using with_env_calls [of "pf_http_read pf CHUNK" "wk_sv w"] by simp
  have abort: "install_goes pf (wk_project w) m (Streams m x) w ops (give_up e (slot_drop pf s') w)"
    if "sv_flash s' = calls w @ new" "OtaSetBoot \<notin> set new" for e s' new
    by (rule goes_gives_up [where new = "new @ [OtaAbort]"]) (use that in simp_all)
  consider (bad) e where "q = Inl e" | (over) "q = Inr []" | (chunk) b bs where "q = Inr (b # bs)"
    by (cases q; cases "projr q") auto
  then show ?thesis
  proof cases
    case bad
    then show ?thesis using q s by (simp add: stream_step_def abort [where new = "[]"])
  next
    case over
    show ?thesis
    proof (cases "final_checks pf m x")
      case (Inl e)
      then show ?thesis using q s over by (simp add: stream_step_def abort [where new = "[]"])
    next
      case (Inr u)
      then have "good_image pf m (wk_project w) (concat cs)"
        using cs(2,3) by (auto simp: good_image_def final_checks_def dl_inv_def split: if_splits)
      then show ?thesis using q s over Inr cs(1) by (auto simp: stream_step_def goes_simp)
    qed
  next
    case chunk
    obtain t x1 where t: "take_chunk pf m (wk_project w) (b # bs) (x\<lparr>dl_sv := s\<rparr>) = (t, x1)" by fastforce
    have "dl_inv pf m (wk_project w) (x\<lparr>dl_sv := s\<rparr>)" using cs(3) by (simp add: dl_inv_def)
    from take_chunk_step [OF t this] obtain new where new: "sv_flash (dl_sv x1) = calls w @ new"
      "new = [] \<or> new = [OtaWrite (b # bs)]"
      "t = Inr () \<Longrightarrow> new = [OtaWrite (b # bs)] \<and> dl_hashed x1 = dl_hashed x @ b # bs \<and> dl_inv pf m (wk_project w) x1"
      using s by auto
    show ?thesis
    proof (cases t)
      case (Inl e)
      have "OtaSetBoot \<notin> set new" using new(2) by auto
      then show ?thesis using q chunk t Inl new(1) by (simp add: stream_step_def abort)
    next
      case (Inr u)
      then have "written pf (wk_project w) (Streams m x1) (ops @ new)"
        using new(3) cs by (auto intro: exI [of _ "cs @ [b # bs]"])
      then show ?thesis using q chunk t Inr new
        by (auto simp: stream_step_def goes_simp simp del: written.simps)
    qed
  qed
qed

lemma activate_goes:
  "install_goes pf project m (Activates m) w ops (activate_step pf w)"
proof -
  obtain q s where q: "finish_and_activate pf (wk_sv w) = (q, s)" by fastforce
  note c = finish_calls [OF q]
  show ?thesis
  proof (cases q)
    case (Inl e)
    obtain new where "sv_flash s = calls w @ new" "OtaSetBoot \<in> set new \<longrightarrow> new = [OtaEnd, OtaSetBoot]"
      using c by auto
    then show ?thesis using q Inl by (simp add: activate_step_def goes_gives_up)
  next
    case (Inr u)
    then show ?thesis using q c by (auto simp: activate_step_def goes_simp)
  qed
qed

lemma link_goes:
  assumes "core w' = core w" "written pf project st' ops" "committed st' = Some m"
  shows "install_goes pf project m st w ops (Continue, st', w')"
  using assms core_fields(1) [OF assms(1)] by (simp add: goes_simp)

lemma stage_goes:
  assumes "committed st = Some m" "written pf (wk_project w) st ops"
  shows "install_goes pf (wk_project w) m st w ops (stage_step pf st w)"
proof (cases st)
  case (Begins p)
  then have p: "p = ForInstall m" "ops = []" using assms by (cases p, auto)+
  obtain q w1 where 1: "link_start pf w = (q, w1)" by fastforce
  then have "core w1 = core w" using core_kept.link_start [of pf w] by simp
  then show ?thesis using 1 Begins p by (cases q) (auto intro!: link_goes)
next
  case (Links p ssid psk)
  then have p: "p = ForInstall m" "ops = []" using assms by (cases p, auto)+
  obtain b w1 where 1: "link_finish pf ssid psk w = (b, w1)" by fastforce
  then have "core w1 = core w" using core_kept.link_finish [of pf ssid psk w] by simp
  then show ?thesis using 1 Links p by (auto intro!: link_goes)
next
  case (Linked p b)
  then have "p = ForInstall m" "ops = []" using assms by (cases p, auto)+
  then show ?thesis using Linked by (auto simp: after_link_defs goes_simp)
qed (use assms in \<open>auto simp: open_goes stream_goes activate_goes simp del: written.simps(1,2)\<close>)

section \<open>What the main loop reads at each stage\<close>

lemma io_shared [simp]: "sv_shared (snd (with_env f s)) = sv_shared s" "sv_shared (snd (flash pf a s)) = sv_shared s"
  by (simp_all add: flash_def with_env_def case_prod_beta)

lemma slot_shared [simp]: "sv_shared (snd (slot_begin pf s)) = sv_shared s"
  "sv_shared (snd (slot_write pf c s)) = sv_shared s" "sv_shared (slot_drop pf s) = sv_shared s"
  by (simp_all add: slot_begin_def slot_write_def slot_drop_def)

lemma open_shared: "open_image pf m s = (r, s') \<Longrightarrow> sv_shared s' = sv_shared s"
proof -
  assume o: "open_image pf m s = (r, s')"
  obtain q1 s1 where 1: "with_env (pf_http_new pf) s = (q1, s1)" by fastforce
  obtain q2 s2 where 2: "with_env (pf_http_get pf (m_url m) ''application/octet-stream'') s1 = (q2, s2)" by fastforce
  obtain q3 s3 where 3: "slot_begin pf s2 = (q3, s3)" by fastforce
  have "sv_shared s1 = sv_shared s" "sv_shared s2 = sv_shared s1" "sv_shared s3 = sv_shared s2"
    using io_shared(1) [of "pf_http_new pf" s] slot_shared(1) [of pf s2]
      io_shared(1) [of "pf_http_get pf (m_url m) ''application/octet-stream''" s1] by (simp_all add: 1 2 3)
  then show ?thesis using o by (auto simp: open_image_def 1 2 3 split: sum.splits)
qed

lemma finish_shared: "finish_and_activate pf s = (r, s') \<Longrightarrow> sv_shared s' = sv_shared s"
proof -
  have "sv_shared (snd (finish_and_activate pf s)) = sv_shared s"
    by (simp add: finish_and_activate_def case_prod_beta split: sum.split)
  then show "finish_and_activate pf s = (r, s') \<Longrightarrow> ?thesis" by simp
qed

lemma take_chunk_state:
  assumes "take_chunk pf m p c x = (r, x')"
  shows "o_state (sh_ota (sv_shared (dl_sv x'))) = o_state (sh_ota (sv_shared (dl_sv x)))"
proof -
  have ch: "dl_sv x2 = dl_sv x1" if "check_head pf m p c x1 = Inr x2" for x1 x2 :: "'a download"
    using that by (auto simp: check_head_def Let_def split: if_splits sum.splits)
  have rp: "o_state (sh_ota (sv_shared (dl_sv (report_progress m x)))) = o_state (sh_ota (sv_shared (dl_sv x)))"
    for x :: "'a download"
    by (simp add: report_progress_def upd_ota_def Let_def)
  have "sv_shared s = sv_shared (dl_sv x2)" if "slot_write pf c (dl_sv x2) = (w, s)" for w s and x2 :: "'a download"
    using slot_shared(2) [of pf c "dl_sv x2"] that by simp
  then show ?thesis
    using assms ch rp by (fastforce simp: take_chunk_def Let_def split: if_splits sum.splits prod.splits)
qed

fun expected :: "'e stage \<Rightarrow> ota_status \<Rightarrow> bool" where
  "expected (Begins (ForCheck _ _)) o' \<longleftrightarrow> o_state o' = Connecting"
| "expected (Links (ForCheck _ _) _ _) o' \<longleftrightarrow> o_state o' = Connecting"
| "expected (Linked (ForCheck _ _) _) o' \<longleftrightarrow> o_state o' = Connecting"
| "expected (Fetches _ _) o' \<longleftrightarrow> o_state o' = Checking"
| "expected (Opens _) o' \<longleftrightarrow> o_state o' = Downloading"
| "expected (Streams _ _) o' \<longleftrightarrow> o_state o' = Downloading"
| "expected (Activates _) o' \<longleftrightarrow> o_state o' = Verifying"
| "expected Restarts o' \<longleftrightarrow> o_state o' = Rebooting \<and> o_progress o' = 100"
| "expected _ o' \<longleftrightarrow> \<not> is_busy (o_state o')"

text \<open>The thread's invariant: whose firmware it is, only vetted manifests, and the status of the stage.\<close>

definition thread_ok :: "'e platform \<Rightarrow> string \<Rightarrow> string \<Rightarrow> 'e stage \<Rightarrow> 'e worker \<Rightarrow> bool" where
  "thread_ok pf version project st w \<longleftrightarrow> wk_version w = version \<and> wk_project w = project
     \<and> (\<forall>m. wk_manifest w = Some m \<or> committed st = Some m \<longrightarrow> vetted pf version m) \<and> expected st (status w)"

lemma thread_ok_core: "core w' = core w \<Longrightarrow> thread_ok pf version project st w' = thread_ok pf version project st w"
  using core_fields [of w' w] by (simp add: thread_ok_def)

lemma ok_gives_up:
  assumes "thread_ok pf version project st w" "give_up e s w = (f, st', w')"
  shows "thread_ok pf version project st' w'"
  using assms by (auto simp: give_up_def thread_ok_def is_busy_def)

lemma ok_fetch:
  assumes "thread_ok pf version project (Fetches t inst) w" "fetch_step pf t inst w = (f, st', w')"
  shows "thread_ok pf version project st' w' \<and> calls w' = calls w \<and> committed st' = None \<and> st' \<noteq> Restarts \<and> f = Continue"
proof -
  obtain q w1 where 1: "get_small pf (manifest_url w) w = (q, w1)" by fastforce
  then have c: "core w1 = core w" using get_small_core(1) [of pf "manifest_url w" w] by simp
  note f = core_fields [OF c]
  show ?thesis
  proof (cases "\<exists>body m. q = Inr body \<and> manifest_parse (pf_from_str pf) body = Inr m")
    case True
    then obtain body m where m: "q = Inr body" "manifest_parse (pf_from_str pf) body = Inr m" by blast
    then show ?thesis using assms 1 f
      by (cases "decide (wk_version w1) m")
        (auto simp: fetch_step_def apply_manifest_def Let_def thread_ok_def note_decision_def vetted_def is_busy_def
          split: if_splits)
  next
    case False
    then show ?thesis using assms 1 f
      by (auto simp: fetch_step_def thread_ok_def is_busy_def split: sum.splits)
  qed
qed

lemma ok_stream:
  assumes "thread_ok pf version project (Streams m x) w" "stream_step pf m x w = (f, st', w')"
  shows "thread_ok pf version project st' w'"
proof -
  obtain q s where q: "with_env (pf_http_read pf CHUNK) (wk_sv w) = (q, s)" by fastforce
  then have s: "sv_shared s = sv_shared (wk_sv w)" using io_shared(1) [of "pf_http_read pf CHUNK" "wk_sv w"] by simp
  have "o_state (sh_ota (sv_shared (dl_sv x1))) = o_state (status w)"
    if "take_chunk pf m (wk_project w) c (x\<lparr>dl_sv := s\<rparr>) = (t, x1)" for t x1 c
    using take_chunk_state [OF that] s by simp
  then show ?thesis using assms q ok_gives_up [OF assms(1)]
    by (auto simp: stream_step_def split: sum.splits list.splits prod.splits) (auto simp: thread_ok_def)
qed

text \<open>The manifest to install is fixed, and the moving flag looked at, in one place.\<close>

lemma stage_ok:
  assumes "thread_ok pf version project st w" "stage_step pf st w = (f, st', w')"
  shows "thread_ok pf version project st' w' \<and> (f = Restart \<longleftrightarrow> st = Restarts) \<and> f \<noteq> Exit
    \<and> (committed st = None \<longrightarrow> calls w' = calls w \<and> (st' = Restarts \<longrightarrow> st = Restarts)
        \<and> (\<forall>m. committed st' = Some m \<longrightarrow> st = Installs \<and> st' = Begins (ForInstall m)
             \<and> wk_manifest w = Some m \<and> \<not> moving w))"
proof (cases st)
  case (Begins p)
  obtain q w1 where 1: "link_start pf w = (q, w1)" by fastforce
  then have c: "core w1 = core w" using core_kept.link_start [of pf w] by simp
  show ?thesis using assms 1 Begins core_fields [OF c]
    by (cases p) (auto simp: thread_ok_def split: sum.splits)
next
  case (Links p ssid psk)
  obtain b w1 where 1: "link_finish pf ssid psk w = (b, w1)" by fastforce
  then have c: "core w1 = core w" using core_kept.link_finish [of pf ssid psk w] by simp
  show ?thesis using assms 1 Links core_fields [OF c] by (cases p) (auto simp: thread_ok_def)
next
  case (Linked p b)
  show ?thesis using assms Linked
    by (cases p) (auto simp: after_link_defs thread_ok_def is_busy_def split: if_splits)
next
  case (Fetches t inst)
  show ?thesis using ok_fetch [of pf version project t inst w f st' w'] assms Fetches by auto
next
  case (Opens m)
  have "thread_ok pf version project st' w'" using assms Opens open_shared [of pf m "wk_sv w"] ok_gives_up [OF assms(1)]
    by (auto simp: open_step_def split: prod.splits sum.splits) (auto simp: thread_ok_def)
  moreover have "f = Continue" using assms Opens by (auto simp: open_step_def give_up_def split: prod.splits sum.splits)
  ultimately show ?thesis using Opens by simp
next
  case (Streams m x)
  have "f = Continue" using assms Streams
    by (auto simp: stream_step_def give_up_def split: prod.splits sum.splits list.splits)
  then show ?thesis using ok_stream assms Streams by auto
next
  case (Activates m)
  have "thread_ok pf version project st' w'" using assms Activates finish_shared [of pf "wk_sv w"] ok_gives_up [OF assms(1)]
    by (auto simp: activate_step_def split: prod.splits sum.splits) (auto simp: thread_ok_def)
  moreover have "f = Continue" using assms Activates by (auto simp: activate_step_def give_up_def split: prod.splits sum.splits)
  ultimately show ?thesis using Activates by simp
next
  case Restarts
  have "core (wk_env g w) = core w" for g by simp
  from core_fields [OF this] show ?thesis using assms Restarts by (auto simp: thread_ok_def)
qed (use assms in \<open>auto simp: thread_ok_def install_step_def is_busy_def split: option.splits if_splits\<close>)

lemma mark_valid_core: "core (mark_valid pf w) = core w"
  using io_core(1) [of "pf_mark_valid pf" w]
  by (auto simp: mark_valid_def set_shared_def core_def split: prod.split sum.split)

lemma begin_ok:
  assumes "thread_ok pf version project AtRest w" "begin_request pf q w = (f, st', w')"
  shows "thread_ok pf version project st' w' \<and> calls w' = calls w \<and> f = Continue \<and> committed st' = None \<and> st' \<noteq> Restarts"
  using assms core_fields [OF mark_valid_core [of pf w]]
  by (cases q) (auto simp: begin_request_def begin_check_def thread_ok_def split: if_splits)

lemma event_ok:
  assumes "thread_ok pf version project st w" "thread_step pf v st w = (f, st', w')" "v \<noteq> GoesOn"
  shows "thread_ok pf version project st' w' \<and> calls w' = calls w \<and> f \<noteq> Restart
    \<and> (st' = st \<or> st = AtRest \<and> committed st' = None \<and> st' \<noteq> Restarts)"
proof (cases "\<exists>q. v = Takes q \<and> st = AtRest")
  case True
  then show ?thesis using assms begin_ok by fastforce
next
  case False
  have i: "core (on_idle pf w) = core w" by (simp add: on_idle_def)
  have "core (wk_env g w) = core w" for g by simp
  with False show ?thesis using assms core_fields [OF i]
    by (cases v) (auto simp: set_shared_def upd_wifi_def thread_ok_def wk_env_def split: stage.splits)
qed

text \<open>
  Since when an install is under way: the thread looked at the moving flag with this manifest, the
  flag was clear, and the thread has been committed to the install ever since.
\<close>

inductive under_way :: "'e platform \<Rightarrow> 'e worker \<Rightarrow> 'e thread_event list \<Rightarrow> manifest \<Rightarrow> flash_op list \<Rightarrow> bool"
  for pf w0 where
  begins: "thread_run pf us AtRest w0 = (Continue, Installs, w1) \<Longrightarrow> wk_manifest w1 = Some m \<Longrightarrow> \<not> moving w1
    \<Longrightarrow> under_way pf w0 (us @ [GoesOn]) m (calls w1)"
| goes_on: "under_way pf w0 us m c \<Longrightarrow> thread_run pf (us @ [v]) AtRest w0 = (Continue, st, w) \<Longrightarrow> committed st = Some m
    \<Longrightarrow> under_way pf w0 (us @ [v]) m c"

definition progress_ok :: "'e platform \<Rightarrow> 'e worker \<Rightarrow> 'e thread_event list \<Rightarrow> 'e stage \<Rightarrow> 'e worker \<Rightarrow> bool" where
  "progress_ok pf w0 vs st w \<longleftrightarrow>
     (\<forall>m. committed st = Some m \<longrightarrow> (\<exists>c ops. under_way pf w0 vs m c \<and> calls w = c @ ops \<and> written pf (wk_project w) st ops))
     \<and> (st = Restarts \<longrightarrow> OtaSetBoot \<in> set (calls w))"

text \<open>A step of the thread, in a run from its start.\<close>

lemma step_progress:
  assumes run: "thread_run pf vs AtRest w0 = (Continue, st, w)" and step: "thread_step pf v st w = (f, st', w')"
    and ok: "thread_ok pf version project st w" "progress_ok pf w0 vs st w"
  shows "thread_ok pf version project st' w' \<and> (f = Continue \<longrightarrow> progress_ok pf w0 (vs @ [v]) st' w')
    \<and> (\<exists>new. calls w' = calls w @ new \<and> (OtaSetBoot \<in> set new \<longrightarrow>
         (\<exists>m c cs. v = GoesOn \<and> st = Activates m \<and> vetted pf version m \<and> under_way pf w0 vs m c
            \<and> calls w' = c @ trace_calls (Activated cs) \<and> good_image pf m project (concat cs))))
    \<and> (f = Restart \<longrightarrow> OtaSetBoot \<in> set (calls w') \<and> st = Restarts)"
proof -
  have next_run: "thread_run pf (vs @ [v]) AtRest w0 = (f, st', w')"
    using run step by (cases f) (simp_all add: thread_run_append)
  have p: "wk_project w = project" "thread_ok pf version project st' w' \<Longrightarrow> wk_project w' = project"
    using ok(1) by (simp_all add: thread_ok_def)
  show ?thesis
  proof (cases "v = GoesOn")
    case False
    note e = event_ok [OF ok(1) step False]
    have "progress_ok pf w0 (vs @ [v]) st' w'" if "f = Continue"
    proof (cases "st' = st")
      case True
      then show ?thesis using ok(2) e p next_run that
        by (auto simp: progress_ok_def) (metis goes_on)+
    qed (use e in \<open>auto simp: progress_ok_def\<close>)
    then show ?thesis using e by auto
  next
    case v: True
    then have s: "stage_step pf st w = (f, st', w')" using step by simp
    note k = stage_ok [OF ok(1) s]
    show ?thesis
    proof (cases "committed st")
      case None
      have "under_way pf w0 (vs @ [v]) m (calls w')" if "committed st' = Some m" for m
        using k None that run begins [of pf vs w0 w m] by (auto simp: v)
      then have "progress_ok pf w0 (vs @ [v]) st' w'"
        using k None ok(2) by (fastforce simp: progress_ok_def)
      then show ?thesis using k None ok(2) by (auto simp: progress_ok_def)
    next
      case (Some m)
      then obtain c ops where c: "under_way pf w0 vs m c" "calls w = c @ ops" "written pf (wk_project w) st ops"
        using ok(2) by (auto simp: progress_ok_def)
      have m: "vetted pf version m" using ok(1) Some by (simp add: thread_ok_def)
      from stage_goes [OF Some c(3)] s obtain new where new: "f = Continue" "calls w' = calls w @ new"
        "if committed st' = Some m then written pf (wk_project w) st' (ops @ new) \<and> OtaSetBoot \<notin> set new
         else committed st' = None \<and> (OtaSetBoot \<in> set new \<longrightarrow> st = Activates m \<and> new = [OtaEnd, OtaSetBoot])
           \<and> (st' = Restarts \<longrightarrow> OtaSetBoot \<in> set new)" by (auto simp: install_goes_def)
      have "progress_ok pf w0 (vs @ [v]) st' w'"
      proof (cases "committed st' = Some m")
        case True
        then have "st' \<noteq> Restarts" by auto
        moreover have "under_way pf w0 (vs @ [v]) m c" using c(1) next_run True new(1) by (auto intro: goes_on)
        ultimately show ?thesis using True new c(2) p k by (auto simp: progress_ok_def)
      qed (use new in \<open>auto simp: progress_ok_def\<close>)
      moreover have "\<exists>cs. calls w' = c @ trace_calls (Activated cs) \<and> good_image pf m project (concat cs)" "st = Activates m"
        if "OtaSetBoot \<in> set new"
        using that new c(2,3) p(1) by (auto split: if_splits)
      ultimately show ?thesis using k new(1,2) c(1) m v Some by auto
    qed
  qed
qed

lemma thread_run_snoc:
  assumes "thread_run pf (vs @ [v]) st0 w0 = (f, st', w')"
  obtains "f \<noteq> Continue" "thread_run pf vs st0 w0 = (f, st', w')"
  | st w where "thread_run pf vs st0 w0 = (Continue, st, w)" "thread_step pf v st w = (f, st', w')"
proof -
  obtain f1 st1 w1 where 1: "thread_run pf vs st0 w0 = (f1, st1, w1)" by (cases "thread_run pf vs st0 w0") auto
  obtain f2 st2 w2 where 2: "thread_step pf v st1 w1 = (f2, st2, w2)" by (cases "thread_step pf v st1 w1") auto
  show ?thesis using that assms 1 2 by (cases f1; cases f2) (auto simp: thread_run_append)
qed

lemma thread_run_ok:
  assumes "thread_run pf vs AtRest w0 = (f, st, w)" "thread_ok pf version project AtRest w0"
  shows "thread_ok pf version project st w \<and> (f = Continue \<longrightarrow> progress_ok pf w0 vs st w)
    \<and> (f = Restart \<longrightarrow> st = Restarts)"
  using assms(1)
proof (induction vs arbitrary: f st w rule: rev_induct)
  case Nil
  then show ?case using assms(2) by (auto simp: progress_ok_def)
next
  case (snoc v vs)
  from snoc.prems show ?case
  proof (cases rule: thread_run_snoc)
    case 1
    then show ?thesis using snoc.IH by blast
  next
    case (2 st1 w1)
    note k = snoc.IH [OF 2(1)]
    then have "thread_ok pf version project st1 w1" "progress_ok pf w0 vs st1 w1" by simp_all
    note s = step_progress [OF 2 this]
    have "f = Restart \<longrightarrow> st = Restarts"
      using 2(2) k stage_ok [of pf version project st1 w1 f st w] event_ok [OF _ 2(2)] by (cases "v = GoesOn") auto
    then show ?thesis using s by blast
  qed
qed

lemma spawn_thread_ok:
  "thread_ok pf version project AtRest (spawn pf e url version project cfg running invalid)"
  by (simp add: thread_ok_def spawn_def spawn_shared_def default_ota_def is_busy_def)

section \<open>A request comes to its end\<close>

fun stage_rank :: "'e stage \<Rightarrow> nat \<times> nat" where
  "stage_rank AtRest = (0, 0)"
| "stage_rank (Begins p) = (case p of ForCheck _ _ \<Rightarrow> 11 | ForInstall _ \<Rightarrow> 6 | ForTest \<Rightarrow> 3, 0)"
| "stage_rank (Links p _ _) = (case p of ForCheck _ _ \<Rightarrow> 10 | ForInstall _ \<Rightarrow> 5 | ForTest \<Rightarrow> 2, 0)"
| "stage_rank (Linked p _) = (case p of ForCheck _ _ \<Rightarrow> 9 | ForInstall _ \<Rightarrow> 4 | ForTest \<Rightarrow> 1, 0)"
| "stage_rank (Fetches _ _) = (8, 0)"
| "stage_rank (Notes _) = (1, 0)"
| "stage_rank Installs = (7, 0)"
| "stage_rank (Opens _) = (3, 0)"
| "stage_rank (Streams m x) = (2, unat (m_size m) - dl_total x)"
| "stage_rank (Activates _) = (1, 0)"
| "stage_rank Restarts = (0, 1)"

abbreviation stage_order :: "((nat \<times> nat) \<times> nat \<times> nat) set" where
  "stage_order \<equiv> less_than <*lex*> less_than"

lemma stream_descends:
  assumes "stream_step pf m x w = (f, st', w')"
  shows "(stage_rank st', stage_rank (Streams m x)) \<in> stage_order"
proof -
  have "unat (m_size m) - dl_total x1 < unat (m_size m) - dl_total x"
    if "take_chunk pf m p (b # bs) (x\<lparr>dl_sv := s\<rparr>) = (Inr u, x1)" for p b bs s u x1
    using take_chunk_total [OF that] by simp linarith
  then show ?thesis
    using assms by (auto simp: stream_step_def give_up_def split: prod.splits sum.splits list.splits)
qed

lemma stage_descends:
  assumes "stage_step pf st w = (Continue, st', w')" "st \<noteq> AtRest"
  shows "(stage_rank st', stage_rank st) \<in> stage_order"
proof (cases st)
  case (Begins p)
  then show ?thesis using assms by (cases p) (auto split: prod.splits sum.splits)
next
  case (Links p ssid psk)
  then show ?thesis using assms by (cases p) (auto split: prod.splits)
next
  case (Linked p b)
  then show ?thesis using assms by (cases p) (auto simp: after_link_defs split: if_splits)
next
  case (Fetches t inst)
  then show ?thesis using assms
    by (auto simp: fetch_step_def split: prod.splits sum.splits if_splits)
next
  case (Streams m x)
  then show ?thesis using assms stream_descends [of pf m x w Continue st' w'] by simp
qed (use assms in \<open>auto simp: install_step_def open_step_def activate_step_def give_up_def
    split: prod.splits sum.splits option.splits if_splits\<close>)

lemma stays_at_stage:
  assumes "thread_step pf v st w = (f, st', w')" "v \<noteq> GoesOn" "st \<noteq> AtRest"
  shows "st' = st \<and> f = Continue"
  using assms by (cases v) (auto split: stage.splits)

definition ended :: "'e thread \<Rightarrow> bool" where
  "ended r \<longleftrightarrow> (case r of (f, st, w) \<Rightarrow> f \<noteq> Continue \<or> st = AtRest)"

lemma waits_at_stage:
  assumes "\<And>j. j < d \<Longrightarrow> ev (n + j) \<noteq> GoesOn" "st \<noteq> AtRest"
  shows "\<exists>w'. thread_run pf (map ev [n..<n + d]) st w = (Continue, st, w')"
  using assms(1)
proof (induction d)
  case (Suc d)
  then obtain w1 where w1: "thread_run pf (map ev [n..<n + d]) st w = (Continue, st, w1)" by fastforce
  obtain f st2 w2 where s: "thread_step pf (ev (n + d)) st w1 = (f, st2, w2)"
    by (cases "thread_step pf (ev (n + d)) st w1") auto
  from stays_at_stage [OF s Suc.prems assms(2)] w1 s show ?case
    by (simp add: thread_run_append)
qed simp

text \<open>Whatever happens in between, a thread that keeps going on comes to rest or to the restart.\<close>

lemma ends_under_schedule:
  assumes "\<And>n. \<exists>k \<ge> n. ev k = GoesOn"
  shows "\<exists>k. ended (thread_run pf (map ev [n..<n + k]) st w)"
proof (induction "stage_rank st" arbitrary: n st w rule: wf_induct_rule [OF wf_lex_prod [OF wf_less_than wf_less_than]])
  case 1
  show ?case
  proof (cases "st = AtRest")
    case True
    then show ?thesis by (intro exI [of _ 0]) (simp add: ended_def)
  next
    case False
    define d where "d = (LEAST d. ev (n + d) = GoesOn)"
    have "\<exists>d. ev (n + d) = GoesOn" using assms [of n] le_Suc_ex by metis
    then have d: "ev (n + d) = GoesOn" unfolding d_def by (rule LeastI_ex)
    have "ev (n + j) \<noteq> GoesOn" if "j < d" for j using that not_less_Least unfolding d_def by blast
    then obtain w1 where w1: "thread_run pf (map ev [n..<n + d]) st w = (Continue, st, w1)"
      using waits_at_stage [OF _ False] by blast
    obtain f st2 w2 where s: "stage_step pf st w1 = (f, st2, w2)" by (cases "stage_step pf st w1") auto
    have up: "thread_run pf (map ev [n..<n + Suc d]) st w = (f, st2, w2)"
      using w1 d s by (cases f) (simp_all add: thread_run_append)
    show ?thesis
    proof (cases "f = Continue")
      case True
      then have "(stage_rank st2, stage_rank st) \<in> stage_order" using stage_descends s False by blast
      from "1.hyps" [OF this] obtain k
        where k: "ended (thread_run pf (map ev [n + Suc d..<n + Suc d + k]) st2 w2)" by blast
      have "map ev [n..<n + (Suc d + k)] = map ev [n..<n + Suc d] @ map ev [n + Suc d..<n + Suc d + k]"
        using upt_add_eq_append [of n "n + Suc d" k] by (simp add: add.assoc del: upt_Suc)
      with up True k have "ended (thread_run pf (map ev [n..<n + (Suc d + k)]) st w)"
        by (simp add: thread_run_append del: upt_Suc)
      then show ?thesis by blast
    next
      case False
      with up have "ended (thread_run pf (map ev [n..<n + Suc d]) st w)" by (simp add: ended_def del: upt_Suc)
      then show ?thesis by blast
    qed
  qed
qed

section \<open>The main loop is told\<close>

text \<open>The worker never changes the update status without marking the shared record as changed.\<close>

definition told :: "ota_shared \<Rightarrow> ota_shared \<Rightarrow> bool" where
  "told sh sh' \<longleftrightarrow> sh_changed sh' \<or> sh_changed sh' = sh_changed sh \<and> sh_ota sh' = sh_ota sh"

abbreviation shared :: "'e worker \<Rightarrow> ota_shared" where
  "shared w \<equiv> sv_shared (wk_sv w)"

lemma told_simps [simp]: "told sh sh" "told sh (upd_ota g sh')" "told sh (upd_wifi h sh')"
  "told sh (shared (set_ota g w))" "told sh (shared (set_wifi_status h w))" "told sh (shared (fail t w))"
  by (simp_all add: told_def upd_ota_def upd_wifi_def set_ota_def set_wifi_status_def set_shared_def fail_def)

lemma told_gives_up: "give_up e s w = (f, st, w') \<Longrightarrow> told sh (shared w')"
  by (auto simp: give_up_def)

lemma told_chunk:
  assumes "take_chunk pf m p c x = (Inr u, x')"
  shows "told (sv_shared (dl_sv x)) (sv_shared (dl_sv x'))"
proof -
  let ?x1 = "x\<lparr>dl_total := dl_total x + length c\<rparr>"
  obtain x2 s where x2: "check_head pf m p c ?x1 = Inr x2" "slot_write pf c (dl_sv x2) = (Inr (), s)"
    "x' = report_progress m (x2\<lparr>dl_hashed := dl_hashed x2 @ c, dl_sv := s\<rparr>)"
    using assms by (auto simp: take_chunk_def Let_def split: if_splits sum.splits prod.splits)
  have "dl_sv x2 = dl_sv ?x1" using x2(1) by (auto simp: check_head_def Let_def split: if_splits sum.splits)
  moreover have "sv_shared s = sv_shared (dl_sv x2)" using slot_shared(2) [of pf c "dl_sv x2"] x2(2) by simp
  ultimately show ?thesis by (simp add: x2(3) report_progress_def Let_def)
qed

lemma told_link:
  "link_start pf w = (q, w') \<Longrightarrow> told (shared w) (shared w')"
  "link_finish pf ssid psk w = (b, w') \<Longrightarrow> told (shared w) (shared w')"
proof -
  let ?w = "w\<lparr>wk_last_use := wk_now pf w\<rparr>"
  obtain c w1 where 1: "already_connected pf ?w = (c, w1)" by fastforce
  then have "shared w1 = shared w" using shared_kept.already [of pf ?w] by simp
  then show "link_start pf w = (q, w') \<Longrightarrow> told (shared w) (shared w')"
    by (auto simp: link_start_def 1 split: bool.splits option.splits)
  have "shared (wk_env g x) = shared x" for g and x :: "'a worker" by (rule shared_kept.env)
  then show "link_finish pf ssid psk w = (b, w') \<Longrightarrow> told (shared w) (shared w')"
    by (auto simp: link_finish_def Let_def split: prod.splits sum.splits if_splits)
qed

lemma told_stage:
  assumes "stage_step pf st w = (f, st', w')"
  shows "told (shared w) (shared w')"
proof (cases st)
  case (Begins p)
  then show ?thesis using assms told_link(1) by (auto split: prod.splits sum.splits)
next
  case (Links p ssid psk)
  then show ?thesis using assms told_link(2) by (auto split: prod.splits)
next
  case (Fetches t inst)
  then show ?thesis using assms
    by (auto simp: fetch_step_def apply_manifest_def Let_def split: prod.splits sum.splits)
next
  case (Opens m)
  then show ?thesis using assms open_shared [of pf m "wk_sv w"]
    by (auto simp: open_step_def dest: told_gives_up split: prod.splits sum.splits)
next
  case (Streams m x)
  obtain q s where q: "with_env (pf_http_read pf CHUNK) (wk_sv w) = (q, s)" by fastforce
  then have s: "sv_shared s = shared w" using io_shared(1) [of "pf_http_read pf CHUNK" "wk_sv w"] by simp
  have c: "told (shared w) (sv_shared (dl_sv x1))"
    if "take_chunk pf m p c (x\<lparr>dl_sv := s\<rparr>) = (Inr u, x1)" for p c u x1
    using told_chunk [OF that] s by simp
  have v: "told sh (sv_shared (note_verifying s'))" for sh s' by (simp add: note_verifying_def)
  show ?thesis using assms Streams q c v
    by (auto simp: stream_step_def dest: told_gives_up split: prod.splits sum.splits list.splits)
next
  case (Activates m)
  then show ?thesis using assms
    by (auto simp: activate_step_def dest: told_gives_up split: prod.splits sum.splits)
next
  case Restarts
  then show ?thesis using assms by (auto simp: wk_env_def)
qed (use assms in \<open>auto simp: after_link_defs install_step_def split: purpose.splits option.splits if_splits\<close>)

lemma told_step:
  assumes "thread_step pf v st w = (f, st', w')" "(\<exists>q. v = Takes q) \<or> v = Waits \<or> v = GoesOn"
  shows "told (shared w) (shared w')"
proof -
  have mv: "told (shared w) (shared (mark_valid pf w))"
    using shared_kept.io [of "pf_mark_valid pf" w]
    by (auto simp: mark_valid_def told_def set_shared_def split: prod.split sum.split)
  have i: "told (shared w) (shared (on_idle pf w))" by (simp add: on_idle_def wifi_disconnect_def Let_def)
  have b: "told (shared w) (shared w1)" if "begin_request pf q w = (f1, st1, w1)" for q f1 st1 w1
    using that mv by (cases q) (auto simp: begin_request_def begin_check_def split: if_splits)
  show ?thesis using assms told_stage b i by (auto split: stage.splits)
qed

section \<open>The radio token over a run\<close>

text \<open>The one moment token and driver get lost: the driver is made after the look at the settings.\<close>

definition loses_at :: "'e platform \<Rightarrow> 'e thread_event \<Rightarrow> 'e stage \<Rightarrow> 'e worker \<Rightarrow> bool" where
  "loses_at pf v st w \<longleftrightarrow> v = GoesOn \<and> (\<exists>p ssid psk. st = Links p ssid psk) \<and> loses pf w"

definition keeps_token :: "bool \<Rightarrow> 'e worker \<Rightarrow> 'e worker \<Rightarrow> bool" where
  "keeps_token l w w' \<longleftrightarrow> (one_owner w \<longrightarrow> one_owner w' \<and> (lost w' \<longleftrightarrow> lost w \<or> l))"

lemma keeps_same: "radio w' = radio w \<Longrightarrow> keeps_token False w w'"
  by (auto simp: keeps_token_def radio_def one_owner_def lost_def)

lemma keeps_finish: "link_finish pf ssid psk w = (b, w') \<Longrightarrow> keeps_token (loses pf w) w w'"
  using link_finish_owner [of w pf ssid psk b w'] by (auto simp: keeps_token_def)

lemma radio_services [simp]: "radio (w\<lparr>wk_sv := s\<rparr>) = radio w" "radio (w\<lparr>wk_cfg := c\<rparr>) = radio w"
  by (simp_all add: radio_def)

lemma keeps_stage:
  assumes "stage_step pf st w = (f, st', w')"
  shows "keeps_token (loses_at pf GoesOn st w) w w'"
proof (cases "\<exists>p ssid psk. st = Links p ssid psk")
  case True
  then have "loses_at pf GoesOn st w = loses pf w" by (simp add: loses_at_def)
  then show ?thesis using True assms keeps_finish [of pf _ _ w] by (auto split: prod.splits)
next
  case False
  have g: "radio w1 = radio w" if "give_up e s w = (f, st', w1)" for e s w1
    using that by (auto simp: give_up_def)
  have "radio w' = radio w"
  proof (cases "\<exists>t inst. st = Fetches t inst")
    case True
    obtain q w1 where 1: "get_small pf (manifest_url w) w = (q, w1)" by fastforce
    then have "radio w1 = radio w" using get_small_core(2) [of pf "manifest_url w" w] by simp
    then show ?thesis using True assms
      by (auto simp: fetch_step_def 1 apply_manifest_def Let_def split: sum.splits)
  next
    case other: False
    then show ?thesis using assms False link_start_radio [of pf w]
      by (cases st) (auto simp: after_link_defs install_step_def open_step_def
        stream_step_def activate_step_def dest!: g
        split: prod.splits sum.splits purpose.splits option.splits list.splits if_splits)
  qed
  moreover have "loses_at pf GoesOn st w = False" using False by (simp add: loses_at_def)
  ultimately show ?thesis by (simp add: keeps_same)
qed

lemma keeps_step:
  assumes "thread_step pf v st w = (f, st', w')"
  shows "keeps_token (loses_at pf v st w) w w'"
proof (cases "v = GoesOn")
  case True
  then show ?thesis using assms keeps_stage by simp
next
  case False
  then have n: "loses_at pf v st w = False" by (simp add: loses_at_def)
  have mv: "radio (mark_valid pf w) = radio w"
    using io_core(2) [of "pf_mark_valid pf" w]
    by (auto simp: mark_valid_def set_shared_def radio_def split: prod.split sum.split)
  have sh: "radio (set_shared g w) = radio w" for g by (simp add: set_shared_def)
  show ?thesis
  proof (cases "v = Waits \<and> st = AtRest")
    case True
    then show ?thesis using assms disconnect_owner [where w = w and pf = pf] keeps_same [OF refl]
      by (cases "wk_wifi w \<and> WIFI_IDLE_TIMEOUT < wk_now pf w - wk_last_use w")
        (auto simp: loses_at_def on_idle_def keeps_token_def lost_def)
  next
    case other: False
    have "radio w' = radio w"
    proof (cases v)
      case (Takes q)
      then show ?thesis using assms mv
        by (cases q) (auto simp: begin_request_def begin_check_def split: stage.splits if_splits)
    qed (use assms False other sh in \<open>auto split: stage.splits\<close>)
    then show ?thesis unfolding n by (rule keeps_same)
  qed
qed

text \<open>Over a run: token and driver are lost exactly when some step of it lost them.\<close>

lemma keeps_run:
  assumes "one_owner w0" "thread_run pf vs st0 w0 = (f, st', w')"
  shows "one_owner w' \<and> (lost w' \<longleftrightarrow> lost w0 \<or> (\<exists>us v us' st w. vs = us @ v # us'
    \<and> thread_run pf us st0 w0 = (Continue, st, w) \<and> loses_at pf v st w))"
  using assms(2)
proof (induction vs arbitrary: f st' w' rule: rev_induct)
  case Nil
  then show ?case using assms(1) by simp
next
  case (snoc v vs)
  let ?l = "\<lambda>vs. \<exists>us v us' st w. vs = us @ v # us' \<and> thread_run pf us st0 w0 = (Continue, st, w) \<and> loses_at pf v st w"
  from snoc.prems show ?case
  proof (cases rule: thread_run_snoc)
    case 1
    have "?l (vs @ [v]) \<longleftrightarrow> ?l vs"
    proof
      assume "?l (vs @ [v])"
      then obtain us x us' st w where x: "vs @ [v] = us @ x # us'" "thread_run pf us st0 w0 = (Continue, st, w)" "loses_at pf x st w"
        by blast
      then have "us' \<noteq> []" using 1 by auto
      then show "?l vs" using x by (cases us' rule: rev_cases) auto
    qed (metis append_Cons append_assoc)
    then show ?thesis using snoc.IH [OF 1(2)] by simp
  next
    case (2 st w)
    have "?l (vs @ [v]) \<longleftrightarrow> ?l vs \<or> loses_at pf v st w"
    proof
      assume "?l (vs @ [v])"
      then obtain us x us' st1 w1 where x: "vs @ [v] = us @ x # us'" "thread_run pf us st0 w0 = (Continue, st1, w1)" "loses_at pf x st1 w1"
        by blast
      show "?l vs \<or> loses_at pf v st w"
      proof (cases us' rule: rev_cases)
        case Nil
        then show ?thesis using x 2(1) by simp
      qed (use x in auto)
    qed (use 2(1) in \<open>metis append_Cons append_assoc append_Nil2\<close>)
    then show ?thesis using snoc.IH [OF 2(1)] keeps_step [OF 2(2)] by (auto simp: keeps_token_def)
  qed
qed

text \<open>With token and driver gone, a connection fails in every stage.\<close>

lemma lost_never_links:
  assumes "one_owner w" "lost w" "wifi_connect pf w = (b, w')"
  shows "\<not> b"
proof -
  obtain q w1 where 1: "link_start pf w = (q, w1)" by fastforce
  then have r: "radio w1 = radio w" using link_start_radio [of pf w] by simp
  then have w1: "one_owner w1" "lost w1" using assms(1,2) by (simp_all add: radio_def one_owner_def lost_def)
  show ?thesis
  proof (cases q)
    case (Inl b')
    then show ?thesis using assms 1 link_start_up [of pf w w1] by (auto simp: wifi_connect_def lost_def)
  next
    case (Inr c)
    obtain ssid psk where "c = (ssid, psk)" by fastforce
    then show ?thesis using assms(3) 1 Inr w1 link_finish_owner [OF w1(1), of pf ssid psk b w']
      by (simp add: wifi_connect_def)
  qed
qed

section \<open>An install on a bike that sets off\<close>

text \<open>The bike starts to move just after the flag was looked at, and the install goes on.\<close>

lemma through_run: "goes_through pf st w r \<Longrightarrow> \<exists>vs. thread_run pf vs st w = r"
  unfolding goes_through_def by blast

lemma sim_check_run: obtains vs w1 where "thread_run sim_server vs AtRest sim_worker = (Continue, AtRest, w1)"
    "wk_manifest w1 = Some sim_manifest" "\<not> lost w1" "\<not> moving w1" "wk_project w1 = ''libespidf''"
proof -
  obtain w1 where w1: "check sim_server sim_worker = (True, w1)" "wk_manifest w1 = Some sim_manifest"
    using sim_check by blast
  obtain st w0 where b: "begin_check sim_server False sim_worker = (Continue, st, w0)" by (simp add: begin_check_def)
  have "goes_through sim_server st w0 (Continue, AtRest, w1)"
    by (rule through_check [OF w1(1) b]) (simp add: through_rest)
  then obtain vs where "thread_run sim_server vs st w0 = (Continue, AtRest, w1)" using through_run by blast
  then have run: "thread_run sim_server (Takes (ReqCheck False) # vs) AtRest sim_worker = (Continue, AtRest, w1)"
    using b by (simp add: begin_request_def)
  have "\<not> loses_at sim_server v st w" for v st w by (simp add: loses_at_def loses_def sim_defs)
  moreover have "one_owner sim_worker" "\<not> lost sim_worker" by (simp_all add: sim_worker_def spawn_def one_owner_def lost_def)
  ultimately have "\<not> lost w1" using keeps_run [OF _ run] by blast
  then show ?thesis using that [OF run w1(2)] check_spec [OF w1(1)]
    by (simp add: sim_worker_def spawn_def spawn_shared_def)
qed

lemma sim_run: obtains vs w where "thread_run sim_server vs AtRest sim_worker = (Restart, Restarts, w)"
    "MainMoving True \<in> set vs"
proof -
  obtain vs w1 where w1: "thread_run sim_server vs AtRest sim_worker = (Continue, AtRest, w1)"
    "wk_manifest w1 = Some sim_manifest" "\<not> lost w1" "\<not> moving w1" "wk_project w1 = ''libespidf''"
    by (rule sim_check_run)
  let ?w = "set_shared (\<lambda>sh. sh\<lparr>sh_moving := True\<rparr>) (w1\<lparr>wk_cfg := sim_config\<rparr>)"
  have "\<not> lost ?w" "wk_cfg ?w = sim_config" "wk_project ?w = ''libespidf''"
    using w1(3,5) by (simp_all add: lost_def set_shared_def)
  from sim_install [OF this] obtain w2 where "install_image sim_server sim_manifest ?w = (True, w2)"
    by (metis prod.collapse)
  from through_run [OF through_image [OF this]] obtain us
    where us: "thread_run sim_server us (Begins (ForInstall sim_manifest)) ?w = (Restart, Restarts, w2)"
    by (auto simp: answered_def)
  have "thread_run sim_server ([Takes ReqInstall, GoesOn, MainSettings sim_config, MainMoving True] @ us) AtRest w1
      = (Restart, Restarts, w2)"
    using us w1(2,4) by (simp add: begin_request_def install_step_def)
  with w1(1) show ?thesis
    using that [of "vs @ [Takes ReqInstall, GoesOn, MainSettings sim_config, MainMoving True] @ us" w2]
    by (simp add: thread_run_append)
qed

lemma thread_run_stops:
  assumes "thread_run pf vs st0 w0 = (f, st', w')" "f \<noteq> Continue"
  shows "\<exists>us v us' st w. vs = us @ v # us' \<and> thread_run pf us st0 w0 = (Continue, st, w)
    \<and> thread_step pf v st w = (f, st', w')"
  using assms
proof (induction vs rule: rev_induct)
  case (snoc v vs)
  from snoc.prems(1) show ?case
  proof (cases rule: thread_run_snoc)
    case 1
    with snoc.IH obtain us x us' st w where "vs = us @ x # us'" "thread_run pf us st0 w0 = (Continue, st, w)"
      "thread_step pf x st w = (f, st', w')" by blast
    then show ?thesis by (intro exI [of _ us] exI [of _ x] exI [of _ "us' @ [v]"]) auto
  next
    case (2 st w)
    then show ?thesis by blast
  qed
qed simp

section \<open>Properties\<close>

text \<open>
  The two renderings of the handlers agree: a request whose stages are run through with nothing in
  between does what its handler does from beginning to end, a restart of the chip included.
\<close>

lemma stages_meet_handlers:
  "\<exists>n. thread_run pf (Takes q # replicate n GoesOn) AtRest w
    = (case on_request pf q w of (f, w') \<Rightarrow> (f, if f = Restart then Restarts else AtRest, w'))"
proof -
  have "fst (begin_request pf q w) = Continue" by (cases q) (simp_all add: begin_request_def begin_check_def)
  then obtain st w0 where b: "begin_request pf q w = (Continue, st, w0)" by (cases "begin_request pf q w") auto
  from through_request [OF this] obtain n
    where "thread_run pf (replicate n GoesOn) st w0 = flow_end (on_request pf q w)" by (auto simp: goes_through_def)
  then show ?thesis using b by (intro exI [of _ n]) (simp add: flow_end_def)
qed

text \<open>
  C7. The safety chain of updates, over everything that can happen since start-up, between any two stages
  of the worker: a step switches the boot slot only at the end of an install that looked at
  the moving flag, found it clear, and has been under way ever since; its manifest passed every
  check of the parser and is newer than the running version with its minimum met; and all that
  was flashed since is one begin, the chunks of the manifest's image (right size, right SHA-256, right
  descriptor), the end and the switch. The chip restarts only after a switch.
\<close>

theorem boot_slot_needs_whole_chain:
  assumes "thread_run pf vs AtRest (spawn pf e url version project cfg running invalid) = (Continue, st, w)"
    and "thread_step pf v st w = (f, st', w')"
  shows "\<exists>new. calls w' = calls w @ new
    \<and> (OtaSetBoot \<in> set new \<longrightarrow> (\<exists>json m c cs. manifest_parse (pf_from_str pf) json = Inr m
         \<and> decide version m = Install
         \<and> under_way pf (spawn pf e url version project cfg running invalid) vs m c
         \<and> calls w' = c @ OtaBegin # map OtaWrite cs @ [OtaEnd, OtaSetBoot]
         \<and> good_image pf m project (concat cs)))
    \<and> (f = Restart \<longrightarrow> OtaSetBoot \<in> set (calls w'))"
proof -
  have "thread_ok pf version project st w"
    "progress_ok pf (spawn pf e url version project cfg running invalid) vs st w"
    using thread_run_ok [OF assms(1) spawn_thread_ok] by simp_all
  from step_progress [OF assms this] show ?thesis unfolding vetted_def trace_calls.simps by blast
qed

theorem boot_slot_needs_whole_chain_witness:
  "\<exists>vs w. thread_run sim_server vs AtRest sim_worker = (Restart, Restarts, w)
    \<and> MainMoving True \<in> set vs \<and> OtaSetBoot \<in> set (calls w)"
proof -
  obtain vs w where r: "thread_run sim_server vs AtRest sim_worker = (Restart, Restarts, w)" "MainMoving True \<in> set vs"
    by (rule sim_run)
  from thread_run_stops [OF r(1)] obtain us v st w1 where "thread_run sim_server us AtRest sim_worker = (Continue, st, w1)"
    "thread_step sim_server v st w1 = (Restart, Restarts, w)" by blast
  then have "OtaSetBoot \<in> set (calls w)"
    using boot_slot_needs_whole_chain [of sim_server us, folded sim_worker_def] unfolding sim_worker_def by blast
  with r show ?thesis by blast
qed

text \<open>
  C25. The worker never leaves a busy status behind. Whatever has happened since start-up, the main loop
  sees the status of the stage the worker is in, which is not busy when it is at rest; and as
  long as the worker keeps going on, whatever happens in between, it comes to rest with a status
  that is not busy, or the chip restarts. So the main loop's pause for a download always ends.
\<close>

theorem status_never_stuck_busy:
  assumes "thread_run pf vs AtRest (spawn pf e url version project cfg running invalid) = (Continue, st, w)"
    and "\<And>n. \<exists>k \<ge> n. ev k = GoesOn"
  shows "expected st (status w) \<and> (\<exists>k f st' w'. thread_run pf (map ev [0..<k]) st w = (f, st', w')
    \<and> (f \<noteq> Continue \<or> st' = AtRest \<and> \<not> is_busy (o_state (status w'))))"
proof -
  obtain k where k: "ended (thread_run pf (map ev [0..<0 + k]) st w)" using ends_under_schedule [OF assms(2)] by blast
  obtain f st' w' where r: "thread_run pf (map ev [0..<k]) st w = (f, st', w')"
    by (cases "thread_run pf (map ev [0..<k]) st w") auto
  then have "thread_run pf (vs @ map ev [0..<k]) AtRest (spawn pf e url version project cfg running invalid) = (f, st', w')"
    using assms(1) by (simp add: thread_run_append)
  from thread_run_ok [OF this spawn_thread_ok] have "expected st' (status w')" by (simp add: thread_ok_def)
  then have "f \<noteq> Continue \<or> st' = AtRest \<and> \<not> is_busy (o_state (status w'))" using k r by (auto simp: ended_def)
  moreover have "expected st (status w)"
    using thread_run_ok [OF assms(1) spawn_thread_ok] by (simp add: thread_ok_def)
  ultimately show ?thesis using r by blast
qed

theorem status_never_stuck_busy_witness:
  "\<exists>st w f k st' w'. thread_run sim_server [Takes ReqTestWifi, Takes ReqInstall, MainSeen] AtRest sim_worker = (Continue, st, w)
    \<and> thread_run sim_server (map (\<lambda>_. GoesOn) [0..<k]) st w = (f, st', w')
    \<and> (f \<noteq> Continue \<or> st' = AtRest \<and> \<not> is_busy (o_state (status w')))"
proof -
  obtain st w where r: "thread_run sim_server [Takes ReqTestWifi, Takes ReqInstall, MainSeen] AtRest sim_worker = (Continue, st, w)"
    by (simp add: begin_request_def)
  from status_never_stuck_busy [OF r [unfolded sim_worker_def], of "\<lambda>_. GoesOn"] r show ?thesis by blast
qed

text \<open>
  C27. The radio token has one owner: at every moment since start-up the worker never holds both
  the token and a driver, and is up only with a driver. It holds neither exactly when some step of
  this run went on to make the driver, with the token and without a driver, and creating it
  succeeded but wrapping what came of it failed, so that the token was consumed in vain. Then
  the token is gone for good: no later event brings it back and no connection ever succeeds again.
\<close>

theorem radio_token_single_owner:
  assumes "thread_run pf vs AtRest w0 = (f, st, w)"
    and "w0 = spawn pf e url version project cfg running invalid"
  shows "\<not> (wk_modem w \<and> wk_wifi w) \<and> (wk_wifi_up w \<longrightarrow> wk_wifi w)
    \<and> (\<not> wk_modem w \<and> \<not> wk_wifi w \<longleftrightarrow>
        (\<exists>us us' p ssid psk w1 e1 t e2. vs = us @ GoesOn # us'
          \<and> thread_run pf us AtRest w0 = (Continue, Links p ssid psk, w1) \<and> wk_modem w1 \<and> \<not> wk_wifi w1
          \<and> pf_wifi_new pf (sv_env (wk_sv w1)) = (Inr (), e1) \<and> pf_wifi_wrap pf e1 = (Inl t, e2)))
    \<and> (\<not> wk_modem w \<and> \<not> wk_wifi w \<longrightarrow>
        (\<forall>vs' f' st' w'. thread_run pf vs' st w = (f', st', w') \<longrightarrow>
          \<not> wk_modem w' \<and> \<not> wk_wifi w' \<and> \<not> fst (wifi_connect pf w')))"
proof -
  have "one_owner w0" "\<not> lost w0" unfolding assms(2) by (simp_all add: spawn_def one_owner_def lost_def)
  then have w: "one_owner w" "lost w \<longleftrightarrow> (\<exists>us v us' st w. vs = us @ v # us'
      \<and> thread_run pf us AtRest w0 = (Continue, st, w) \<and> loses_at pf v st w)"
    using keeps_run [OF _ assms(1)] by simp_all
  have "lost w' \<and> \<not> fst (wifi_connect pf w')" if "lost w" "thread_run pf vs' st w = (f', st', w')" for vs' f' st' w'
  proof -
    have l: "one_owner w'" "lost w'" using keeps_run [OF w(1) that(2)] that(1) by simp_all
    then show ?thesis using lost_never_links [OF l, of pf] by (cases "wifi_connect pf w'") simp
  qed
  moreover have "lost w \<longleftrightarrow> (\<exists>us us' p ssid psk w1 e1 t e2. vs = us @ GoesOn # us'
      \<and> thread_run pf us AtRest w0 = (Continue, Links p ssid psk, w1) \<and> wk_modem w1 \<and> \<not> wk_wifi w1
      \<and> pf_wifi_new pf (sv_env (wk_sv w1)) = (Inr (), e1) \<and> pf_wifi_wrap pf e1 = (Inl t, e2))"
    unfolding w(2) by (auto simp: loses_at_def loses_def) blast
  ultimately show ?thesis using w(1) unfolding one_owner_def lost_def by blast
qed

text \<open>A driver that cannot be wrapped: one WiFi test, and the radio is gone.\<close>

definition sim_lossy :: "u8 list platform" where
  "sim_lossy = sim_server\<lparr>pf_wifi_wrap := \<lambda>e. (Inl ''no memory'', e)\<rparr>"

theorem radio_token_single_owner_witness:
  "\<exists>w. thread_run sim_lossy [Takes ReqTestWifi, GoesOn, GoesOn] AtRest
      (spawn sim_lossy [] ''https://x/m.json'' ''1.0.0'' ''libespidf'' sim_config (Some (''ota_0'', False)) None)
      = (Continue, Linked ForTest False, w)
    \<and> \<not> wk_modem w \<and> \<not> wk_wifi w \<and> \<not> fst (wifi_connect sim_lossy w)"
proof -
  let ?w = "spawn sim_lossy [] ''https://x/m.json'' ''1.0.0'' ''libespidf'' sim_config (Some (''ota_0'', False)) None"
  obtain w where r: "thread_run sim_lossy [Takes ReqTestWifi, GoesOn, GoesOn] AtRest ?w = (Continue, Linked ForTest False, w)"
    "\<not> wk_modem w" "\<not> wk_wifi w"
    by (simp add: begin_request_def link_start_def already_connected_def spawn_def sim_config_def set_wifi_status_def
        set_shared_def link_finish_def wifi_driver_def wk_io_def with_env_def then_do_def sim_lossy_def sim_defs Let_def)
  have "\<not> fst (wifi_connect sim_lossy w)"
    using radio_token_single_owner [OF r(1) refl] r(2,3) thread_run.simps(1) by blast
  with r show ?thesis by blast
qed

end
