(* ===== verification/Firmware.thy ===== *)
theory Firmware
  imports Main_Watch Ota_Thread
begin

text \<open>
  The whole firmware: the main loop with its BLE server, the update worker's thread, and everything
  around them, interleaved. An iteration, a stage of the worker, an event of the Bluetooth
  stack, and moves of the board and of the worker's world come in any order. The shared
  status, the settings and the request channel are one for both sides, so an iteration sees the
  worker in the middle of a check or a download.
\<close>

section \<open>The system\<close>

text \<open>\<open>fw_over\<close>: the chip restarts, or the main loop is stuck; nothing happens any more.\<close>

record ('s, 'n, 'c, 'b, 'e) firmware =
  fw_app :: "('s, 'n, 'c, 'b) app"
  fw_worker :: "'e worker"
  fw_stage :: "'e stage"
  fw_over :: bool

datatype ('s, 'b, 'e) fw_event = Iterates | Works | PhoneGap gap_event | PhoneGatts nat gatts_event
  | RadioMoves 'b | BoardMovesOn 's | WorldMovesOn 'e

text \<open>The main loop's side as the worker sees it: the shared status and the settings.\<close>

definition put_app :: "('s, 'n, 'c, 'b) app \<Rightarrow> ('s, 'n, 'c, 'b, 'e) firmware \<Rightarrow> ('s, 'n, 'c, 'b, 'e) firmware" where
  "put_app a f = f\<lparr>fw_app := a, fw_worker := (fw_worker f)
     \<lparr>wk_sv := (case ap_ota a of Some lk \<Rightarrow> (wk_sv (fw_worker f))\<lparr>sv_shared := lk_shared lk\<rparr>
        | None \<Rightarrow> wk_sv (fw_worker f)), wk_cfg := cs_cfg (ap_config a)\<rparr>\<rparr>"

text \<open>At rest the worker takes the oldest request, or waits its five seconds in vain; else it goes on.\<close>

definition worker_takes :: "ota_request list \<Rightarrow> 'e thread_event" where
  "worker_takes q = (case q of [] \<Rightarrow> Waits | r # _ \<Rightarrow> Takes r)"

definition worker_does :: "'e stage \<Rightarrow> ota_request list \<Rightarrow> 'e thread_event \<times> ota_request list" where
  "worker_does st q = (case st of AtRest \<Rightarrow> (worker_takes q, drop 1 q) | _ \<Rightarrow> (GoesOn, q))"

definition worker_turn ::
  "'e platform \<Rightarrow> ('s, 'n, 'c, 'b, 'e) firmware \<Rightarrow> ('s, 'n, 'c, 'b, 'e) firmware" where
  "worker_turn pf f =
     (case ap_ota (fw_app f) of
        None \<Rightarrow> f
      | Some lk \<Rightarrow>
          (case worker_does (fw_stage f) (lk_queue lk) of
             (v, q) \<Rightarrow>
               (case thread_step pf v (fw_stage f) (fw_worker f) of
                  (fl, st, w) \<Rightarrow> f\<lparr>fw_app := (fw_app f)\<lparr>ap_ota := Some \<lparr>lk_queue = q,
                     lk_shared = sv_shared (wk_sv w)\<rparr>\<rparr>, fw_worker := w, fw_stage := st, fw_over := fl \<noteq> Continue\<rparr>)))"

definition phone ::
  "'b bt_stack \<Rightarrow> 'b server_event \<Rightarrow> ('s, 'n, 'c, 'b, 'e) firmware \<Rightarrow> ('s, 'n, 'c, 'b, 'e) firmware" where
  "phone bt v f = f\<lparr>fw_app := (fw_app f)\<lparr>ap_ble := map_option (\<lambda>b. server_step bt b v) (ap_ble (fw_app f))\<rparr>\<rparr>"

fun fw_step ::
  "('s, 'n, 'c, 'b) hardware \<Rightarrow> 'e platform \<Rightarrow> ('s, 'n, 'c, 'b, 'e) firmware \<Rightarrow> ('s, 'b, 'e) fw_event
    \<Rightarrow> ('s, 'n, 'c, 'b, 'e) firmware" where
  "fw_step hw pf f v =
     (if fw_over f then f
      else case v of
        Iterates \<Rightarrow>
          (case loop_body hw (fw_app f) of
             Stuck \<Rightarrow> f\<lparr>fw_over := True\<rparr>
           | Rebooted a \<Rightarrow> (put_app a f)\<lparr>fw_over := True\<rparr>
           | Again a \<Rightarrow> put_app a f
           | Go a \<Rightarrow> put_app a f)
      | Works \<Rightarrow> worker_turn pf f
      | PhoneGap ev \<Rightarrow> phone (hw_bt hw) (Gap ev) f
      | PhoneGatts gi ev \<Rightarrow> phone (hw_bt hw) (Gatts gi ev) f
      | RadioMoves b \<Rightarrow> phone (hw_bt hw) (StackMoves b) f
      | BoardMovesOn s \<Rightarrow> f\<lparr>fw_app := set_io s (fw_app f)\<rparr>
      | WorldMovesOn e \<Rightarrow> f\<lparr>fw_worker := wk_env (\<lambda>_. e) (fw_worker f)\<rparr>)"

text \<open>
  Start-up: the settings are read, the worker is spawned with them, and the loop's state is set up.
  The worker is there only in a build without the dashboard.
\<close>

definition fw_spawn ::
  "('s, 'n, 'c, 'b) hardware \<Rightarrow> 'e platform \<Rightarrow> 'e \<Rightarrow> string \<Rightarrow> 'c \<Rightarrow> (string \<times> bool) option \<Rightarrow> string option \<Rightarrow> 'e worker" where
  "fw_spawn hw pf e project c running invalid = spawn pf e (hw_manifest_url hw) (hw_fw_version hw) project
     (cs_cfg (cfg_open (hw_cfg hw) c DEFAULT_BOOT_POLICY)) running invalid"

definition fw_init ::
  "('s, 'n, 'c, 'b) hardware \<Rightarrow> 's \<Rightarrow> 'n \<Rightarrow> u32 \<Rightarrow> 'c \<Rightarrow> 'b server option
    \<Rightarrow> 'e worker \<Rightarrow> ('s, 'n, 'c, 'b, 'e) firmware option" where
  "fw_init hw s n reason c ble w =
     (case app_init hw s n reason c ble (Some \<lparr>lk_queue = [], lk_shared = sv_shared (wk_sv w)\<rparr>) None of
        Go a \<Rightarrow> Some \<lparr>fw_app = a, fw_worker = w, fw_stage = AtRest, fw_over = False\<rparr>
      | _ \<Rightarrow> None)"

lemma init_app:
  assumes "app_init hw s n reason c ble ota web = Go a"
  shows "ap_ota a = ota \<and> ap_ble a = ble \<and> ap_config a = cfg_open (hw_cfg hw) c DEFAULT_BOOT_POLICY
    \<and> k_io (ap_kds a) = s \<and> ap_boot a = int (now (hw_uart hw) s)"
  using assms by (auto simp: app_init_def derive_and_install_def kds_new_def Let_def split: option.splits)

lemma fw_init_fields:
  assumes "fw_init hw s n reason c ble w = Some f"
  shows "fw_worker f = w \<and> fw_stage f = AtRest \<and> \<not> fw_over f \<and> ap_ota (fw_app f) = Some \<lparr>lk_queue = [], lk_shared = sv_shared (wk_sv w)\<rparr>
    \<and> ap_ble (fw_app f) = ble \<and> ap_config (fw_app f) = cfg_open (hw_cfg hw) c DEFAULT_BOOT_POLICY
    \<and> elapsed hw (ap_boot (fw_app f)) (fw_app f) = 0"
  using assms by (auto simp: fw_init_def elapsed_def clock_def dest!: init_app split: ctl.splits)

section \<open>Well-formed states\<close>

text \<open>
  The main loop's side is well formed from start-up on, whatever comes: an iteration that hangs ends
  the run, and what the worker reports cannot break it.
\<close>

lemma starts_ok:
  assumes "fw_init hw s n reason c ble w = Some f" "pred_option server_ok ble"
  shows "app_ok (fw_app f)"
proof -
  let ?q = "app_init hw s n reason c ble (Some \<lparr>lk_queue = [], lk_shared = sv_shared (wk_sv w)\<rparr>) None"
  have "lands app_ok ?q" using assms(2) by (intro init_ok) (simp_all add: link_ok_def)
  then show ?thesis using assms(1) by (cases ?q) (auto simp: fw_init_def)
qed

lemma turn_ok: "app_ok (fw_app f) \<Longrightarrow> app_ok (fw_app (worker_turn pf f))"
proof (cases "ap_ota (fw_app f)")
  case (Some lk)
  assume a: "app_ok (fw_app f)"
  have "length (snd (worker_does (fw_stage f) (lk_queue lk))) \<le> length (lk_queue lk)"
    by (simp add: worker_does_def split: stage.split)
  then show ?thesis using a Some by (auto simp: worker_turn_def app_ok_def link_ok_def split: prod.split)
qed (simp add: worker_turn_def)

lemma phone_ok: "app_ok (fw_app f) \<Longrightarrow> app_ok (fw_app (phone bt v f))"
  by (cases "ap_ble (fw_app f)") (simp_all add: phone_def app_ok_def server_step_ok)

lemma step_app_ok:
  assumes "drains (hw_uart hw) left" "app_ok (fw_app f)"
  shows "app_ok (fw_app (fw_step hw pf f v))"
proof (cases "fw_over f")
  case False
  show ?thesis
  proof (cases v)
    case Iterates
    have "lands app_ok (loop_body hw (fw_app f)) \<or> loop_body hw (fw_app f) = Stuck"
      using loop_body_ok [OF assms] hang_stuck by blast
    then show ?thesis using assms(2) False Iterates by (cases "loop_body hw (fw_app f)") (simp_all add: put_app_def)
  qed (use assms(2) False in \<open>simp_all add: phone_ok turn_ok\<close>)
qed (use assms in simp)

lemma run_app_ok:
  "drains (hw_uart hw) left \<Longrightarrow> app_ok (fw_app f) \<Longrightarrow> app_ok (fw_app (run (fw_step hw pf) f vs))"
  by (induction vs arbitrary: f) (simp_all del: fw_step.simps add: step_app_ok)

section \<open>The worker's part of a run\<close>

text \<open>What an iteration does to the shared status and the settings is a run of the main loop's events.\<close>

lemma nudged_run:
  assumes "nudged (sv_shared (wk_sv w)) sh"
  shows "\<exists>us. thread_run pf us st w = (Continue, st, w\<lparr>wk_sv := (wk_sv w)\<lparr>sv_shared := sh\<rparr>, wk_cfg := c\<rparr>)"
proof -
  let ?old = "sv_shared (wk_sv w)"
  let ?us = "(if sh_wifi sh = sh_wifi ?old \<and> (sh_changed sh \<longrightarrow> sh_changed ?old) then [] else [MainForgetWifi])
    @ (if sh_changed sh then [] else [MainSeen]) @ [MainMoving (sh_moving sh), MainSettings c]"
  have "thread_run pf ?us st w = (Continue, st, w\<lparr>wk_sv := (wk_sv w)\<lparr>sv_shared := sh\<rparr>, wk_cfg := c\<rparr>)"
    using assms by (cases w; cases "wk_sv w"; cases ?old; cases sh)
      (auto simp: nudged_def set_shared_def upd_wifi_def)
  then show ?thesis ..
qed

definition synced :: "('s, 'n, 'c, 'b, 'e) firmware \<Rightarrow> bool" where
  "synced f \<longleftrightarrow> (\<exists>lk. ap_ota (fw_app f) = Some lk \<and> lk_shared lk = sv_shared (wk_sv (fw_worker f)))
     \<and> wk_cfg (fw_worker f) = cs_cfg (ap_config (fw_app f))"

definition worked :: "'e platform \<Rightarrow> 'e worker \<Rightarrow> ('s, 'n, 'c, 'b, 'e) firmware \<Rightarrow> bool" where
  "worked pf w0 f \<longleftrightarrow> (\<exists>us fl. thread_run pf us AtRest w0 = (fl, fw_stage f, fw_worker f) \<and> fl \<noteq> Exit \<and> (fl \<noteq> Continue \<longrightarrow> fw_over f))"

lemma fw_init_worked:
  assumes "fw_init hw s n reason c ble (fw_spawn hw pf e project c running invalid) = Some f"
  shows "synced f \<and> worked pf (fw_spawn hw pf e project c running invalid) f"
proof -
  note i = fw_init_fields [OF assms]
  then have "synced f" by (auto simp: synced_def fw_spawn_def spawn_def)
  moreover have "thread_run pf [] AtRest (fw_spawn hw pf e project c running invalid) = (Continue, fw_stage f, fw_worker f)"
    using i by simp
  then have "worked pf (fw_spawn hw pf e project c running invalid) f"
    unfolding worked_def by (intro exI conjI) (assumption, simp_all)
  ultimately show ?thesis ..
qed

lemma stage_never_exits: "stage_step pf st w = (f, st', w') \<Longrightarrow> f \<noteq> Exit"
  by (cases st) (auto simp: after_link_defs fetch_step_def install_step_def open_step_def stream_step_def
      activate_step_def give_up_def split: prod.splits sum.splits purpose.splits option.splits list.splits if_splits)

lemma does_cases:
  obtains "st = AtRest" "worker_does st q = (worker_takes q, drop 1 q)"
  | "st \<noteq> AtRest" "worker_does st q = (GoesOn, q)"
  by (cases st) (simp_all add: worker_does_def)

lemma turn_never_exits:
  assumes "worker_does st q = (v, q')" "thread_step pf v st w = (f, st', w')"
  shows "f \<noteq> Exit"
proof (cases rule: does_cases [of st q])
  case 1
  have "fst (begin_request pf r w) \<noteq> Exit" for r
    by (cases r) (simp_all add: begin_request_def begin_check_def)
  then show ?thesis using assms 1 by (cases q) (auto simp: worker_takes_def dest: arg_cong [of _ _ fst])
next
  case 2
  then show ?thesis using assms stage_never_exits [of pf st w f st' w'] by auto
qed

lemma turn_kind: "worker_does st q = (v, q') \<Longrightarrow> (\<exists>r. v = Takes r) \<or> v = Waits \<or> v = GoesOn"
  by (cases st; cases q) (auto simp: worker_does_def worker_takes_def)

lemma turn_settings:
  assumes "worker_does st q = (v, q')" "thread_step pf v st w = (f, st', w')"
  shows "wk_cfg w' = wk_cfg w"
proof (cases "v = Takes ReqMarkValid")
  case True
  have "wk_cfg (mark_valid pf w) = wk_cfg w"
    by (auto simp: mark_valid_def wk_io_def set_shared_def split: prod.split sum.split)
  then show ?thesis using True assms by (auto simp: begin_request_def split: stage.splits)
next
  case False
  then show ?thesis using settings_kept.turn [OF assms(2)] turn_kind [OF assms(1)] by blast
qed

lemma worked_more:
  assumes "worked pf w0 f" "\<not> fw_over f" "thread_run pf us (fw_stage f) (fw_worker f) = (fl, fw_stage f', fw_worker f')"
    "fl \<noteq> Exit" "fl \<noteq> Continue \<longrightarrow> fw_over f'"
  shows "worked pf w0 f'"
proof -
  obtain us0 where "thread_run pf us0 AtRest w0 = (Continue, fw_stage f, fw_worker f)"
    using assms(1,2) by (auto simp: worked_def)
  then have "thread_run pf (us0 @ us) AtRest w0 = (fl, fw_stage f', fw_worker f')"
    using assms(3) by (simp add: thread_run_append)
  then show ?thesis using assms(4,5) unfolding worked_def by blast
qed

lemma put_app_stage [simp]: "fw_stage (put_app a f) = fw_stage f"
  by (simp add: put_app_def)

lemma put_app_worker:
  assumes "synced f" "nudges (fw_app f) a"
  obtains us where "thread_run pf us (fw_stage f) (fw_worker f) = (Continue, fw_stage f, fw_worker (put_app a f))"
    "synced (put_app a f)"
proof -
  let ?w = "fw_worker f"
  obtain lk where lk: "ap_ota (fw_app f) = Some lk" "lk_shared lk = sv_shared (wk_sv ?w)"
    using assms(1) by (auto simp: synced_def)
  with assms(2) obtain lk' where lk': "ap_ota a = Some lk'" "nudged (sv_shared (wk_sv ?w)) (lk_shared lk')"
    by (cases "ap_ota a") (auto simp: nudges_def)
  from nudged_run [OF lk'(2), of pf "fw_stage f" "cs_cfg (ap_config a)"] obtain us
    where "thread_run pf us (fw_stage f) ?w = (Continue, fw_stage f, fw_worker (put_app a f))"
    by (auto simp: put_app_def lk'(1))
  moreover have "synced (put_app a f)" using lk'(1) by (simp add: synced_def put_app_def)
  ultimately show ?thesis by (rule that)
qed

text \<open>Where a step leads, by its kind.\<close>

lemma fw_iterates:
  assumes "\<not> fw_over f"
  obtains "fw_step hw pf f Iterates = f\<lparr>fw_over := True\<rparr>"
  | a b where "ends_in (loop_body hw (fw_app f)) a" "fw_step hw pf f Iterates = (put_app a f)\<lparr>fw_over := b\<rparr>"
proof (cases "loop_body hw (fw_app f)")
  case (Go a)
  have "put_app a f = (put_app a f)\<lparr>fw_over := False\<rparr>" using assms by (simp add: put_app_def)
  then show ?thesis using that(2) [of a False] assms Go by (simp add: ends_in_def)
next
  case (Again a)
  have "put_app a f = (put_app a f)\<lparr>fw_over := False\<rparr>" using assms by (simp add: put_app_def)
  then show ?thesis using that(2) [of a False] assms Again by (simp add: ends_in_def)
qed (use that assms in \<open>auto simp: ends_in_def\<close>)

lemma step_worked:
  assumes "synced f" "worked pf w0 f"
  shows "synced (fw_step hw pf f v) \<and> worked pf w0 (fw_step hw pf f v)"
proof (cases "fw_over f")
  case False
  show ?thesis
  proof (cases v)
    case Iterates
    from False show ?thesis
    proof (cases rule: fw_iterates [where hw = hw and pf = pf])
      case 1
      then show ?thesis using assms Iterates unfolding worked_def by (auto simp: synced_def)
    next
      case (2 a b)
      have "nudges (fw_app f) a" using nudging.loop.iteration 2(1) by (rule guar_ends)
      from put_app_worker [OF assms(1) this] obtain us
        where u: "thread_run pf us (fw_stage f) (fw_worker f) = (Continue, fw_stage f, fw_worker (put_app a f))"
          "synced (put_app a f)" .
      then have "worked pf w0 ((put_app a f)\<lparr>fw_over := b\<rparr>)"
        using worked_more [OF assms(2) False, of us Continue "(put_app a f)\<lparr>fw_over := b\<rparr>"] by simp
      then show ?thesis using u(2) Iterates 2(2) by (simp add: synced_def)
    qed
  next
    case Works
    obtain lk where lk: "ap_ota (fw_app f) = Some lk" using assms(1) by (auto simp: synced_def)
    obtain v q where v: "worker_does (fw_stage f) (lk_queue lk) = (v, q)" by fastforce
    obtain fl st w where s: "thread_step pf v (fw_stage f) (fw_worker f) = (fl, st, w)"
      by (cases "thread_step pf v (fw_stage f) (fw_worker f)") auto
    have "thread_run pf [v] (fw_stage f) (fw_worker f) = (fl, st, w)" by (cases fl) (simp_all add: s)
    then show ?thesis
      using worked_more [OF assms(2) False, of "[v]" fl "worker_turn pf f"] assms(1) False
        turn_never_exits [OF v s] turn_settings [OF v s]
      by (simp add: Works worker_turn_def lk v s synced_def)
  next
    case (WorldMovesOn e)
    then show ?thesis
      using worked_more [OF assms(2) False, of "[WorldMoves e]" Continue "fw_step hw pf f v"] assms(1) False
      by (simp add: synced_def wk_env_def)
  qed (use assms False in \<open>auto simp: synced_def worked_def phone_def set_io_def\<close>)
qed (use assms in simp)

lemma run_worked:
  "synced f \<Longrightarrow> worked pf w0 f \<Longrightarrow> synced (run (fw_step hw pf) f vs) \<and> worked pf w0 (run (fw_step hw pf) f vs)"
  by (induction vs arbitrary: f) (simp_all del: fw_step.simps add: step_worked)

section \<open>What an iteration sees of the worker\<close>

text \<open>
  A state as start-up leaves it and every step keeps it: both sides agree, the main loop's copy of the
  status is current or marked as outdated, and the thread's status is that of its stage.
\<close>

definition attentive :: "'e platform \<Rightarrow> string \<Rightarrow> string \<Rightarrow> ('s, 'n, 'c, 'b, 'e) firmware \<Rightarrow> bool" where
  "attentive pf version project f \<longleftrightarrow> synced f \<and> mirrored (fw_app f)
     \<and> thread_ok pf version project (fw_stage f) (fw_worker f)"

lemma starts_attentive:
  assumes "fw_init hw s n reason c ble (fw_spawn hw pf e project c running invalid) = Some f"
  shows "attentive pf (hw_fw_version hw) project f"
  using fw_init_fields [OF assms] fw_init_worked [OF assms]
    spawn_thread_ok [of pf "hw_fw_version hw" project e "hw_manifest_url hw"]
  by (auto simp: attentive_def mirrored_def fw_spawn_def) (simp add: spawn_def spawn_shared_def)

lemma turn_attentive:
  assumes "attentive pf version project f" "\<not> fw_over f"
  shows "attentive pf version project (worker_turn pf f)"
proof -
  obtain lk where lk: "ap_ota (fw_app f) = Some lk" "lk_shared lk = shared (fw_worker f)"
    using assms(1) by (auto simp: attentive_def synced_def)
  obtain v q where v: "worker_does (fw_stage f) (lk_queue lk) = (v, q)" by fastforce
  obtain fl st w where s: "thread_step pf v (fw_stage f) (fw_worker f) = (fl, st, w)"
    by (cases "thread_step pf v (fw_stage f) (fw_worker f)") auto
  have "told (shared (fw_worker f)) (shared w)" using told_step [OF s] turn_kind [OF v] by blast
  then have "sh_changed (shared w) \<or> ap_ota_status (fw_app f) = status w"
    using assms(1) lk by (auto simp: told_def attentive_def mirrored_def)
  moreover have "thread_ok pf version project st w"
  proof (cases "v = GoesOn")
    case True
    then show ?thesis using s assms(1) stage_ok [of pf version project "fw_stage f" "fw_worker f" fl st w]
      by (simp add: attentive_def)
  next
    case False
    then show ?thesis using s assms(1) event_ok [OF _ s False] by (simp add: attentive_def)
  qed
  ultimately show ?thesis using assms(1) turn_settings [OF v s]
    by (simp add: attentive_def synced_def mirrored_def worker_turn_def lk v s)
qed

lemma put_attentive:
  assumes "attentive pf version project f" "nudges (fw_app f) a" "keeps_watch (fw_app f) a"
  shows "attentive pf version project (put_app a f)"
proof -
  have f: "synced f" "mirrored a" using assms by (auto simp: attentive_def keeps_watch_def)
  from put_app_worker [OF f(1) assms(2)] have "synced (put_app a f)" by blast
  moreover have "mirrored (fw_app (put_app a f))" using f(2) by (simp add: put_app_def)
  moreover obtain lk lk' where lk: "ap_ota (fw_app f) = Some lk" "lk_shared lk = shared (fw_worker f)"
    "ap_ota a = Some lk'" "nudged (shared (fw_worker f)) (lk_shared lk')"
    using f(1) assms(2) by (cases "ap_ota a") (auto simp: synced_def nudges_def)
  then have "thread_ok pf version project (fw_stage f) (fw_worker (put_app a f))"
    using assms(1) by (simp add: attentive_def thread_ok_def put_app_def nudged_def)
  ultimately show ?thesis by (simp add: attentive_def)
qed

lemma step_attentive:
  assumes "attentive pf version project f"
  shows "attentive pf version project (fw_step hw pf f v)"
proof (cases "fw_over f")
  case False
  show ?thesis
  proof (cases v)
    case Iterates
    from False show ?thesis
    proof (cases rule: fw_iterates [where hw = hw and pf = pf])
      case 1
      then show ?thesis using assms Iterates by (simp add: attentive_def synced_def)
    next
      case (2 a b)
      have "nudges (fw_app f) a" "keeps_watch (fw_app f) a"
        using guar_ends [OF nudging.loop.iteration 2(1)] guar_ends [OF watching.iteration 2(1)] .
      from put_attentive [OF assms this] show ?thesis
        using Iterates 2(2) by (simp add: attentive_def synced_def)
    qed
  next
    case Works
    then show ?thesis using turn_attentive [OF assms False] False by simp
  next
    case (WorldMovesOn e)
    then show ?thesis using assms False by (simp add: attentive_def synced_def wk_env_def thread_ok_def)
  next
    case (BoardMovesOn s)
    then show ?thesis using assms False by (simp add: attentive_def synced_def set_io_def mirrored_def)
  qed (use assms False in \<open>auto simp: attentive_def synced_def phone_def mirrored_def\<close>)
qed (use assms in simp)

lemma run_attentive:
  "attentive pf version project f \<Longrightarrow> attentive pf version project (run (fw_step hw pf) f vs)"
  by (induction vs arbitrary: f) (simp_all del: fw_step.simps add: step_attentive)

text \<open>The stages in which an image is asked for, written, activated or about to be started.\<close>

definition writes_image :: "'e stage \<Rightarrow> bool" where
  "writes_image st \<longleftrightarrow> (case st of Opens _ \<Rightarrow> True | Streams _ _ \<Rightarrow> True | Activates _ \<Rightarrow> True | Restarts \<Rightarrow> True | _ \<Rightarrow> False)"

lemma seen_writing:
  assumes "attentive pf version project f" "writes_image (fw_stage f)"
  shows "status_seen (fw_app f) = status (fw_worker f)" "writing (o_state (status_seen (fw_app f)))"
proof -
  obtain lk where "ap_ota (fw_app f) = Some lk" "lk_shared lk = shared (fw_worker f)"
    using assms(1) by (auto simp: attentive_def synced_def)
  then show s: "status_seen (fw_app f) = status (fw_worker f)"
    using assms(1) mirrored_sees [of "fw_app f" lk] by (simp add: attentive_def)
  have "expected (fw_stage f) (status (fw_worker f))" using assms(1) by (simp add: attentive_def thread_ok_def)
  then show "writing (o_state (status_seen (fw_app f)))"
    using assms(2) unfolding s by (cases "fw_stage f") (auto simp: writes_image_def writing_def)
qed

section \<open>What it takes to be asked for an install\<close>

lemma quiet_phone:
  assumes "quiet (fw_app f)" "v \<noteq> TakeCommand"
    and "\<And>b c. ap_ble (fw_app f) = Some b \<Longrightarrow> delivers bt b v c \<Longrightarrow> \<not> consent c"
  shows "quiet (fw_app (phone bt v f))"
proof (cases "ap_ble (fw_app f)")
  case (Some b)
  have b: "server_ok b" "\<forall>c \<in> set (bs_cmds b). \<not> consent c"
    using quiet_calm [OF assms(1) Some] by (simp_all add: calm_def)
  have "\<forall>c \<in> set (bs_cmds (server_step bt b v)). \<not> consent c"
  proof (cases "bs_cmds (server_step bt b v) = bs_cmds b")
    case False
    from command_entry [OF _ False assms(2)] b(1) obtain c
      where "delivers bt b v c" "bs_cmds (server_step bt b v) = bs_cmds b @ [c]" by (auto simp: server_ok_def)
    then show ?thesis using b(2) assms(3) [OF Some] by auto
  qed (use b in simp)
  then have "calm (server_step bt b v)" using b(1) by (simp add: calm_def server_step_ok)
  then show ?thesis using assms(1) Some by (simp add: phone_def quiet_ble)
qed (use assms(1) in \<open>simp add: phone_def quiet_ble\<close>)

definition switched :: "('s, 'n, 'c, 'b, 'e) firmware \<Rightarrow> bool" where
  "switched f \<longleftrightarrow> OtaSetBoot \<in> set (calls (fw_worker f))"

text \<open>The stages of a request for an install.\<close>

fun installing :: "'e stage \<Rightarrow> bool" where
  "installing AtRest \<longleftrightarrow> False"
| "installing (Begins p) \<longleftrightarrow> (case p of ForCheck _ inst \<Rightarrow> inst | ForInstall _ \<Rightarrow> True | ForTest \<Rightarrow> False)"
| "installing (Links p _ _) \<longleftrightarrow> (case p of ForCheck _ inst \<Rightarrow> inst | ForInstall _ \<Rightarrow> True | ForTest \<Rightarrow> False)"
| "installing (Linked p _) \<longleftrightarrow> (case p of ForCheck _ inst \<Rightarrow> inst | ForInstall _ \<Rightarrow> True | ForTest \<Rightarrow> False)"
| "installing (Fetches _ inst) \<longleftrightarrow> inst"
| "installing (Notes _) \<longleftrightarrow> False"
| "installing _ \<longleftrightarrow> True"

lemma harmless_stage:
  assumes "\<not> installing st" "stage_step pf st w = (f, st', w')"
  shows "\<not> installing st' \<and> calls w' = calls w"
proof (cases st)
  case (Begins p)
  obtain q w1 where 1: "link_start pf w = (q, w1)" by fastforce
  then have "calls w1 = calls w" using core_fields(1) [OF core_kept.link_start [of pf w]] by simp
  then show ?thesis using assms Begins 1 by (auto split: sum.splits)
next
  case (Links p ssid psk)
  obtain b w1 where 1: "link_finish pf ssid psk w = (b, w1)" by fastforce
  then have "calls w1 = calls w" using core_fields(1) [OF core_kept.link_finish [of pf ssid psk w]] by simp
  then show ?thesis using assms Links 1 by auto
next
  case (Linked p b)
  then show ?thesis using assms by (cases p) (auto simp: after_link_defs split: if_splits)
next
  case (Fetches t inst)
  obtain q w1 where 1: "get_small pf (manifest_url w) w = (q, w1)" by fastforce
  then have "calls w1 = calls w" using core_fields(1) [OF get_small_core(1) [of pf "manifest_url w" w]] by simp
  then show ?thesis using assms Fetches 1
    by (auto simp: fetch_step_def apply_manifest_def Let_def split: sum.splits)
qed (use assms in auto)

lemma harmless_turn:
  assumes "worker_does st q = (v, q')" "thread_step pf v st w = (f, st', w')" "\<not> installing st" "set q \<subseteq> harmless"
  shows "\<not> installing st' \<and> calls w' = calls w \<and> set q' \<subseteq> harmless"
proof (cases rule: does_cases [of st q])
  case 1
  have b: "\<not> installing st' \<and> calls w' = calls w"
    if "r \<in> harmless" "begin_request pf r w = (f, st', w')" for r
    using that core_fields(1) [OF mark_valid_core [of pf w]]
    by (auto simp: harmless_def begin_request_def begin_check_def)
  have i: "calls (on_idle pf w) = calls w" by (simp add: on_idle_def core_fields(1) [OF wifi_disconnect_core])
  have "set (drop 1 q) \<subseteq> harmless" using assms(4) by (meson set_drop_subset subset_trans)
  then show ?thesis using assms 1 b i by (cases q) (auto simp: worker_takes_def)
next
  case 2
  then show ?thesis using assms harmless_stage [OF assms(3)] by auto
qed

definition hush :: "('s, 'n, 'c, 'b, 'e) firmware \<Rightarrow> bool" where
  "hush f \<longleftrightarrow> quiet (fw_app f) \<and> \<not> installing (fw_stage f)"

lemma hush_turn:
  assumes "hush f"
  shows "hush (worker_turn pf f) \<and> switched (worker_turn pf f) = switched f"
proof (cases "ap_ota (fw_app f)")
  case (Some lk)
  obtain v q where v: "worker_does (fw_stage f) (lk_queue lk) = (v, q)" by fastforce
  obtain fl st w where s: "thread_step pf v (fw_stage f) (fw_worker f) = (fl, st, w)"
    by (cases "thread_step pf v (fw_stage f) (fw_worker f)") auto
  have "set (lk_queue lk) \<subseteq> harmless" using assms Some by (simp add: hush_def quiet_def reqs_def)
  from harmless_turn [OF v s _ this] show ?thesis using assms Some v s
    by (simp add: worker_turn_def switched_def hush_def quiet_def reqs_def policy_def)
qed (use assms in \<open>simp add: worker_turn_def\<close>)

text \<open>The event of the phone that lets an install be asked for.\<close>

definition consents ::
  "('s, 'n, 'c, 'b) hardware \<Rightarrow> ('s, 'n, 'c, 'b, 'e) firmware \<Rightarrow> ('s, 'b, 'e) fw_event \<Rightarrow> bool" where
  "consents hw f v \<longleftrightarrow> (\<exists>gi ev b c. v = PhoneGatts gi ev \<and> ap_ble (fw_app f) = Some b
     \<and> delivers (hw_bt hw) b (Gatts gi ev) c \<and> consent c)"

lemma only_gatts_delivers: "delivers bt b v c \<Longrightarrow> \<exists>gi ev. v = Gatts gi ev"
  by (auto simp: delivers_def)

lemma hush_step:
  assumes "hush f" "\<not> consents hw f v"
  shows "hush (fw_step hw pf f v) \<and> switched (fw_step hw pf f v) = switched f"
proof (cases "fw_over f")
  case False
  have q: "quiet (fw_app f)" using assms(1) by (simp add: hush_def)
  show ?thesis
  proof (cases v)
    case Iterates
    from False show ?thesis
    proof (cases rule: fw_iterates [where hw = hw and pf = pf])
      case (2 a b)
      have "quiet a" using guar_ends [OF hushed.loop.iteration 2(1)] assms(1) unfolding hush_def by blast
      then show ?thesis using 2(2) Iterates assms(1)
        by (auto simp: put_app_def switched_def hush_def split: option.split)
    qed (use assms Iterates in \<open>simp add: switched_def hush_def\<close>)
  next
    case Works
    then show ?thesis using hush_turn [OF assms(1), of pf] False by simp
  next
    case (PhoneGap ev)
    have "quiet (fw_app (phone (hw_bt hw) (Gap ev) f))"
      using q by (rule quiet_phone) (auto dest: only_gatts_delivers)
    then show ?thesis using PhoneGap False assms(1) by (simp add: phone_def switched_def hush_def)
  next
    case (PhoneGatts gi ev)
    have "quiet (fw_app (phone (hw_bt hw) (Gatts gi ev) f))"
      using q by (rule quiet_phone) (use assms(2) PhoneGatts in \<open>auto simp: consents_def\<close>)
    then show ?thesis using PhoneGatts False assms(1) by (simp add: phone_def switched_def hush_def)
  next
    case (RadioMoves b)
    have "quiet (fw_app (phone (hw_bt hw) (StackMoves b) f))"
      using q by (rule quiet_phone) (auto dest: only_gatts_delivers)
    then show ?thesis using RadioMoves False assms(1) by (simp add: phone_def switched_def hush_def)
  next
    case (WorldMovesOn e)
    then show ?thesis using assms False by (simp add: switched_def wk_env_def hush_def)
  qed (use assms False in \<open>simp_all add: switched_def hush_def\<close>)
qed (use assms in simp)

section \<open>What it takes to end the probation\<close>

definition pending :: "('s, 'n, 'c, 'b, 'e) firmware \<Rightarrow> bool" where
  "pending f \<longleftrightarrow> sh_pending_verify (sv_shared (wk_sv (fw_worker f)))"

definition healthy_at :: "('s, 'n, 'c, 'b) hardware \<Rightarrow> ('s, 'n, 'c, 'b) app \<Rightarrow> bool" where
  "healthy_at hw a \<longleftrightarrow> \<not> ap_self_test_done a \<and> ap_ble a \<noteq> None \<and> SELF_TEST_UPTIME \<le> elapsed hw (ap_boot a) a
     \<and> (\<exists>fr. fst (hw_led hw fr (k_io (ap_kds a))))"

definition on_probation :: "('s, 'n, 'c, 'b, 'e) firmware \<Rightarrow> bool" where
  "on_probation f \<longleftrightarrow> pending f \<and> ReqMarkValid \<notin> set (reqs (fw_app f))"

lemma probation_iterates:
  assumes "synced f" "on_probation f" "ends_in (loop_body hw (fw_app f)) a" "\<not> healthy_at hw (fw_app f)"
  shows "on_probation (put_app a f)"
proof -
  obtain new where n: "reqs a = reqs (fw_app f) @ new"
    "on_own_account hw (fw_app f) new (ap_boot_check_done a, ap_self_test_done a)"
    using loop_own [OF assms(3)] by blast
  then have "ReqMarkValid \<notin> set (reqs a)"
    using assms(2,4) by (auto simp: on_own_account_def healthy_at_def on_probation_def)
  moreover have "nudges (fw_app f) a" using guar_ends [OF nudging.loop.iteration assms(3)] .
  then have "pending (put_app a f)" using assms(1,2)
    by (auto simp: nudges_def nudged_def synced_def pending_def on_probation_def put_app_def option_rel_Some1)
  ultimately show ?thesis by (simp add: on_probation_def put_app_def)
qed

lemma probation_turn:
  assumes "synced f" "on_probation f"
  shows "on_probation (worker_turn pf f)"
proof -
  obtain lk where lk: "ap_ota (fw_app f) = Some lk" using assms(1) by (auto simp: synced_def)
  obtain v q where v: "worker_does (fw_stage f) (lk_queue lk) = (v, q)" by fastforce
  obtain fl st w where s: "thread_step pf v (fw_stage f) (fw_worker f) = (fl, st, w)"
    by (cases "thread_step pf v (fw_stage f) (fw_worker f)") auto
  have n: "ReqMarkValid \<notin> set (lk_queue lk)" using assms(2) lk by (simp add: on_probation_def reqs_def)
  then have "v \<noteq> Takes ReqMarkValid" "ReqMarkValid \<notin> set q"
    using v by (cases rule: does_cases [of "fw_stage f" "lk_queue lk"]; cases "lk_queue lk"; auto simp: worker_takes_def)+
  moreover from this have "boot_state w = boot_state (fw_worker f)"
    using boot_kept.turn [OF s] turn_kind [OF v] by blast
  ultimately show ?thesis using assms lk v s
    by (simp add: worker_turn_def on_probation_def pending_def reqs_def boot_state_def)
qed

lemma probation_step:
  assumes "synced f" "on_probation f" "\<not> on_probation (fw_step hw pf f v)"
  shows "v = Iterates \<and> healthy_at hw (fw_app f)"
proof (cases "fw_over f")
  case False
  show ?thesis
  proof (cases v)
    case Iterates
    from False show ?thesis
    proof (cases rule: fw_iterates [where hw = hw and pf = pf])
      case (2 a b)
      then show ?thesis using probation_iterates [OF assms(1,2) 2(1)] assms(3) Iterates
        by (auto simp: on_probation_def pending_def)
    qed (use assms Iterates in \<open>simp add: on_probation_def pending_def\<close>)
  next
    case Works
    then show ?thesis using probation_turn [OF assms(1,2), of pf] assms(3) False by simp
  qed (use assms(2,3) False in \<open>simp_all add: phone_def on_probation_def pending_def reqs_def set_io_def wk_env_def\<close>)
qed (use assms in simp)

section \<open>A healthy image is confirmed\<close>

text \<open>An iteration of an idle worker reaches its work, and with no command waiting it is not cut short.\<close>

lemma mirror_fail:
  assumes "mirror_ota hw t a = Go a1" "o_state (status_seen a) \<noteq> OtaFailed"
  shows "ap_fail_until a1 = ap_fail_until a"
proof -
  have "ap_fail_until (note_wifi_change t w (note_ota_change tn t o' (upd_link g a))) = ap_fail_until a"
    if "o_state o' \<noteq> OtaFailed" for w tn o' g
    using that by (auto simp: note_wifi_change_def note_ota_change_def push_event_def upd_link_def Let_def split: option.split)
  then show ?thesis using assms by (auto simp: mirror_ota_def status_seen_def Let_def split: option.splits if_splits)
qed

lemma loop_reaches_work:
  assumes "app_ok a \<and> \<not> hangs a" "\<not> writing (o_state (status_seen a))" "o_state (status_seen a) \<noteq> OtaFailed"
    and "ap_fail_until a = None"
  shows "\<exists>b. loop_body hw a = work_steps hw (uptime hw a) b \<and> early hw b = early hw a
    \<and> (ap_ota b = None \<longleftrightarrow> ap_ota a = None)"
proof -
  let ?t = "uptime hw a"
  obtain a1 where a1: "mirror_ota hw ?t a = Go a1" using mirror_goes assms(1) by blast
  have f: "ap_fail_until a1 = None" using mirror_fail [OF a1 assms(3)] assms(4) by simp
  have "ap_ota_status a1 = status_seen a" using mirror_sees [OF a1] by simp
  then have b: "busy_step hw ?t a1 = Go (a1\<lparr>ap_ota_was_busy := False\<rparr>)" using assms(2) by (simp add: busy_step_def)
  then have "loop_body hw a = work_steps hw ?t (a1\<lparr>ap_ota_was_busy := False\<rparr>)"
    by (simp add: loop_body_def Let_def a1 fail_step_def f)
  moreover have "early hw (a1\<lparr>ap_ota_was_busy := False\<rparr>) = early hw a"
    using mirror_early [of hw a ?t] busy_early [OF b] by (simp add: a1)
  moreover have "ap_ota a1 = None \<longleftrightarrow> ap_ota a = None"
    using mirror_nudges [of a hw ?t] by (cases "ap_ota a"; cases "ap_ota a1") (simp_all add: a1 nudges_def)
  ultimately show ?thesis by auto
qed

definition straight :: "'x ctl \<Rightarrow> bool" where
  "straight q \<longleftrightarrow> (\<forall>x. q \<noteq> Rebooted x)"

lemma straight_simps [simp]: "straight Stuck" "straight (Go x)" "straight (Again x)"
  by (simp_all add: straight_def)

lemma straight_seq: "straight q \<Longrightarrow> (\<And>x. straight (f x)) \<Longrightarrow> straight (seq q f)"
  by (cases q) (simp_all add: straight_def seq_def)

lemma drive_straight: "straight (drive_steps hw t a)"
proof -
  have d: "straight (derive_and_install x)" for x :: "('a, 'b, 'c, 'd) app"
    by (simp add: derive_and_install_def split: option.split)
  have "straight (slow_publish hw u b x)" for u b x
    by (simp add: slow_publish_def Let_def case_prod_beta split: option.split)
  then have "straight (telemetry hw u rd g low x)" for u rd g low x
    by (simp add: telemetry_def Let_def split: option.split)
  then have "straight (ride_steps hw u x)" for u x
    by (auto simp: ride_steps_def persist_step_def d Let_def intro!: straight_seq split: option.split prod.split bool.split)
  moreover have "straight (reconnect_step hw x)" "straight (deep_step hw x)" for x
    by (auto simp: reconnect_step_def deep_step_def split: option.split)
  ultimately show ?thesis unfolding drive_steps_def by (auto intro!: straight_seq)
qed

lemma self_test_asks:
  assumes "\<not> ap_self_test_done a" "ap_ble a \<noteq> None" "SELF_TEST_UPTIME \<le> elapsed hw (ap_boot a) a"
    and "\<And>fr. fst (hw_led hw fr (k_io (ap_kds a)))" "reqs a = []" "ap_ota a \<noteq> None"
  shows "reqs (self_test hw t (boot_check hw a)) = [ReqMarkValid]"
    and "map_option bs_cmds (ap_ble (self_test hw t (boot_check hw a))) = map_option bs_cmds (ap_ble a)"
proof -
  let ?c = "boot_check hw a"
  have c: "?c = a\<lparr>ap_boot_check_done := ap_boot_check_done ?c\<rparr>"
    using assms(1) by (simp add: boot_check_def Let_def)
  obtain d where d: "?c = a\<lparr>ap_boot_check_done := d\<rparr>" using c by blast
  have l: "led_send hw fr y = (True, set_io (snd (hw_led hw fr (k_io (ap_kds a)))) y)"
    if "ap_kds y = ap_kds a" for fr and y :: "('a, 'b, 'c, 'd) app"
    using that assms(4) [of fr] by (simp add: led_send_def case_prod_beta)
  have e: "elapsed hw (ap_boot a) ?c = elapsed hw (ap_boot a) a" by (simp add: d elapsed_def clock_def)
  show "reqs (self_test hw t ?c) = [ReqMarkValid]"
    using assms e by (auto simp: d self_test_def l Let_def reqs_def push_event_def request_def lk_request_def
        try_send_def set_io_def)
  show "map_option bs_cmds (ap_ble (self_test hw t ?c)) = map_option bs_cmds (ap_ble a)"
    using assms e by (simp add: d self_test_def l Let_def push_event_def request_def set_io_def)
qed

text \<open>
  What the iteration asks for first, when the tests at its begin ask for one thing; and that it ends
  with neither a panic nor a restart.
\<close>

lemma asking_iteration:
  assumes u: "drains (hw_uart hw) left" and a: "app_ok a \<and> \<not> hangs a" "ap_ota a \<noteq> None"
    and idle: "\<not> writing (o_state (status_seen a))" "o_state (status_seen a) \<noteq> OtaFailed" "ap_fail_until a = None"
    and asks: "\<And>b t. early hw b = early hw a \<Longrightarrow> ap_ota b \<noteq> None \<Longrightarrow> reqs (self_test hw t (boot_check hw b)) = [r]
      \<and> map_option bs_cmds (ap_ble (self_test hw t (boot_check hw b))) = Some []"
  shows "\<exists>x q. (loop_body hw a = Go x \<or> loop_body hw a = Again x) \<and> reqs x = r # q"
proof -
  let ?t = "uptime hw a"
  obtain b where b: "loop_body hw a = work_steps hw ?t b" "early hw b = early hw a" "ap_ota b \<noteq> None"
    using loop_reaches_work [OF a(1) idle, of hw] a(2) by blast
  let ?y = "self_test hw ?t (boot_check hw b)"
  have y: "reqs ?y = [r]" "map_option bs_cmds (ap_ble ?y) = Some []" using asks [OF b(2,3)] by simp_all
  then obtain y' where "handle_ble_commands hw ?t ?y = Go y'" by (auto simp: handle_ble_commands_def Let_def)
  then have "straight (loop_body hw a)" using drive_straight by (simp add: b(1) work_steps_def)
  moreover have "lands app_ok (loop_body hw a)" using loop_body_ok [OF u] a(1) by blast
  ultimately obtain x where x: "loop_body hw a = Go x \<or> loop_body hw a = Again x"
    by (cases "loop_body hw a") (auto simp: straight_def)
  have "sends app_reqs ?y (loop_body hw a)" using tail_sends by (simp add: b(1) work_steps_def)
  then have "adds app_reqs ?y x" using x by auto
  then show ?thesis using x y(1) by (auto simp: adds_def outbox_def)
qed

lemma healthy_iteration:
  assumes u: "drains (hw_uart hw) left" and a: "app_ok a \<and> \<not> hangs a" "ap_ota a \<noteq> None" "reqs a = []"
    and idle: "\<not> writing (o_state (status_seen a))" "o_state (status_seen a) \<noteq> OtaFailed" "ap_fail_until a = None"
    and h: "healthy_at hw a" "\<And>fr. fst (hw_led hw fr (k_io (ap_kds a)))" "map_option bs_cmds (ap_ble a) = Some []"
  shows "\<exists>x q. (loop_body hw a = Go x \<or> loop_body hw a = Again x) \<and> reqs x = ReqMarkValid # q"
proof (rule asking_iteration [OF u a(1,2) idle])
  fix b t
  assume b: "early hw b = early hw a" "ap_ota b \<noteq> None"
  note e = early_fields [OF b(1)]
  show "reqs (self_test hw t (boot_check hw b)) = [ReqMarkValid]
      \<and> map_option bs_cmds (ap_ble (self_test hw t (boot_check hw b))) = Some []"
    using self_test_asks [of b hw t] h a(3) b(2) by (auto simp: healthy_at_def e)
qed

lemma fw_iterates_on: "\<not> fw_over f \<Longrightarrow> loop_body hw (fw_app f) = Go x \<or> loop_body hw (fw_app f) = Again x \<Longrightarrow>
  fw_step hw pf f Iterates = put_app x f"
  by auto

lemma turn_confirms:
  assumes "synced f" "fw_stage f = AtRest" "reqs (fw_app f) = ReqMarkValid # q" "\<And>e. \<exists>e'. pf_mark_valid pf e = (Inr (), e')"
  shows "\<not> pending (worker_turn pf f)"
proof -
  obtain lk where lk: "ap_ota (fw_app f) = Some lk" "lk_queue lk = ReqMarkValid # q"
    using assms(1,3) by (auto simp: synced_def reqs_def)
  obtain e' where "pf_mark_valid pf (sv_env (wk_sv (fw_worker f))) = (Inr (), e')" using assms(4) by blast
  then have "\<not> sh_pending_verify (sv_shared (wk_sv (mark_valid pf (fw_worker f))))"
    by (simp add: mark_valid_def wk_io_def with_env_def set_shared_def)
  then show ?thesis using lk assms(2)
    by (simp add: worker_turn_def worker_does_def worker_takes_def begin_request_def pending_def)
qed

section \<open>A firmware to run\<close>

lemma fw_starts:
  assumes "pred_option server_ok ble"
  shows "\<exists>f. fw_init hw s n reason c ble w = Some f"
proof -
  let ?q = "app_init hw s n reason c ble (Some \<lparr>lk_queue = [], lk_shared = sv_shared (wk_sv w)\<rparr>) None"
  have "lands app_ok ?q" using assms by (intro init_ok) (simp_all add: link_ok_def)
  moreover have "?q \<noteq> Again a" "?q \<noteq> Rebooted a" for a
    by (auto simp: app_init_def derive_and_install_def Let_def split: option.split)
  ultimately obtain a where "?q = Go a" by (cases ?q) auto
  then show ?thesis by (simp add: fw_init_def)
qed

definition sim_spawn :: "bool \<Rightarrow> u8 list worker" where
  "sim_spawn unverified = fw_spawn sim_hw sim_server [] ''w230'' (Map.empty, Map.empty) (Some (''ota_0'', unverified)) None"

definition sim_start :: "bool \<Rightarrow> (nat \<times> u8 list, string \<rightharpoonup> u8 list, (string \<rightharpoonup> string) \<times> (string \<rightharpoonup> u8), unit, u8 list) firmware option" where
  "sim_start unverified = fw_init sim_hw (0, []) Map.empty 1 (Map.empty, Map.empty) (Some sim_ble) (sim_spawn unverified)"

lemma sim_starts: obtains f where "sim_start unverified = Some f"
proof -
  have "server_ok sim_ble" by code_simp
  then show ?thesis
    using that fw_starts [of "Some sim_ble" sim_hw "(0, [])" Map.empty 1 "(Map.empty, Map.empty)" "sim_spawn unverified"]
    by (auto simp: sim_start_def)
qed

text \<open>Twenty seconds after the start of an image on probation.\<close>

definition sim_firmware :: "(nat \<times> u8 list, string \<rightharpoonup> u8 list, (string \<rightharpoonup> string) \<times> (string \<rightharpoonup> u8), unit, u8 list) firmware" where
  "sim_firmware = (let a = sim_app 20000000 in
     \<lparr>fw_app = a, fw_worker = sim_worker\<lparr>wk_sv := (wk_sv sim_worker)\<lparr>sv_shared := lk_shared sim_link\<rparr>,
        wk_cfg := cs_cfg (ap_config a)\<rparr>, fw_stage = AtRest, fw_over = False\<rparr>)"

section \<open>Properties\<close>

text \<open>
  C2. No update without consent: in every run of the whole firmware from start-up with a stored
  policy below "check and install" and no such command waiting, unless the phone delivers, by a
  whole write or the end of a long one, a command that asks for an install or sets that policy,
  the boot slot is never switched.
\<close>

theorem update_needs_consent:
  assumes "fw_init hw s n reason c ble (fw_spawn hw pf e project c running invalid) = Some f0"
    and "cfg_boot_policy (cs_cfg (cfg_open (hw_cfg hw) c DEFAULT_BOOT_POLICY)) < BOOT_CHECK_AND_INSTALL"
    and "pred_option calm ble"
    and "\<And>vs1 v vs2. vs = vs1 @ v # vs2 \<Longrightarrow> \<not> consents hw (run (fw_step hw pf) f0 vs1) v"
  shows "OtaSetBoot \<notin> set (calls (fw_worker (run (fw_step hw pf) f0 vs)))"
proof
  let ?P = "\<lambda>f. switched f \<or> \<not> hush f"
  have "\<not> ?P f0" using fw_init_fields [OF assms(1)] assms(2,3)
    by (simp add: switched_def hush_def quiet_def reqs_def policy_def fw_spawn_def spawn_def)
  moreover assume "OtaSetBoot \<in> set (calls (fw_worker (run (fw_step hw pf) f0 vs)))"
  then have "?P (run (fw_step hw pf) f0 vs)" by (simp add: switched_def)
  ultimately obtain vs1 v vs2 where "vs = vs1 @ v # vs2" "\<not> ?P (run (fw_step hw pf) f0 vs1)"
    "?P (fw_step hw pf (run (fw_step hw pf) f0 vs1) v)" by (rule run_cause)
  then show False using hush_step assms(4) by blast
qed

theorem update_needs_consent_witness:
  "\<exists>f0. sim_start False = Some f0 \<and> OtaSetBoot \<notin> set (calls (fw_worker
     (run (fw_step sim_hw sim_server) f0 [Iterates, PhoneGatts 3 (Write (sim_write 60) False [3]), Iterates, Works])))"
proof -
  let ?vs = "[Iterates, PhoneGatts 3 (Write (sim_write 60) False [3]), Iterates, Works]
    :: (nat \<times> u8 list, unit, u8 list) fw_event list"
  obtain f0 where f0: "sim_start False = Some f0" by (rule sim_starts)
  have hc: "hw_cfg sim_hw = map_cfg" by (simp add: sim_hw_def)
  have p: "cfg_boot_policy (cs_cfg (cfg_open (hw_cfg sim_hw) (Map.empty, Map.empty) DEFAULT_BOOT_POLICY)) < BOOT_CHECK_AND_INSTALL"
    by (simp add: hc open_stored [OF map_cfg_lawful] fit_def DEFAULT_BOOT_POLICY_def BOOT_CHECK_def BOOT_CHECK_AND_INSTALL_def)
  have "server_ok sim_ble" by code_simp
  then have b: "pred_option calm (Some sim_ble)" by (simp add: calm_def sim_ble_def new_server_def)
  have d: "command_decode [3] = Some CheckUpdate" by code_simp
  have "\<not> consents sim_hw f v" if "v \<in> set ?vs" for f :: "(_, _, _, _, u8 list) firmware" and v
    using that d by (auto simp: consents_def delivers_def)
  then have n: "\<not> consents sim_hw (run (fw_step sim_hw sim_server) f0 vs1) v" if "?vs = vs1 @ v # vs2" for vs1 v vs2
    using that by (metis in_set_conv_decomp)
  have "OtaSetBoot \<notin> set (calls (fw_worker (run (fw_step sim_hw sim_server) f0 ?vs)))"
    using f0 [unfolded sim_start_def sim_spawn_def] p b n by (rule update_needs_consent)
  then show ?thesis using f0 by blast
qed

text \<open>
  C3. The probation of a new image ends only after a healthy iteration: from a start on probation,
  whatever happens, the running image stays unconfirmed unless some iteration found the BLE
  service up, twenty seconds gone, a frame accepted by the LED thread, and the self-test not
  yet done. A rolled-out image that breaks one of these is rolled back by the next reset.
\<close>

theorem probation_until_self_test:
  assumes "fw_init hw s n reason c ble (fw_spawn hw pf e project c (Some (slot, True)) invalid) = Some f0"
    and "\<And>vs1 vs2. vs = vs1 @ Iterates # vs2 \<Longrightarrow> \<not> healthy_at hw (fw_app (run (fw_step hw pf) f0 vs1))"
  shows "sh_pending_verify (sv_shared (wk_sv (fw_worker (run (fw_step hw pf) f0 vs))))"
proof (rule ccontr)
  let ?w = "fw_spawn hw pf e project c (Some (slot, True)) invalid"
  let ?r = "run (fw_step hw pf) f0"
  have 0: "synced f0" "worked pf ?w f0" using fw_init_worked [OF assms(1)] by simp_all
  have p: "on_probation f0" using fw_init_fields [OF assms(1)]
    by (simp add: on_probation_def pending_def reqs_def fw_spawn_def spawn_def spawn_shared_def)
  assume "\<not> sh_pending_verify (sv_shared (wk_sv (fw_worker (?r vs))))"
  then have "\<not> on_probation (?r vs)" by (simp add: on_probation_def pending_def)
  with p obtain vs1 v vs2 where v: "vs = vs1 @ v # vs2" "on_probation (?r vs1)" "\<not> on_probation (fw_step hw pf (?r vs1) v)"
    using run_cause [where P = "\<lambda>f. \<not> on_probation f"] by blast
  have "synced (?r vs1)" using run_worked [OF 0(1,2)] by blast
  from probation_step [OF this v(2,3)] v(1) assms(2) show False by blast
qed

theorem probation_until_self_test_witness:
  "\<exists>f0. sim_start True = Some f0
     \<and> sh_pending_verify (sv_shared (wk_sv (fw_worker (run (fw_step sim_hw sim_server) f0 [Iterates, Works]))))"
proof -
  obtain f0 where f0: "sim_start True = Some f0" by (rule sim_starts)
  have "\<not> healthy_at sim_hw (fw_app f0)"
    using fw_init_fields [OF f0 [unfolded sim_start_def]] by (simp add: healthy_at_def SELF_TEST_UPTIME_def)
  then have n: "\<not> healthy_at sim_hw (fw_app (run (fw_step sim_hw sim_server) f0 vs1))"
    if "[Iterates, Works] = vs1 @ Iterates # vs2" for vs1 vs2
    using that by (cases vs1) (auto simp: Cons_eq_append_conv)
  have "sh_pending_verify (sv_shared (wk_sv (fw_worker (run (fw_step sim_hw sim_server) f0 [Iterates, Works]))))"
    using f0 [unfolded sim_start_def sim_spawn_def] n by (rule probation_until_self_test)
  then show ?thesis using f0 by blast
qed

text \<open>
  C4. The firmware refines its worker: after any run of the whole firmware from start-up, the
  worker's thread has gone through a run of its own events to the stage it is in, so that whatever
  holds of every run of the thread holds in the firmware; both sides agree on the shared status
  and on the settings; and the thread ends only with the chip.
\<close>

theorem firmware_refines_worker:
  assumes "fw_init hw s n reason c ble (fw_spawn hw pf e project c running invalid) = Some f0"
    and "f = run (fw_step hw pf) f0 vs"
  shows "\<exists>us fl. thread_run pf us AtRest (fw_spawn hw pf e project c running invalid) = (fl, fw_stage f, fw_worker f)
    \<and> fl \<noteq> Exit \<and> (fl \<noteq> Continue \<longrightarrow> fw_over f)
    \<and> map_option lk_shared (ap_ota (fw_app f)) = Some (sv_shared (wk_sv (fw_worker f)))
    \<and> wk_cfg (fw_worker f) = cs_cfg (ap_config (fw_app f))"
proof -
  let ?w = "fw_spawn hw pf e project c running invalid"
  have "synced f0" "worked pf ?w f0" using fw_init_worked [OF assms(1)] by simp_all
  from run_worked [OF this, of hw vs] show ?thesis unfolding assms(2) synced_def worked_def by auto
qed

theorem firmware_refines_worker_witness:
  "\<exists>f0 us fl st. sim_start True = Some f0 \<and> thread_run sim_server us AtRest (sim_spawn True)
     = (fl, st, fw_worker (run (fw_step sim_hw sim_server) f0 [Iterates, Works]))"
proof -
  obtain f0 where f0: "sim_start True = Some f0" by (rule sim_starts)
  obtain us fl st where "thread_run sim_server us AtRest (sim_spawn True)
      = (fl, st, fw_worker (run (fw_step sim_hw sim_server) f0 [Iterates, Works]))"
    using firmware_refines_worker [OF f0 [unfolded sim_start_def sim_spawn_def] refl, of "[Iterates, Works]"]
    unfolding sim_spawn_def by blast
  with f0 show ?thesis by blast
qed

text \<open>
  C29. While an image is written the bike is left alone, in every run of the whole firmware (its start-up
  is attentive and well formed) whose UART empties its buffer: an iteration that comes while
  the worker asks for an image, streams it, activates it or is about to restart polls nothing. It
  drops the K-line, counts no cycle, leaves the progress bar, or the check mark before the restart, on
  the matrix, and does nothing to the board but show that frame, when it is a new one, and then wait
  100 ms, or 300 ms when the phone asked for a restart. The one exception is a changed status too long
  for the phone: then the iteration does not return, and polls nothing either.
\<close>

theorem polling_rests_while_writing:
  assumes "drains (hw_uart hw) left" "attentive pf version project f0" "app_ok (fw_app f0)"
    and "f = run (fw_step hw pf) f0 vs" "writes_image (fw_stage f)"
  shows "if hangs (fw_app f) then loop_body hw (fw_app f) = Stuck
    else \<exists>br. rests hw (fw_app f) (busy_frame (status (fw_worker f)) br) (loop_body hw (fw_app f))"
proof -
  have "attentive pf version project f" unfolding assms(4) using assms(2) by (rule run_attentive)
  from seen_writing [OF this assms(5)] have s: "status_seen (fw_app f) = status (fw_worker f)"
    "writing (o_state (status_seen (fw_app f)))" by simp_all
  have "app_ok (fw_app f)" unfolding assms(4) using run_app_ok [OF assms(1,3)] .
  from writing_rests [OF this _ s(2), of hw] hang_stuck [of "fw_app f" hw] show ?thesis by (simp add: s(1))
qed

definition sim_writing :: "(nat \<times> u8 list, string \<rightharpoonup> u8 list, (string \<rightharpoonup> string) \<times> (string \<rightharpoonup> u8), unit, u8 list) firmware" where
  "sim_writing = (let sh = (lk_shared sim_link)\<lparr>sh_ota := default_ota\<lparr>o_state := Downloading\<rparr>, sh_changed := True\<rparr>;
       a = (sim_app 5)\<lparr>ap_ota := Some \<lparr>lk_queue = [], lk_shared = sh\<rparr>\<rparr>
     in \<lparr>fw_app = a, fw_worker = sim_worker\<lparr>wk_sv := (wk_sv sim_worker)\<lparr>sv_shared := sh\<rparr>,
          wk_cfg := cs_cfg (ap_config a)\<rparr>, fw_stage = Opens sim_manifest, fw_over = False\<rparr>)"

theorem polling_rests_while_writing_witness:
  "\<not> hangs (fw_app sim_writing) \<and> (\<exists>br. rests sim_hw (fw_app sim_writing) (render_progress 0 br) (loop_body sim_hw (fw_app sim_writing)))"
proof -
  have v: "vetted sim_server ''1.0.0'' sim_manifest" using sim_vetted by (auto simp: vetted_def)
  have a: "attentive sim_server ''1.0.0'' ''libespidf'' sim_writing"
    using v by (simp add: attentive_def sim_writing_def Let_def synced_def mirrored_def thread_ok_def)
      (simp add: sim_worker_def spawn_def)
  have "length (ota_body (no_notes (default_ota\<lparr>o_state := Downloading\<rparr>))) \<le> 512" by code_simp
  then have h: "\<not> hangs (fw_app sim_writing)"
    by (simp add: sim_writing_def Let_def hangs_def short_status_def MAX_ATTR_LEN_def)
  have ok: "app_ok (fw_app sim_writing)" using sim_app_ok [of 5]
    by (simp add: sim_writing_def Let_def app_ok_def link_ok_def)
  have u: "drains (hw_uart sim_hw) (length \<circ> snd)" by (simp add: sim_hw_def list_uart_drains)
  have s: "writes_image (fw_stage sim_writing)" "busy_frame (status (fw_worker sim_writing)) br = render_progress 0 br" for br
    by (simp_all add: sim_writing_def Let_def writes_image_def busy_frame_def default_ota_def)
  have "sim_writing = run (fw_step sim_hw sim_server) sim_writing []" by simp
  from polling_rests_while_writing [OF u a ok this s(1)] s(2) h show ?thesis by simp
qed

text \<open>
  C6. A healthy image is confirmed: one iteration and one turn of the worker end the probation, from any
  state of a running firmware that is well formed and whose sides agree (as every state reached from
  start-up is), given a UART whose buffer empties, when the image is healthy: the BLE service up,
  twenty seconds gone, the self-test not yet done, and the LED thread taking frames; when nothing
  comes first: the worker at rest and its queue empty, no command of the phone waiting, the status
  neither of an image being written nor of a failure nor too long for the phone, no failure still
  shown on the matrix; and when the platform's call to mark the image valid succeeds.
\<close>

theorem healthy_image_confirmed:
  assumes "drains (hw_uart hw) left" "synced f" "\<not> fw_over f" "app_ok (fw_app f) \<and> \<not> hangs (fw_app f)" "reqs (fw_app f) = []"
    and rest: "fw_stage f = AtRest"
    and "\<not> writing (o_state (status_seen (fw_app f)))" "o_state (status_seen (fw_app f)) \<noteq> OtaFailed"
    and "ap_fail_until (fw_app f) = None" "healthy_at hw (fw_app f)"
    and "\<And>fr. fst (hw_led hw fr (k_io (ap_kds (fw_app f))))" "map_option bs_cmds (ap_ble (fw_app f)) = Some []"
    and "\<And>e. \<exists>e'. pf_mark_valid pf e = (Inr (), e')"
  shows "\<not> sh_pending_verify (sv_shared (wk_sv (fw_worker (run (fw_step hw pf) f [Iterates, Works]))))"
proof -
  have "ap_ota (fw_app f) \<noteq> None" using assms(2) by (auto simp: synced_def)
  from healthy_iteration [OF assms(1,4) this assms(5,7-12)] obtain x q
    where x: "loop_body hw (fw_app f) = Go x \<or> loop_body hw (fw_app f) = Again x" "reqs x = ReqMarkValid # q" by blast
  note s = fw_iterates_on [OF assms(3) x(1), of pf]
  have "nudges (fw_app f) x" using guar_ends [OF nudging.loop.iteration, of hw "fw_app f" x] x(1) by (auto simp: ends_in_def)
  from put_app_worker [OF assms(2) this] have "synced (put_app x f)" by blast
  from turn_confirms [OF this _ _ assms(13)] x(2) assms(3) rest show ?thesis
    by (simp add: s pending_def del: fw_step.simps) (simp add: put_app_def pending_def)
qed

theorem healthy_image_confirmed_witness:
  "sh_pending_verify (sv_shared (wk_sv (fw_worker sim_firmware)))
   \<and> \<not> sh_pending_verify (sv_shared (wk_sv (fw_worker (run (fw_step sim_hw sim_server) sim_firmware [Iterates, Works]))))"
proof -
  let ?a = "sim_app 20000000"
  have f: "fw_app sim_firmware = ?a" "\<not> fw_over sim_firmware" "synced sim_firmware" "fw_stage sim_firmware = AtRest"
    by (simp_all add: sim_firmware_def Let_def synced_def sim_app_def)
  have s: "status_seen ?a = default_ota" "reqs ?a = []" "ap_fail_until ?a = None"
    "map_option bs_cmds (ap_ble ?a) = Some []" "\<not> writing Idle"
    by (simp_all add: status_seen_def reqs_def sim_app_def sim_link_def new_server_def writing_def)
  have l: "fst (hw_led sim_hw fr x)" for fr x by (simp add: sim_hw_def)
  have h: "healthy_at sim_hw ?a"
    using l by (simp add: healthy_at_def sim_app_def SELF_TEST_UPTIME_def elapsed_def clock_def sim_hw_def list_uart_def kds_new_def)
  have u: "drains (hw_uart sim_hw) (length \<circ> snd)" by (simp add: sim_hw_def list_uart_drains)
  have m: "\<exists>e'. pf_mark_valid sim_server e = (Inr (), e')" for e by (simp add: sim_defs)
  have o: "o_state default_ota = Idle" by (simp add: default_ota_def)
  have "app_ok ?a \<and> \<not> hangs ?a" using sim_app_ok [of 20000000] by (simp add: hangs_def sim_app_def sim_link_def)
  with o healthy_image_confirmed [OF u f(3,2), of sim_server] f(4) s h l m
  have "\<not> sh_pending_verify (sv_shared (wk_sv (fw_worker (run (fw_step sim_hw sim_server) sim_firmware [Iterates, Works]))))"
    unfolding f(1) by (simp del: run.simps)
  moreover have "sh_pending_verify (sv_shared (wk_sv (fw_worker sim_firmware)))"
    by (simp add: sim_firmware_def Let_def sim_link_def)
  ultimately show ?thesis by blast
qed

end
