(* ===== verification/Main_Builds.thy ===== *)
theory Main_Builds
  imports Main_Total
begin

text \<open>
  What the build switches of \<open>esp32/src/main.rs\<close> change: the shipped build leaves the scans and the
  demo out, the demo shows a digit whatever is read, a scanning build reads no gear data and so
  learns nothing, its table lists every register that answered once, and the dashboard's wipe
  request is honoured by the next cycle. It also holds the choices \<open>main\<close> makes by constants: where
  updates come from, the build stamp, and which of dashboard and update worker gets the radio.
\<close>

section \<open>Choices at build time\<close>

definition OTA_MANIFEST_URL :: "string option \<Rightarrow> string" where
  "OTA_MANIFEST_URL env =
     (case env of
        Some u \<Rightarrow> u
      | None \<Rightarrow> ''https://d394jgrm9p9yqj.cloudfront.net/w230/manifest.json'')"

definition BUILD_STAMP :: "string option \<Rightarrow> string" where
  "BUILD_STAMP env = (case env of Some s \<Rightarrow> s | None \<Rightarrow> ''dev'')"

text \<open>A dashboard that does not start ends \<open>main\<close>; a worker that does not start is done without.\<close>

definition radio_users ::
  "bool \<Rightarrow> string + web_diag \<Rightarrow> string + ota_link \<Rightarrow> string + web_diag option \<times> ota_link option" where
  "radio_users wifi_diag web ota =
     (if wifi_diag then (case web of Inl e \<Rightarrow> Inl e | Inr w \<Rightarrow> Inr (Some w, None))
      else Inr (None, case ota of Inr lk \<Rightarrow> Some lk | Inl _ \<Rightarrow> None))"

lemma radio_one_user: "radio_users wifi_diag web ota = Inr (w, lk) \<Longrightarrow> w = None \<or> lk = None"
  by (auto simp: radio_users_def split: if_splits sum.splits)

lemma shipped_radio: "radio_users WIFI_DIAG web (Inr lk) = Inr (None, Some lk)"
  by (simp add: radio_users_def WIFI_DIAG_def)

section \<open>The shipped build\<close>

lemma shipped_steps:
  assumes "hw_build hw = shipped_build"
  shows "deep_step hw a = Go a" "scan_step hw a = Some (False, a)"
    and "ap_web a = None \<Longrightarrow> web_step hw rd g a = a"
  using assms by (simp_all add: deep_step_def scan_step_def web_step_def shipped_build_def
      DEEP_SCAN_def DIAG_SCAN_def)

section \<open>Demo\<close>

lemma demo_digit: "\<exists>n. demo_gear hw a = G n \<and> 1 \<le> n \<and> n \<le> 6"
proof -
  define k where "k = elapsed hw (ap_demo_start a) a div 1000000 div DEMO_STEP mod 6 + 1"
  have "0 \<le> elapsed hw (ap_demo_start a) a" by (simp add: elapsed_def)
  then have k: "1 \<le> k" "k \<le> 6" using pos_mod_bound [of 6 "elapsed hw (ap_demo_start a) a div 1000000 div DEMO_STEP"]
    by (auto simp: k_def)
  then have "uint (word_of_int k :: u8) = k" by (simp add: uint_word_of_int)
  then have "1 \<le> (word_of_int k :: u8) \<and> (word_of_int k :: u8) \<le> 6"
    using k by (simp add: word_le_def)
  then show ?thesis by (simp add: demo_gear_def k_def)
qed

lemma demo_shows_digit:
  assumes "bd_demo (hw_build hw)"
  shows "\<exists>n a'. display_step hw rd a = Some (G n, neutral_low hw a, rd\<lparr>rd_link_up := True\<rparr>, a') \<and> 1 \<le> n \<and> n \<le> 6"
proof -
  obtain e g where "update (ap_est a) \<lparr>rpm = rd_aligned rd, speed = rd_speed rd, gear_reg = None,
      neutral_switch = neutral_low hw a, clutch_pulled = False\<rparr> = (e, g)" by fastforce
  then show ?thesis
    using assms demo_digit [of hw "a\<lparr>ap_neutral_was := neutral_low hw a, ap_est := e\<rparr>"]
    by (auto simp: display_step_def Let_def)
qed

section \<open>Scans\<close>

lemma scan_reads_nothing: "bd_scan (hw_build hw) \<Longrightarrow> poll hw t a = Some (no_readings, a)"
  by (simp add: poll_def)

text \<open>The table of a scan lists registers in the order they were asked, each at most once.\<close>

lemma scan_table:
  "scan_from u rs found k = Some (tbl, k') \<Longrightarrow>
    \<exists>new. tbl = found @ new \<and> subseq (map fst new) rs"
proof (induction rs arbitrary: found k)
  case (Cons r' rs)
  obtain d k1 where d: "read_register u r' k = Some (d, k1)" using register_returns by blast
  show ?case
  proof (cases d)
    case None
    then show ?thesis using Cons d by fastforce
  next
    case (Some v)
    then have "scan_from u rs (found @ [(r', v)]) k1 = Some (tbl, k')" using Cons.prems d by simp
    from Cons.IH [OF this] obtain new where "tbl = (found @ [(r', v)]) @ new" "subseq (map fst new) rs" by blast
    then show ?thesis by (intro exI [of _ "(r', v) # new"]) simp
  qed
qed simp

lemma scan_lists_once: "scan_registers u k = Some (tbl, k') \<Longrightarrow> distinct (map fst tbl)"
proof -
  assume "scan_registers u k = Some (tbl, k')"
  then have "subseq (map fst tbl) (map of_nat [0..<256] :: u8 list)"
    using scan_table unfolding scan_registers_def by fastforce
  moreover have "distinct (map of_nat [0..<256] :: u8 list)"
    by (auto simp: distinct_map inj_on_def unat_of_nat dest!: arg_cong [where f = unat])
  ultimately show ?thesis by (auto simp: subseq_conv_nths intro: distinct_nthsI)
qed

section \<open>The dashboard's wipe request\<close>

datatype web_event = Serve http_method string | Cycle readings gear

fun web_event_step ::
  "('s, 'n, 'c, 'b) hardware \<Rightarrow> string \<Rightarrow> ('s, 'n, 'c, 'b) app \<Rightarrow> web_event \<Rightarrow> ('s, 'n, 'c, 'b) app" where
  "web_event_step hw html a (Serve m p) =
     (case Option.bind (ap_web a) (route html m p) of Some (_, w') \<Rightarrow> a\<lparr>ap_web := Some w'\<rparr> | None \<Rightarrow> a)"
| "web_event_step hw html a (Cycle rd g) = web_step hw rd g a"

lemma web_same: "ap_web a = Some w \<Longrightarrow> a\<lparr>ap_web := Some w\<rparr> = a"
  by (cases a) simp

lemma serve_cases:
  "ap_web a = Some w \<Longrightarrow> web_event_step hw html a (Serve m p)
    = a\<lparr>ap_web := Some (w\<lparr>wb_clear := wb_clear w \<or> (m = Post \<and> p = ''/clear'')\<rparr>)\<rparr>"
proof -
  assume w: "ap_web a = Some w"
  show ?thesis
  proof (cases "route html m p w")
    case (Some q)
    then obtain r w' where q: "route html m p w = Some (r, w')" by (cases q) auto
    from route_cases [OF this] have "w' = w\<lparr>wb_clear := wb_clear w \<or> (m = Post \<and> p = ''/clear'')\<rparr>"
      by (cases w) auto
    then show ?thesis by (simp only: web_event_step.simps w bind.bind_lunit q option.case prod.case)
  next
    case None
    then have n: "(m = Post \<and> p = ''/clear'') = False" by (simp add: web_defs split: if_splits)
    have "w\<lparr>wb_clear := wb_clear w \<or> False\<rparr> = w" by simp
    then show ?thesis
      by (simp only: web_event_step.simps w bind.bind_lunit None option.case n web_same [OF w])
  qed
qed

lemma serves_pending:
  "ap_web a = Some w \<Longrightarrow> run (web_event_step hw html) a (map (\<lambda>(m, p). Serve m p) qs)
    = a\<lparr>ap_web := Some (w\<lparr>wb_clear := wb_clear w \<or> (Post, ''/clear'') \<in> set qs\<rparr>)\<rparr>"
proof (induction qs arbitrary: a w)
  case (Cons q qs)
  obtain m p where q: "q = (m, p)" by (cases q)
  show ?case
    using Cons.prems Cons.IH [of "a\<lparr>ap_web := Some (w\<lparr>wb_clear := wb_clear w \<or> (m = Post \<and> p = ''/clear'')\<rparr>)\<rparr>"]
    by (simp add: q serve_cases del: web_event_step.simps) (auto intro!: arg_cong [where f = "\<lambda>x. a\<lparr>ap_web := Some (w\<lparr>wb_clear := x\<rparr>)\<rparr>"])
qed simp

text \<open>
  A wipe asked for over the dashboard is done once: after any requests, the next cycle wipes the
  calibration exactly when one of them was \<open>POST /clear\<close> (or one was still waiting), leaves no
  request behind, and the status page then describes that cycle.
\<close>

lemma wipe_request_honoured_once:
  assumes "ap_web a = Some w"
    and "run (web_event_step hw html) a (map (\<lambda>(m, p). Serve m p) qs @ [Cycle rd g]) = a'"
  shows "\<exists>w'. ap_web a' = Some w' \<and> \<not> wb_clear w'
    \<and> ap_learner a' = ap_learner (if wb_clear w \<or> (Post, ''/clear'') \<in> set qs then wipe_calibration hw a else a)
    \<and> ap_est a' = ap_est (if wb_clear w \<or> (Post, ''/clear'') \<in> set qs then wipe_calibration hw a else a)
    \<and> fst (get_status w') = ok_response ''application/json'' (status_json (snapshot_now rd g a'))
    \<and> fst (get_hist w') = ok_response ''text/csv'' (hist_csv (h_counts (ln_hist (ap_learner a'))))"
  using assms(2) unfolding run_append serves_pending [OF assms(1)]
  by (auto simp: web_step_def get_status_def get_hist_def snapshot_now_def wipe_calibration_def Let_def)

end
