(* ===== verification/Line_Board.thy ===== *)
theory Line_Board
  imports Main_Guarantee
begin

text \<open>
  A board with an ECU on its line, to evaluate whole iterations on: the board of \<open>Main_Total\<close> with a
  UART that finds its receive buffer empty when it drains it and otherwise reads from a script,
  in which every request is followed by its echo and the ECU's reply. Its clock stands still.
\<close>

section \<open>The line\<close>

definition line_uart :: "(nat \<times> u8 list) uart" where
  "line_uart = \<lparr>change_baudrate = \<lambda>_ s. (True, s), uart_write = \<lambda>_ s. (True, s), wait_tx_done = \<lambda>_ s. s,
     uart_read = \<lambda>n to s. if to = 0 then (Some [], s)
       else (case snd s of [] \<Rightarrow> (Some [], s) | b # bs \<Rightarrow> (Some [b], (fst s, bs))),
     sleep = \<lambda>_ s. s, now = fst\<rparr>"

definition line_start :: "u8 list" where
  "line_start = replicate 5 0 @ [0x81, 0xF2, 0x11, 0xC1, 0x45] @ replicate 6 0 @ [0x82, 0xF2, 0x11, 0x50, 0x80, 0x55]"

definition line_rpm :: "u8 list" where
  "line_rpm = replicate 6 0 @ [0x84, 0xF2, 0x11, 0x61, 0x09, 0x3E, 0x80, 0xAF]"

definition line_speed :: "u8 list" where
  "line_speed = replicate 6 0 @ [0x83, 0xF2, 0x11, 0x61, 0x0C, 0x28, 0x1B]"

definition line_interlock :: "u8 list" where
  "line_interlock = replicate 6 0 @ [0x84, 0xF2, 0x11, 0x61, 0x03, 0x00, 0x00, 0xEB]"

lemma line_drain: "drain_rx line_uart s = Some s"
  by (subst drain_rx.simps) (simp add: line_uart_def)

lemma line_pace: "pace line_uart k = k"
  by (simp add: pace_def line_uart_def Let_def split: option.split)

lemma line_byte: "read_byte_inner line_uart (t, bs) = (case bs of [] \<Rightarrow> (None, (t, bs)) | b # bs' \<Rightarrow> (Some b, (t, bs')))"
  by (simp add: read_byte_inner_def line_uart_def RSP_TIMEOUT_def split: list.split)

lemma line_send: "send_bytes line_uart bs s = (True, s)"
  by (induction bs arbitrary: s) (simp_all add: line_uart_def)

lemma line_now: "now line_uart s = fst s" by (simp add: line_uart_def)

lemma line_exact: "length bs = n \<Longrightarrow> read_exact (read_byte_inner line_uart) n acc (t, bs @ rest) = (acc @ bs, (t, rest))"
  by (induction bs arbitrary: n acc) (auto simp: line_byte)

lemma line_next: "length bs = n \<Longrightarrow> next_bytes (read_byte_inner line_uart) n raw (t, bs @ rest) = (Inr (raw @ bs), (t, rest))"
  by (induction bs arbitrary: n raw) (auto simp: line_byte)

lemma line_request:
  assumes "p \<noteq> []" "length p \<le> MAX_PAYLOAD" "length echo = length p + 4"
  shows "send_request line_uart p \<lparr>k_io = (t, echo @ rest), k_connected = c, k_last_activity = l\<rparr>
    = Some (True, \<lparr>k_io = (t, rest), k_connected = c, k_last_activity = Some t\<rparr>)"
  using assms line_exact [of echo "Suc (Suc (Suc (Suc (length p))))" "[]" t rest]
  by (simp add: send_request_def build_request_def Let_def line_send line_now del: send_bytes.simps read_exact.simps)

lemma line_reply:
  assumes "short_header f" "unat (f AND 0x3F) = length p" "f \<noteq> 0"
  shows "read_response line_uart \<lparr>k_io = (t, f # x # y # p @ z # rest), k_connected = c, k_last_activity = l\<rparr>
    = (Some p, \<lparr>k_io = (t, rest), k_connected = c, k_last_activity = Some t\<rparr>)"
proof -
  have "next_bytes (read_byte_inner line_uart) 2 [f] (t, [x, y] @ p @ z # rest) = (Inr ([f] @ [x, y]), (t, p @ z # rest))"
    by (rule line_next) simp
  moreover have "next_bytes (read_byte_inner line_uart) (length p) [f, x, y] (t, p @ z # rest) = (Inr ([f, x, y] @ p), (t, z # rest))"
    by (rule line_next) simp
  ultimately show ?thesis using assms
    by (simp add: read_response_def parse_response_def parse_header_def finish_frame_def Let_def line_byte line_now)
qed

lemma line_query:
  assumes "short_header f" "unat (f AND 0x3F) = length p" "f \<noteq> 0" "length echo = 6"
  shows "read_register line_uart reg \<lparr>k_io = (t, echo @ f # x # y # p @ z # rest), k_connected = True, k_last_activity = l\<rparr>
    = Some (positive_data p SVC_READ_OK [reg], \<lparr>k_io = (t, rest), k_connected = True, k_last_activity = Some t\<rparr>)"
  using line_request [of "[SVC_READ, reg]" echo t "f # x # y # p @ z # rest" True l] assms
  by (simp add: read_register_def query_def exchange_def line_pace line_reply MAX_PAYLOAD_def)

lemma line_headers: "short_header 0x81" "short_header 0x82" "short_header 0x83" "short_header 0x84"
  "unat ((0x81 :: u8) AND 0x3F) = 1" "unat ((0x82 :: u8) AND 0x3F) = 2"
  "unat ((0x83 :: u8) AND 0x3F) = 3" "unat ((0x84 :: u8) AND 0x3F) = 4"
  by code_simp+

text \<open>A reply to a register read: its data is what the query answers.\<close>

lemma line_answer:
  assumes "k_connected k" "k_io k = (t, replicate 6 0 @ f # x # y # SVC_READ_OK # reg # d # ds @ z # rest)"
    and "short_header f" "unat (f AND 0x3F) = length ds + 3" "f \<noteq> 0"
  shows "read_register line_uart reg k
    = Some (Some (d # ds), \<lparr>k_io = (t, rest), k_connected = True, k_last_activity = Some t\<rparr>)"
proof -
  have "k = \<lparr>k_io = k_io k, k_connected = True, k_last_activity = k_last_activity k\<rparr>"
    using assms(1) by (cases k) simp
  moreover have "positive_data (SVC_READ_OK # reg # d # ds) SVC_READ_OK [reg] = Some (d # ds)"
    by (simp add: positive_data_def)
  ultimately show ?thesis
    using line_query [of f "SVC_READ_OK # reg # d # ds" "replicate 6 0" reg t x y z rest "k_last_activity k"] assms(2-5)
    by simp
qed

lemma line_reads:
  assumes "k_connected k"
  shows "k_io k = (t, line_rpm @ rest) \<Longrightarrow> read_rpm line_uart k
      = Some (decode_rpm [0x3E, 0x80], \<lparr>k_io = (t, rest), k_connected = True, k_last_activity = Some t\<rparr>)"
    and "k_io k = (t, line_speed @ rest) \<Longrightarrow> read_speed line_uart k
      = Some (decode_speed [0x28], \<lparr>k_io = (t, rest), k_connected = True, k_last_activity = Some t\<rparr>)"
    and "k_io k = (t, line_interlock @ rest) \<Longrightarrow> read_interlock line_uart k
      = Some (Inr (Some True), \<lparr>k_io = (t, rest), k_connected = True, k_last_activity = Some t\<rparr>)"
  using assms line_answer [of k t "0x84" "0xF2" "0x11" REG_RPM "0x3E" "[0x80]" "0xAF" rest]
    line_answer [of k t "0x83" "0xF2" "0x11" REG_SPEED "0x28" "[]" "0x1B" rest]
    line_answer [of k t "0x84" "0xF2" "0x11" REG_INTERLOCK 0 "[0]" "0xEB" rest] line_headers
  by (simp_all add: read_rpm_def read_speed_def read_interlock_def line_rpm_def line_speed_def line_interlock_def
      SVC_READ_OK_def REG_RPM_def REG_SPEED_def REG_INTERLOCK_def decode_interlock_def
      del: decode_rpm.simps decode_speed.simps)

lemma line_connects:
  "start_communication line_uart \<lparr>k_io = (t, line_start @ rest), k_connected = c, k_last_activity = l\<rparr>
    = Some (True, \<lparr>k_io = (t, rest), k_connected = True, k_last_activity = Some t\<rparr>)"
proof -
  have p: "fast_init_pulse line_uart s = (True, s)" for s by (simp add: fast_init_pulse_def line_uart_def)
  have s: "sleep line_uart n s = s" for n s by (simp add: line_uart_def)
  have r1: "send_request line_uart [SVC_START] \<lparr>k_io = (t, replicate 5 0 @ rs), k_connected = c, k_last_activity = l\<rparr>
    = Some (True, \<lparr>k_io = (t, rs), k_connected = c, k_last_activity = Some t\<rparr>)" for rs c l
    by (rule line_request) (simp_all add: MAX_PAYLOAD_def)
  have r2: "send_request line_uart [x, y] \<lparr>k_io = (t, replicate 6 0 @ rs), k_connected = c, k_last_activity = l\<rparr>
    = Some (True, \<lparr>k_io = (t, rs), k_connected = c, k_last_activity = Some t\<rparr>)" for x y rs c l
    by (rule line_request) (simp_all add: MAX_PAYLOAD_def)
  have a1: "read_response line_uart \<lparr>k_io = (t, 0x81 # x # y # 0xC1 # z # rs), k_connected = c, k_last_activity = l\<rparr>
    = (Some [0xC1], \<lparr>k_io = (t, rs), k_connected = c, k_last_activity = Some t\<rparr>)" for x y z rs c l
    using line_reply [where f = "0x81" and p = "[0xC1]"] line_headers by simp
  have a2: "read_response line_uart \<lparr>k_io = (t, 0x82 # x # y # 0x50 # v # z # rs), k_connected = c, k_last_activity = l\<rparr>
    = (Some [0x50, v], \<lparr>k_io = (t, rs), k_connected = c, k_last_activity = Some t\<rparr>)" for x y z v rs c l
    using line_reply [where f = "0x82" and p = "[0x50, v]"] line_headers by simp
  show ?thesis
    by (simp add: start_communication_def line_start_def line_drain p s handshake_def r1 r2 a1 a2 line_pace SVC_START_OK_def SVC_SESSION_OK_def
        del: replicate_Suc)
qed

section \<open>Iterations\<close>

type_synonym line_app = "(nat \<times> u8 list, string \<rightharpoonup> u8 list, (string \<rightharpoonup> string) \<times> (string \<rightharpoonup> u8), unit) app"

definition line_hw :: "(nat \<times> u8 list, string \<rightharpoonup> u8 list, (string \<rightharpoonup> string) \<times> (string \<rightharpoonup> u8), unit) hardware" where
  "line_hw = sim_hw\<lparr>hw_uart := line_uart\<rparr>"

definition line_ready :: "(nat \<times> u8 list, 'n, 'c, 'b) app \<Rightarrow> u8 list \<Rightarrow> bool" where
  "line_ready a script \<longleftrightarrow> k_io (ap_kds a) = (5, script) \<and> ap_ota a = None \<and> ap_ble a = None \<and> ap_web a = None
     \<and> o_state (ap_ota_status a) = Idle \<and> ap_fail_until a = None \<and> \<not> ap_button_down a
     \<and> ap_brightness a < length BRIGHTNESS_STEPS \<and> \<not> ap_neutral_was a \<and> ap_last_save a = 5 \<and> ap_self_test_done a \<and> ap_boot a = 5
     \<and> pred_option (\<lambda>(r, t). t = 5) (ap_prev_rpm a)"

lemma line_hw_simps [simp]:
  "hw_uart line_hw = line_uart" "hw_neutral_low line_hw s = False" "hw_button_low line_hw s = False"
  "hw_led line_hw fr s = (True, s)" "hw_build line_hw = shipped_build" "hw_nvs line_hw = map_flash"
  by (simp_all add: line_hw_def sim_hw_def)

lemma line_clock [simp]: "line_ready a s \<Longrightarrow> clock line_hw a = 5"
  by (simp add: line_ready_def clock_def line_now)

lemma line_fields:
  assumes "line_ready a s"
  shows "k_io (ap_kds a) = (5, s)" "ap_ota a = None" "ap_ble a = None" "ap_web a = None"
    "\<not> writing (o_state (ap_ota_status a))" "ap_fail_until a = None" "ap_button_down a = False"
    "ap_brightness a < length BRIGHTNESS_STEPS" "ap_neutral_was a = False" "ap_last_save a = 5"
    "ap_self_test_done a" "ap_boot a = 5"
  using assms by (simp_all add: line_ready_def writing_def)

lemma line_flags [simp]:
  "line_ready (a\<lparr>ap_ota_was_busy := f\<rparr>) s = line_ready a s"
  by (simp add: line_ready_def)

lemma line_calm:
  assumes "line_ready a s"
  shows "mirror_ota line_hw t a = Go a" "busy_step line_hw t a = Go (a\<lparr>ap_ota_was_busy := False\<rparr>)"
    "fail_step line_hw a = Go a" "boot_check line_hw a = a" "self_test line_hw t a = a"
    "handle_ble_commands line_hw t a = Go a" "button_step line_hw t a = a" "deep_step line_hw a = Go a"
    "clock line_hw a = 5"
proof -
  note f = line_fields [OF assms]
  have c: "elapsed line_hw (ap_boot a) a = 0" by (simp add: elapsed_def clock_def line_now f)
  show "mirror_ota line_hw t a = Go a" by (simp add: mirror_ota_def f)
  show "busy_step line_hw t a = Go (a\<lparr>ap_ota_was_busy := False\<rparr>)" by (simp add: busy_step_def f)
  show "fail_step line_hw a = Go a" by (simp add: fail_step_def f)
  show "boot_check line_hw a = a" by (simp add: boot_check_def c BOOT_CHECK_DELAY_def)
  show "self_test line_hw t a = a" by (simp add: self_test_def f)
  show "handle_ble_commands line_hw t a = Go a" by (simp add: handle_ble_commands_def f)
  show "button_step line_hw t a = a" using f by (cases a) (simp add: button_step_def Let_def)
  show "deep_step line_hw a = Go a" by (simp add: deep_step_def shipped_build_def DEEP_SCAN_def)
  show "clock line_hw a = 5" by (simp add: clock_def line_now f)
qed

lemma line_approach:
  assumes "line_ready a s"
  shows "approach line_hw a = seq (reconnect_step line_hw (a\<lparr>ap_ota_was_busy := False\<rparr>)) (deep_step line_hw)"
proof -
  have a1: "line_ready (a\<lparr>ap_ota_was_busy := False\<rparr>) s" using assms by simp
  show ?thesis
    by (simp add: approach_def Let_def line_calm(1,2) [OF assms] line_calm(3-7) [OF a1])
qed

lemma line_goes:
  assumes "line_ready a s" "k_connected (ap_kds a)"
  shows "approach line_hw a = Go (a\<lparr>ap_ota_was_busy := False\<rparr>)"
  using assms line_calm(8) [of "a\<lparr>ap_ota_was_busy := False\<rparr>" s] by (simp add: line_approach [OF assms(1)] reconnect_step_def)

lemma line_goes_online:
  assumes "line_ready a (line_start @ s)" "\<not> k_connected (ap_kds a)" "ap_last_reconnect a = 5 - RECONNECT_INTERVAL"
  shows "\<exists>x. approach line_hw a = Go x \<and> line_ready x s \<and> k_connected (ap_kds x) \<and> ap_est x = ap_est a \<and> ap_cycle x = ap_cycle a"
proof -
  let ?x = "a\<lparr>ap_ota_was_busy := False, ap_last_reconnect := 5, ap_kds := \<lparr>k_io = (5, s), k_connected = True, k_last_activity = Some 5\<rparr>\<rparr>"
  have k: "start_communication line_uart (ap_kds a) = Some (True, \<lparr>k_io = (5, s), k_connected = True, k_last_activity = Some 5\<rparr>)"
    using line_connects [of 5 s "k_connected (ap_kds a)" "k_last_activity (ap_kds a)"] line_fields(1) [OF assms(1)]
    by (cases "ap_kds a") simp
  have "line_ready ?x s" using assms(1) by (simp add: line_ready_def)
  moreover have "reconnect_step line_hw (a\<lparr>ap_ota_was_busy := False\<rparr>) = Go ?x"
    using assms line_fields(1) [OF assms(1)] k by (simp add: reconnect_step_def elapsed_def clock_def line_now RECONNECT_INTERVAL_def)
  ultimately show ?thesis using line_calm(8) [of ?x s] by (simp add: line_approach [OF assms(1)])
qed

definition line_reading :: readings where
  "line_reading = \<lparr>rd_rpm = decode_rpm [0x3E, 0x80], rd_speed = decode_speed [0x28],
     rd_aligned = decode_rpm [0x3E, 0x80], rd_link_up = True\<rparr>"

definition line_inputs :: gear_inputs where
  "line_inputs = \<lparr>rpm = rd_aligned line_reading, speed = rd_speed line_reading, gear_reg = None,
     neutral_switch = False, clutch_pulled = False\<rparr>"

lemma line_align: "pred_option (\<lambda>(r, t). t = 5) prev \<Longrightarrow> align (Some r) prev (Some s) 5 5 = Some (Some r)"
proof -
  have "\<not> dec 10 1 \<le> f32_of_int 0" by code_simp
  then show "pred_option (\<lambda>(r, t). t = 5) prev \<Longrightarrow> ?thesis"
    by (cases prev) (auto simp: align_def millis_def time_align_rpm_def)
qed

lemma line_tick: "line_ready a s \<Longrightarrow> neutral_tick line_hw up br a = a"
  using line_fields(9) [of a s] by (simp add: neutral_tick_def neutral_low_def)

lemma line_polls:
  assumes "line_ready a (line_rpm @ line_speed @ (if ap_cycle a mod 8 = 0 then line_interlock else []) @ s)" "k_connected (ap_kds a)"
  shows "\<exists>x. poll line_hw t a = Some (line_reading, x) \<and> line_ready x s \<and> k_connected (ap_kds x)
    \<and> ap_est x = ap_est a \<and> ap_cycle x = ap_cycle a"
proof -
  note f = line_fields [OF assms(1)]
  let ?il = "if ap_cycle a mod 8 = 0 then line_interlock else []"
  let ?k = "\<lambda>rest. \<lparr>k_io = (5, rest), k_connected = True, k_last_activity = Some 5\<rparr>"
  let ?a1 = "a\<lparr>ap_kds := ?k (line_speed @ ?il @ s)\<rparr>"
  let ?a3 = "a\<lparr>ap_kds := ?k (?il @ s)\<rparr>"
  obtain r where r: "decode_rpm [0x3E, 0x80] = Some r" by simp
  obtain sp where sp: "decode_speed [0x28] = Some sp" by simp
  let ?a4 = "?a3\<lparr>ap_prev_rpm := Some (r, 5)\<rparr>"
  have ready: "line_ready ?a1 (line_speed @ ?il @ s)" "line_ready ?a3 (?il @ s)" "line_ready ?a4 (?il @ s)"
    using assms(1) by (simp_all add: line_ready_def)
  have 1: "read_rpm line_uart (ap_kds a) = Some (Some r, ?k (line_speed @ ?il @ s))"
    using line_reads(1) [OF assms(2)] f(1) r by simp
  have 2: "read_speed line_uart (ap_kds ?a1) = Some (Some sp, ?k (?il @ s))"
    using line_reads(2) [of "ap_kds ?a1" 5 "?il @ s"] sp by simp
  have 3: "align (Some r) (ap_prev_rpm a) (Some sp) 5 5 = Some (Some r)"
    using assms(1) by (intro line_align) (simp add: line_ready_def)
  obtain a5 where a5: "interlock_step line_hw ?a4 = Some a5" "line_ready a5 s" "k_connected (ap_kds a5)" "ap_est a5 = ap_est a" "ap_cycle a5 = ap_cycle a"
  proof (cases "ap_cycle a mod 8 = 0")
    case True
    then show ?thesis using line_reads(3) [of "ap_kds ?a4" 5 s] ready(3)
      by (intro that [of "?a4\<lparr>ap_kds := ?k s, ap_interlock := Some True\<rparr>"])
        (simp_all add: interlock_step_def INTERLOCK_EVERY_N_CYCLES_def line_ready_def)
  next
    case False
    then show ?thesis using ready(3) by (intro that [of ?a4]) (simp_all add: interlock_step_def INTERLOCK_EVERY_N_CYCLES_def line_ready_def)
  qed
  let ?x = "learn_step line_hw (Some r) (Some sp) a5"
  have x: "line_ready ?x s" "k_connected (ap_kds ?x)" "ap_est ?x = ap_est a" "ap_cycle ?x = ap_cycle a"
    using a5 by (simp_all add: learn_step_def line_ready_def)
  obtain br where br: "brightness a = Some br" using f(8) by (simp add: brightness_def)
  have "poll line_hw t a = Some (line_reading, ?x)"
    using assms(2) 2 3 a5(1) r sp
    by (simp add: poll_def Let_def shipped_build_def DIAG_SCAN_def br 1 line_tick [OF ready(1)] line_tick [OF ready(2)] line_tick [OF ready(3)]
        line_calm(9) [OF ready(1)] line_calm(9) [OF ready(2)] line_reading_def)
  then show ?thesis using x by blast
qed

text \<open>What the rest of an iteration leaves as it is on this board.\<close>

abbreviation line_same :: "(nat \<times> u8 list, 'n, 'c, 'b) app \<Rightarrow> (nat \<times> u8 list, 'n, 'c, 'b) app \<Rightarrow> u8 list \<Rightarrow> bool" where
  "line_same a x s \<equiv> line_ready x s \<and> k_connected (ap_kds x) = k_connected (ap_kds a) \<and> ap_cycle x = ap_cycle a"

lemma line_shows:
  assumes "line_ready a s"
  shows "\<exists>x. display_step line_hw line_reading (forget_learned a) = Some (cur_gear (ap_est x), False, line_reading, x)
    \<and> line_same a x s \<and> ap_est x = fst (update (ap_est a) line_inputs)"
proof -
  let ?f = "forget_learned a"
  have f: "line_same a ?f s" "ap_est ?f = ap_est a"
    using assms by (simp_all add: forget_learned_def line_ready_def)
  obtain e g where u: "update (ap_est a) line_inputs = (e, g)" by fastforce
  let ?a1 = "?f\<lparr>ap_neutral_was := False, ap_est := e\<rparr>"
  have a1: "line_same a ?a1 s" using f(1) by (simp add: line_ready_def)
  obtain br where br: "brightness ?a1 = Some br" using line_fields(8) [of ?a1 s] a1 by (simp add: brightness_def)
  have r: "line_same b (refresh_frame line_hw fr b) s \<and> ap_est (refresh_frame line_hw fr b) = ap_est b"
    if "line_ready b s" for fr and b :: "line_app"
    using that by (simp add: refresh_frame_def led_send_def set_io_def line_ready_def)
  have g: "g = cur_gear e" using u by (auto simp: update_def switch_neutral_def Let_def split: prod.splits if_splits)
  show ?thesis
    using u f(2) r [of ?a1] a1
    by (auto simp: display_step_def Let_def neutral_low_def shipped_build_def DEMO_MODE_def br
        line_inputs_def g)
qed

lemma line_rides:
  assumes "line_ready a (line_rpm @ line_speed @ (if ap_cycle a mod 8 = 0 then line_interlock else []) @ s)" "k_connected (ap_kds a)"
  shows "\<exists>x y. ride_steps line_hw t a = Go x \<and> line_ready x s \<and> k_connected (ap_kds x) \<and> ap_cycle x = ap_cycle a + 1
    \<and> ap_est x = fst (update (ap_est a) line_inputs) \<and> poll line_hw t a = Some (line_reading, y)
    \<and> persist_step line_hw y = Go y \<and> ap_est y = ap_est a"
proof -
  obtain a1 where p: "poll line_hw t a = Some (line_reading, a1)" "line_ready a1 s" "k_connected (ap_kds a1)"
    "ap_est a1 = ap_est a" "ap_cycle a1 = ap_cycle a" using line_polls [OF assms] by blast
  have "persist_step line_hw a1 = Go a1"
    using line_calm(9) [OF p(2)] line_fields(10) [OF p(2)] by (simp add: persist_step_def elapsed_def LEARN_SAVE_INTERVAL_def)
  moreover obtain a3 where d: "display_step line_hw line_reading (forget_learned a1) = Some (cur_gear (ap_est a3), False, line_reading, a3)"
    "line_same a1 a3 s" "ap_est a3 = fst (update (ap_est a1) line_inputs)" using line_shows [OF p(2)] by blast
  moreover have "web_step line_hw line_reading g a3 = a3" for g using line_fields(4) [of a3 s] d(2) by (simp add: web_step_def)
  moreover obtain a4 where "telemetry line_hw t line_reading g False a3 = Go a4" "line_same a3 a4 s" "ap_est a4 = ap_est a3"
    if "g = cur_gear (ap_est a3)" for g
  proof -
    have "ap_ble (link_event True t a3) = None" "line_same a3 (link_event True t a3) s" "ap_est (link_event True t a3) = ap_est a3"
      using d(2) by (simp_all add: link_event_def push_event_def line_ready_def)
    then show thesis by (intro that [of "link_event True t a3"]) (simp_all add: telemetry_def line_reading_def)
  qed
  moreover have "line_ready (end_cycle line_hw b) s = line_ready b s" "ap_est (end_cycle line_hw b) = ap_est b"
    "k_connected (ap_kds (end_cycle line_hw b)) = k_connected (ap_kds b)" "ap_cycle (end_cycle line_hw b) = ap_cycle b + 1"
    for b :: "line_app"
    by (simp_all add: end_cycle_def delay_def set_io_def line_uart_def line_ready_def)
  moreover have "line_reading\<lparr>rd_link_up := False \<or> rd_link_up line_reading\<rparr> = line_reading" by (simp add: line_reading_def)
  ultimately show ?thesis using p
    by (simp add: ride_steps_def scan_step_def shipped_build_def DIAG_SCAN_def)
qed

definition fresh_hist :: ratio_histogram where
  "fresh_hist = fst (debug_mark new_hist)"

lemma fresh_no_peaks: "peaks fresh_hist = []"
proof -
  have h: "h_at fresh_hist j = (if j = 0 then 1 else 0)" for j
    by (auto simp: h_at_def fresh_hist_def debug_mark_def new_hist_def BINS_def nth_list_update word_le_def)
  have "\<not> is_peak fresh_hist i" for i
  proof (cases "i \<in> set [- 1, 0, 1]")
    case True
    then show ?thesis by (auto simp: is_peak_def smooth_def mass_at_def h MIN_PEAK_MASS_def word_le_def)
  next
    case False
    then have "smooth fresh_hist i = 0" by (auto simp: smooth_def h)
    then show ?thesis by (auto simp: is_peak_def)
  qed
  then show ?thesis by (simp add: peaks_def raw_peaks_def)
qed

definition line_est :: estimator where
  "line_est = new_estimator\<lparr>bands := Some (FACTORY_BANDS, NUM_GEARS)\<rparr>"

definition line_script :: "u8 list" where
  "line_script = line_start @ (line_rpm @ line_speed @ line_interlock) @ line_rpm @ line_speed"

abbreviation line_init :: "line_app ctl" where
  "line_init \<equiv> app_init line_hw (5, line_script) Map.empty 1 (Map.empty, Map.empty) None None None"

lemma line_init_goes:
  "\<exists>a. line_init = Go a \<and> line_ready a line_script \<and> \<not> k_connected (ap_kds a)
     \<and> ap_last_reconnect a = 5 - RECONNECT_INTERVAL \<and> ap_cycle a = 0 \<and> ap_est a = line_est"
proof -
  have l: "ln_hist (learner_new map_flash Map.empty 1) = fresh_hist"
    by (simp add: learner_new_def fresh_hist_def load_hist_def map_flash_def case_prod_beta)
  have none: "bands_spec FACTORY_BANDS [] = None" by code_simp
  have d: "derive_and_install a = Go a" if "ap_learner a = learner_new map_flash Map.empty 1" for a :: "line_app"
    by (simp add: derive_and_install_def learner_derive_def that l derive_spec [OF factory_good(1,2)] fresh_no_peaks none)
  have o: "o_state default_ota = Idle" by (simp add: default_ota_def)
  show ?thesis
    by (simp add: app_init_def Let_def set_bands_def NUM_GEARS_def d boot_slot_def line_ready_def kds_new_def line_now
        line_est_def o BRIGHTNESS_STEPS_def min_less_iff_disj)
qed

lemma line_digit:
  "cur_gear (fst (update line_est line_inputs)) = Unknown"
  "cur_gear (fst (update (fst (update line_est line_inputs)) line_inputs)) = G 3"
  by code_simp+

end
