(* ===== verification/Calibration.thy ===== *)
theory Calibration
  imports Line_Board
begin

text \<open>
  The calibration from a ride to the display: the learner, the estimator's bands, and the digit,
  over any run of the main loop. The bands in force never leave the neighbourhood of the factory's,
  whatever the flash held at start-up; a digit that appears is backed by the readings of that
  iteration and such a band; and what a clean learner knows is what the next boot works with.
\<close>

section \<open>Bands that stay with their gears\<close>

definition near_factory :: "f32 list \<Rightarrow> nat \<Rightarrow> bool" where
  "near_factory bs i \<longleftrightarrow> rel_err (bs ! i) (FACTORY_BANDS ! i) \<le> ANCHOR_TOL"

definition trusted :: "estimator \<Rightarrow> bool" where
  "trusted e \<longleftrightarrow> (case bands e of None \<Rightarrow> True
     | Some (bs, n) \<Rightarrow> n = NUM_GEARS \<and> length bs = NUM_GEARS \<and> (\<forall>i<NUM_GEARS. near_factory bs i))"

lemma factory_near: "i < NUM_GEARS \<Longrightarrow> near_factory FACTORY_BANDS i"
proof -
  have "list_all (near_factory FACTORY_BANDS) [0..<NUM_GEARS]" by code_simp
  then show "i < NUM_GEARS \<Longrightarrow> near_factory FACTORY_BANDS i" by (simp add: list_all_iff)
qed

lemma peak_near:
  assumes "(r, m) \<in> set (peaks h)" "i < NUM_GEARS" "\<not> ANCHOR_TOL < rel_err r (FACTORY_BANDS ! i)"
  shows "rel_err r (FACTORY_BANDS ! i) \<le> ANCHOR_TOL"
proof -
  have "bounded 178 r" using peak_raw [OF assms(1)] centroid_bounded by auto
  moreover have "good_ref (FACTORY_BANDS ! i)"
    using factory_good(1,2) assms(2) by (simp add: list_all_length)
  ultimately have "\<not> is_nan (rel_err r (FACTORY_BANDS ! i))" unfolding rel_err_def by (rule rel_err_not_nan)
  moreover have "\<not> is_nan ANCHOR_TOL" by code_simp
  ultimately show ?thesis using assms(3) f32_not_less by blast
qed

lemma derived_near:
  assumes "derive_bands h FACTORY_BANDS = Some (Some (bs, n))"
  shows "length bs = NUM_GEARS" "i < NUM_GEARS \<Longrightarrow> near_factory bs i"
proof -
  note d = derived_band_stays_with_gear [OF assms]
  show "length bs = NUM_GEARS" using d [of 0] by (simp add: NUM_GEARS_def)
  show "near_factory bs i" if "i < NUM_GEARS"
    using d [OF that] that factory_near [OF that] peak_near [of "bs ! i"] by (auto simp: near_factory_def)
qed

section \<open>What the iteration does to learner and estimator\<close>

text \<open>The flash is trusted only where it keeps its promise.\<close>

definition cal_ok :: "('s, 'n, 'c, 'b) hardware \<Rightarrow> ('s, 'n, 'c, 'b) app \<Rightarrow> bool" where
  "cal_ok hw a \<longleftrightarrow> (nvs_lawful (hw_nvs hw) \<longrightarrow> learner_inv (hw_nvs hw) (ap_learner a)) \<and> trusted (ap_est a)"

definition calib :: "('s, 'n, 'c, 'b) app \<Rightarrow> 'n learner \<times> estimator" where
  "calib a = (ap_learner a, ap_est a)"

lemma calib_fields [simp]:
  "calib (a\<lparr>ap_kds := k\<rparr>) = calib a" "calib (a\<lparr>ap_ota := lk\<rparr>) = calib a" "calib (a\<lparr>ap_ble := b\<rparr>) = calib a"
  "calib (a\<lparr>ap_config := c\<rparr>) = calib a" "calib (a\<lparr>ap_learned := n\<rparr>) = calib a"
  "calib (a\<lparr>ap_brightness := n\<rparr>) = calib a" "calib (a\<lparr>ap_boot_check_done := f\<rparr>) = calib a"
  "calib (a\<lparr>ap_self_test_done := f\<rparr>) = calib a"
  "calib (a\<lparr>ap_events := ev\<rparr>) = calib a" "calib (a\<lparr>ap_ota_was_busy := f\<rparr>) = calib a"
  "calib (a\<lparr>ap_ota_status := o'\<rparr>) = calib a" "calib (a\<lparr>ap_wifi_status := w\<rparr>) = calib a"
  "calib (a\<lparr>ap_fail_until := fu\<rparr>) = calib a" "calib (a\<lparr>ap_last_frame := fr\<rparr>) = calib a"
  "calib (a\<lparr>ap_button_at := t\<rparr>) = calib a" "calib (a\<lparr>ap_button_down := f\<rparr>) = calib a"
  "calib (a\<lparr>ap_last_reconnect := t\<rparr>) = calib a" "calib (a\<lparr>ap_prev_rpm := pr\<rparr>) = calib a"
  "calib (a\<lparr>ap_interlock := i\<rparr>) = calib a" "calib (a\<lparr>ap_last_save := t\<rparr>) = calib a"
  "calib (a\<lparr>ap_flash_until := t\<rparr>) = calib a" "calib (a\<lparr>ap_neutral_was := f\<rparr>) = calib a"
  "calib (a\<lparr>ap_link_was_up := f\<rparr>) = calib a" "calib (a\<lparr>ap_last_publish := t\<rparr>) = calib a"
  "calib (a\<lparr>ap_published := p\<rparr>) = calib a" "calib (a\<lparr>ap_cycle := c'\<rparr>) = calib a"
  "calib (a\<lparr>ap_web := wb\<rparr>) = calib a" "calib (a\<lparr>ap_regs := rg\<rparr>) = calib a"
  "calib (a\<lparr>ap_deep := dp\<rparr>) = calib a"
  by (simp_all add: calib_def)

lemma calib_steps [simp]:
  "calib (set_io s a) = calib a" "calib (delay hw n a) = calib a" "calib (push_event t e a) = calib a"
  "calib (upd_config f a) = calib a" "calib (request r a) = calib a" "calib (upd_link g a) = calib a"
  "calib (snd (led_send hw fr a)) = calib a"
  by (simp_all add: set_io_def delay_def push_event_def upd_config_def request_def upd_link_def
      led_send_def case_prod_beta)

lemma calib_more [simp]:
  "calib (show_frame hw fr a) = calib a" "calib (refresh_frame hw fr a) = calib a"
  "calib (forget_learned a) = calib a" "calib (link_event up t a) = calib a" "calib (end_cycle hw a) = calib a"
  "calib (note_ota_change tn t o' a) = calib a" "calib (note_wifi_change t w a) = calib a"
  "calib (boot_check hw a) = calib a" "calib (self_test hw t a) = calib a" "calib (note_moving rd a) = calib a"
  "calib (on_credentials hw t wc a) = calib a"
  by (auto simp: show_frame_def refresh_frame_def forget_learned_def link_event_def end_cycle_def
      note_ota_change_def note_wifi_change_def boot_check_def self_test_def note_moving_def
      on_credentials_def Let_def case_prod_beta split: option.split)

lemma calib_credentials [simp]: "calib (foldl (\<lambda>a w. on_credentials hw t w a) a ws) = calib a"
  by (induction ws arbitrary: a) simp_all

lemma calib_ctl:
  "leaves calib (calib a) (mirror_ota hw t a)" "leaves calib (calib a) (fail_step hw a)"
  "leaves calib (calib a) (reconnect_step hw a)" "leaves calib (calib a) (deep_step hw a)"
  "leaves calib (calib a) (telemetry hw t rd g low a)"
  by (auto simp: mirror_ota_def fail_step_def reconnect_step_def deep_step_def telemetry_def
      slow_publish_def Let_def case_prod_beta split: option.split)

lemma calib_scan: "scan_step hw a = Some (link, x) \<Longrightarrow> calib x = calib a"
  by (auto simp: scan_step_def Let_def split: if_splits option.splits)

lemma cal_core: "calib x = calib a \<Longrightarrow> cal_ok hw x = cal_ok hw a"
  by (simp add: calib_def cal_ok_def)

lemmas cal_same [simp] = calib_fields [THEN cal_core] calib_steps [THEN cal_core] calib_more [THEN cal_core]
  calib_credentials [THEN cal_core]

text \<open>What the learner and the estimator go through.\<close>

lemma cal_learner: "cal_ok hw a \<Longrightarrow> cal_ok hw (a\<lparr>ap_learner := learner_step (hw_nvs hw) (ap_learner a) e\<rparr>)"
  by (simp add: cal_ok_def learner_inv_step)

lemma cal_est: "cal_ok hw a \<Longrightarrow> trusted e \<Longrightarrow> cal_ok hw (a\<lparr>ap_est := e\<rparr>)"
  by (simp add: cal_ok_def)

lemma trusted_update [simp]: "trusted (fst (update e i)) = trusted e"
  by (simp add: trusted_def)

lemma cal_save [inv_intros]: "cal_ok hw a \<Longrightarrow> cal_ok hw (snd (save_learner hw a))"
  using cal_learner [of hw a "LSave (hw_free_heap hw (k_io (ap_kds a)))"]
  by (simp add: save_learner_def case_prod_beta)

lemma cal_wipe [inv_intros]: "cal_ok hw a \<Longrightarrow> cal_ok hw (wipe_calibration hw a)"
  using cal_learner [of hw a "LClear (hw_free_heap hw (k_io (ap_kds a)))"]
  by (simp add: wipe_calibration_def cal_ok_def trusted_def clear_bands_def)

lemma cal_clear_box: "cal_ok hw a \<Longrightarrow> cal_ok hw (a\<lparr>ap_learner := learner_clear_black_box (hw_nvs hw) (ap_learner a)\<rparr>)"
  using cal_learner [of hw a LClearBox] by simp

lemma cal_drop [inv_intros]: "cal_ok hw a \<Longrightarrow> cal_ok hw (drop_link hw t a)"
proof -
  let ?a = "a\<lparr>ap_kds := (ap_kds a)\<lparr>k_connected := False\<rparr>, ap_interlock := None, ap_prev_rpm := None\<rparr>"
  assume "cal_ok hw a"
  then have "cal_ok hw ?a" by simp
  from cal_learner [OF this, of LDrop] show ?thesis by (simp add: drop_link_def cal_save)
qed

lemma cal_learn [inv_intros]: "cal_ok hw a \<Longrightarrow> cal_ok hw (learn_step hw al so a)"
  using cal_learner [of hw a "LAdd r s False (neutral_low hw a)" for r s]
  by (simp add: learn_step_def split: option.split)

lemma cal_interlock: "interlock_step hw a = Some x \<Longrightarrow> cal_ok hw a \<Longrightarrow> cal_ok hw x"
proof -
  have "cal_ok hw (a\<lparr>ap_kds := k, ap_learner := note_interlock_odd raw (ap_learner a)\<rparr>)"
    if "cal_ok hw a" for raw k using cal_learner [of hw "a\<lparr>ap_kds := k\<rparr>" "LOdd raw"] that by simp
  then show "interlock_step hw a = Some x \<Longrightarrow> cal_ok hw a \<Longrightarrow> cal_ok hw x"
    by (cases "fst (the (read_interlock (hw_uart hw) (ap_kds a)))")
      (auto simp: interlock_step_def split: if_splits)
qed

lemma cal_tick [inv_intros]: "cal_ok hw a \<Longrightarrow> cal_ok hw (neutral_tick hw up br a)"
  by (auto simp: neutral_tick_def Let_def case_prod_beta intro!: cal_est) (simp_all add: cal_ok_def)

lemma cal_poll: "poll hw t a = Some (rd, x) \<Longrightarrow> cal_ok hw a \<Longrightarrow> cal_ok hw x"
  by (auto simp: poll_def Let_def bind_eq_Some_conv intro!: inv_intros dest!: cal_interlock split: if_splits)

lemma cal_display: "display_step hw rd a = Some (g, low, rd1, x) \<Longrightarrow> cal_ok hw a \<Longrightarrow> cal_ok hw x"
  by (auto simp: display_step_def Let_def case_prod_beta intro!: cal_est split: option.splits if_splits)
    (simp_all add: cal_ok_def)

lemma cal_derive: "cal_ok hw a \<Longrightarrow> lands (cal_ok hw) (derive_and_install a)"
proof -
  assume a: "cal_ok hw a"
  note d = derive_spec [OF factory_good(1,2), of "ln_hist (ap_learner a)"]
  show ?thesis
  proof (cases "bands_spec FACTORY_BANDS (peaks (ln_hist (ap_learner a)))")
    case (Some p)
    then obtain bs n where "derive_bands (ln_hist (ap_learner a)) FACTORY_BANDS = Some (Some (bs, n))"
      using d by (cases p) simp
    from derived_near [OF this] this a show ?thesis
      by (simp add: derive_and_install_def learner_derive_def set_bands_def NUM_GEARS_def cal_ok_def trusted_def)
  qed (simp add: derive_and_install_def learner_derive_def d a)
qed

lemma cal_persist: "cal_ok hw a \<Longrightarrow> lands (cal_ok hw) (persist_step hw a)"
proof -
  assume a: "cal_ok hw a"
  obtain ok a1 where s: "save_learner hw (a\<lparr>ap_last_save := clock hw a\<rparr>) = (ok, a1)" by fastforce
  have "cal_ok hw a1" using cal_save [of hw "a\<lparr>ap_last_save := clock hw a\<rparr>"] a s by simp
  then show ?thesis using a by (cases ok) (simp_all add: persist_step_def s cal_derive)
qed

lemma cal_command: "cal_ok hw a \<Longrightarrow> lands (cal_ok hw) (on_command hw t c a)"
  by (cases c) (auto simp: on_command_def Let_def intro!: cal_wipe cal_save cal_clear_box)

lemma cal_commands: "cal_ok hw a \<Longrightarrow> lands (cal_ok hw) (on_commands hw t cs a)"
  by (induction cs arbitrary: a) (auto intro!: lands_seq cal_command)

lemma cal_handle: "cal_ok hw a \<Longrightarrow> lands (cal_ok hw) (handle_ble_commands hw t a)"
  by (simp add: handle_ble_commands_def Let_def cal_commands split: option.split)

lemma cal_leaves: "leaves calib (calib a) q \<Longrightarrow> guar (\<lambda>a x. cal_ok hw a \<longrightarrow> cal_ok hw x) a q"
  by (cases q) (simp_all add: cal_ok_def calib_def)

text \<open>Every step keeps the calibration in order, so the iteration does.\<close>

interpretation calibrating: step_relation hw "\<lambda>a x. cal_ok hw a \<longrightarrow> cal_ok hw x" for hw :: "('s, 'n, 'c, 'b) hardware"
proof
  fix a x :: "('s, 'n, 'c, 'b) app" and t rd g low link rd1 n fr f
  show "transp (\<lambda>a (x :: ('s, 'n, 'c, 'b) app). cal_ok hw a \<longrightarrow> cal_ok hw x)" by (auto intro: transpI)
  show "guar (\<lambda>a x. cal_ok hw a \<longrightarrow> cal_ok hw x) a (handle_ble_commands hw t a)"
    "guar (\<lambda>a x. cal_ok hw a \<longrightarrow> cal_ok hw x) a (persist_step hw a)"
    by (rule guar_only_if, simp add: guar_def cal_handle cal_persist)+
  show "cal_ok hw a \<longrightarrow> cal_ok hw (pause_polling hw a)"
    by (simp add: pause_polling_def cal_save)
  show "cal_ok hw a \<longrightarrow> cal_ok hw (button_step hw t a)"
    by (auto simp: button_step_def Let_def intro!: cal_wipe)
  show "cal_ok hw a \<longrightarrow> cal_ok hw (web_step hw rd g a)"
    by (auto simp: web_step_def Let_def cal_wipe split: option.split)
  show "scan_step hw a = Some (link, x) \<Longrightarrow> cal_ok hw a \<longrightarrow> cal_ok hw x" using calib_scan cal_core by blast
  show "poll hw t a = Some (rd, x) \<Longrightarrow> cal_ok hw a \<longrightarrow> cal_ok hw x"
    "display_step hw rd a = Some (g, low, rd1, x) \<Longrightarrow> cal_ok hw a \<longrightarrow> cal_ok hw x"
    using cal_poll cal_display by blast+
  show "guar (\<lambda>a x. cal_ok hw a \<longrightarrow> cal_ok hw x) a (mirror_ota hw t a)"
    "guar (\<lambda>a x. cal_ok hw a \<longrightarrow> cal_ok hw x) a (fail_step hw a)"
    "guar (\<lambda>a x. cal_ok hw a \<longrightarrow> cal_ok hw x) a (reconnect_step hw a)"
    "guar (\<lambda>a x. cal_ok hw a \<longrightarrow> cal_ok hw x) a (deep_step hw a)"
    "guar (\<lambda>a x. cal_ok hw a \<longrightarrow> cal_ok hw x) a (telemetry hw t rd g low a)"
    by (rule cal_leaves [OF calib_ctl(1)] cal_leaves [OF calib_ctl(2)] cal_leaves [OF calib_ctl(3)]
        cal_leaves [OF calib_ctl(4)] cal_leaves [OF calib_ctl(5)])+
qed simp_all

section \<open>Where a digit comes from\<close>






text \<open>Up to the reading no gear changes, and the ticks during it show no new digit.\<close>

definition shown_gear :: "('s, 'n, 'c, 'b) app \<Rightarrow> gear" where
  "shown_gear a = cur_gear (ap_est a)"

lemma shown_core: "calib x = calib a \<Longrightarrow> shown_gear x = shown_gear a"
  by (simp add: calib_def shown_gear_def)


lemmas shown_same [simp] = calib_fields [THEN shown_core] calib_steps [THEN shown_core]
  calib_more [THEN shown_core] calib_credentials [THEN shown_core]


















section \<open>Over runs\<close>

lemma calib_event: "v \<noteq> Iterate \<Longrightarrow> leaves calib (calib a) (main_step hw a v)"
  by (cases v) simp_all

lemma cal_next: "guar (\<lambda>a x. cal_ok hw a \<longrightarrow> cal_ok hw x) a (main_step hw a v)"
proof (cases "v = Iterate")
  case True
  then show ?thesis by (simp add: calibrating.iteration)
next
  case False
  then show ?thesis using calib_event [of v a hw] by (cases "main_step hw a v") (simp_all add: cal_ok_def calib_def)
qed

lemma cal_init: "lands (cal_ok hw) (app_init hw s n reason c ble ota web)"
proof -
  have "trusted (new_estimator\<lparr>bands := Some (FACTORY_BANDS, NUM_GEARS)\<rparr>)"
    using factory_near factory_good(2) by (simp add: trusted_def)
  then show ?thesis
    by (auto simp: app_init_def Let_def set_bands_def NUM_GEARS_def intro!: cal_derive)
      (simp_all add: cal_ok_def learner_inv_new NUM_GEARS_def)
qed

text \<open>Whatever happens after start-up, and whatever the flash held: the invariant of the calibration.\<close>

definition ends_ok :: "('x \<Rightarrow> bool) \<Rightarrow> 'x ctl \<Rightarrow> bool" where
  "ends_ok P q \<longleftrightarrow> q = Stuck \<or> lands P q"

interpretation rides: machine "app_init hw s n reason c ble ota web" "main_next hw" "\<lambda>_. True" "ends_ok (cal_ok hw)"
  for hw :: "('s, 'n, 'c, 'b) hardware" and s n reason c ble ota web
proof
  show "ends_ok (cal_ok hw) (app_init hw s n reason c ble ota web)" by (simp add: ends_ok_def cal_init)
  show "ends_ok (cal_ok hw) (main_next hw q v)" if "ends_ok (cal_ok hw) q" "True" for q v
  proof -
    have "ends_ok (cal_ok hw) (main_step hw a v)" if "cal_ok hw a" for a
      using that cal_next [of hw a v] by (simp add: ends_ok_def guar_def)
    then show ?thesis using that(1) by (cases q) (simp_all add: ends_ok_def main_next_def)
  qed
qed


section \<open>Across a restart\<close>

text \<open>What start-up makes of a histogram: the bands in force, and the number of gears learned.\<close>

definition working_bands :: "ratio_histogram \<Rightarrow> f32 list \<times> nat" where
  "working_bands h = (case bands_spec FACTORY_BANDS (peaks h) of Some p \<Rightarrow> p | None \<Rightarrow> (FACTORY_BANDS, 0))"

lemma derive_installs:
  "\<exists>b. derive_and_install a = Go b \<and> ap_learner b = ap_learner a \<and> ap_last_save b = ap_last_save a
     \<and> (case bands_spec FACTORY_BANDS (peaks (ln_hist (ap_learner a))) of
          None \<Rightarrow> b = a
        | Some (bs, n) \<Rightarrow> bands (ap_est b) = Some (bs, NUM_GEARS) \<and> ap_learned b = n)"
  using derive_spec [OF factory_good(1,2), of "ln_hist (ap_learner a)"]
  by (simp add: derive_and_install_def learner_derive_def set_bands_def NUM_GEARS_def split: option.split prod.split)

lemma boot_bands:
  "\<exists>b. app_init hw s n reason c ble ota web = Go b \<and> ap_learner b = learner_new (hw_nvs hw) n reason
     \<and> bands (ap_est b) = Some (fst (working_bands (ln_hist (ap_learner b))), NUM_GEARS)
     \<and> ap_learned b = snd (working_bands (ln_hist (ap_learner b))) \<and> ap_last_save b = int (now (hw_uart hw) s)"
proof -
  obtain a where a: "app_init hw s n reason c ble ota web = derive_and_install a"
    "ap_learner a = learner_new (hw_nvs hw) n reason" "bands (ap_est a) = Some (FACTORY_BANDS, NUM_GEARS)" "ap_learned a = 0"
    "ap_last_save a = int (now (hw_uart hw) s)"
    by (simp add: app_init_def Let_def set_bands_def NUM_GEARS_def)
  from derive_installs [of a] obtain b where "derive_and_install a = Go b" "ap_learner b = ap_learner a"
    "ap_last_save b = ap_last_save a" "case bands_spec FACTORY_BANDS (peaks (ln_hist (ap_learner a))) of
          None \<Rightarrow> b = a | Some (bs, n) \<Rightarrow> bands (ap_est b) = Some (bs, NUM_GEARS) \<and> ap_learned b = n" by blast
  then show ?thesis using a by (auto simp: working_bands_def split: option.splits)
qed

lemma new_of_stored:
  assumes "load_hist nv n = h"
  shows "ln_hist (learner_new nv n reason) = fst (debug_mark h)" "ln_dirty (learner_new nv n reason) = snd (debug_mark h)"
  using assms by (simp_all add: learner_new_def case_prod_beta)

lemma full_mark: "5 \<le> h_counts h ! 0 \<Longrightarrow> debug_mark h = (h, False)"
  by (simp add: debug_mark_def)

lemma save_keeps:
  "ln_hist (snd (learner_save nv m l)) = ln_hist l"
  "ln_dirty l \<Longrightarrow> \<not> fst (learner_save nv m l) \<Longrightarrow> ln_dirty (snd (learner_save nv m l))"
  by (auto simp: learner_save_def Let_def case_prod_beta split: if_splits)

text \<open>A periodic save that wrote: the learner is in flash, and its bands are in force.\<close>

lemma persisted:
  assumes "cal_ok hw a" "nvs_lawful (hw_nvs hw)" "persist_step hw a = Go x" "ln_dirty (ap_learner a)" "\<not> ln_dirty (ap_learner x)"
  shows "load_hist (hw_nvs hw) (ln_nvs (ap_learner x)) = ln_hist (ap_learner x)" "ln_hist (ap_learner x) = ln_hist (ap_learner a)"
    "bands_spec FACTORY_BANDS (peaks (ln_hist (ap_learner x))) = Some (bs, n) \<Longrightarrow> bands (ap_est x) = Some (bs, NUM_GEARS) \<and> ap_learned x = n"
proof -
  have "cal_ok hw x" using cal_persist [OF assms(1)] assms(3) by simp
  then show "load_hist (hw_nvs hw) (ln_nvs (ap_learner x)) = ln_hist (ap_learner x)"
    using assms(2,5) by (auto simp: cal_ok_def learner_inv_def intro: stored_loads)
  obtain ok a1 where s: "save_learner hw (a\<lparr>ap_last_save := clock hw a\<rparr>) = (ok, a1)" by fastforce
  let ?free = "hw_free_heap hw (k_io (ap_kds a))"
  have l: "learner_save (hw_nvs hw) ?free (ap_learner a) = (ok, ap_learner a1)"
    using s by (auto simp: save_learner_def split: prod.splits)
  have due: "LEARN_SAVE_INTERVAL \<le> elapsed hw (ap_last_save a) a"
    using assms(3-5) by (auto simp: persist_step_def split: if_splits)
  have ok: ok
  proof (rule ccontr)
    assume "\<not> ok"
    then have "x = a1" using assms(3) s due by (simp add: persist_step_def)
    then show False using save_keeps(2) [of "ap_learner a" "hw_nvs hw" ?free] assms(4,5) l \<open>\<not> ok\<close> by simp
  qed
  let ?a1 = "a1\<lparr>ap_flash_until := clock hw a1 + 800000\<rparr>"
  have d: "derive_and_install ?a1 = Go x" using assms(3) s due ok by (simp add: persist_step_def)
  have "ln_hist (ap_learner a1) = ln_hist (ap_learner a)"
    using save_keeps(1) [of "hw_nvs hw" ?free "ap_learner a"] l by simp
  then show "ln_hist (ap_learner x) = ln_hist (ap_learner a)" using derive_installs [of ?a1] d by auto
  show "bands_spec FACTORY_BANDS (peaks (ln_hist (ap_learner x))) = Some (bs, n) \<Longrightarrow> bands (ap_est x) = Some (bs, NUM_GEARS) \<and> ap_learned x = n"
    using derive_installs [of ?a1] d by auto
qed

text \<open>
  The other saves (at a link drop, before an update) leave the learner clean: the periodic save
  then writes nothing and installs no bands, until another sample is counted.
\<close>

lemma clean_save_installs_nothing:
  assumes "\<not> ln_dirty (ap_learner a)" "persist_step hw a = Go x"
  shows "ap_est x = ap_est a"
proof -
  obtain a1 where "save_learner hw (a\<lparr>ap_last_save := clock hw a\<rparr>) = (False, a1)" "ap_est a1 = ap_est a"
    using assms(1) by (simp add: save_learner_def learner_save_def Let_def case_prod_beta)
  then show ?thesis using assms(2) by (auto simp: persist_step_def split: if_splits)
qed

section \<open>Properties\<close>



text \<open>
  C10. The calibration survives a restart: when a periodic save has written, the next boot works from
  the same histogram (but for its boot marker) with the bands and the number of gears its peaks
  give; and once the marker is full and two gears are learned, with exactly the bands, the
  number and the histogram in use before the restart, with nothing left to save.
\<close>

theorem calibration_survives_restart:
  assumes "nvs_lawful (hw_nvs hw)"
    and "ends_in (run (main_next hw) (app_init hw s n reason c ble ota web) es) a"
    and "persist_step hw a = Go x" and "ln_dirty (ap_learner a)" and "\<not> ln_dirty (ap_learner x)"
  shows "\<exists>b. app_init hw s' (ln_nvs (ap_learner x)) reason' c' ble' ota' web' = Go b
    \<and> ln_hist (ap_learner b) = fst (debug_mark (ln_hist (ap_learner a)))
    \<and> bands (ap_est b) = Some (fst (working_bands (ln_hist (ap_learner b))), NUM_GEARS)
    \<and> ap_learned b = snd (working_bands (ln_hist (ap_learner b)))
    \<and> (5 \<le> h_counts (ln_hist (ap_learner a)) ! 0 \<and> 2 \<le> snd (working_bands (ln_hist (ap_learner a)))
        \<longrightarrow> bands (ap_est b) = bands (ap_est x) \<and> ap_learned b = ap_learned x
          \<and> ln_hist (ap_learner b) = ln_hist (ap_learner x) \<and> \<not> ln_dirty (ap_learner b))"
proof -
  have "ends_ok (cal_ok hw) (run (main_next hw) (app_init hw s n reason c ble ota web) es)"
    by (rule rides.inv_run) (simp add: list_all_iff)
  then have "cal_ok hw a" using assms(2) by (auto simp: ends_ok_def ends_in_def)
  note p = persisted [OF this assms(1,3-5)]
  obtain b where b: "app_init hw s' (ln_nvs (ap_learner x)) reason' c' ble' ota' web' = Go b"
    "ap_learner b = learner_new (hw_nvs hw) (ln_nvs (ap_learner x)) reason'"
    "bands (ap_est b) = Some (fst (working_bands (ln_hist (ap_learner b))), NUM_GEARS)"
    "ap_learned b = snd (working_bands (ln_hist (ap_learner b)))" using boot_bands [of hw s' "ln_nvs (ap_learner x)" reason' c' ble' ota' web'] by blast
  have h: "ln_hist (ap_learner b) = fst (debug_mark (ln_hist (ap_learner a)))"
    "ln_dirty (ap_learner b) = snd (debug_mark (ln_hist (ap_learner a)))"
    using new_of_stored [OF p(1)] p(2) by (simp_all add: b(2))
  have "bands (ap_est x) = Some (fst (working_bands (ln_hist (ap_learner a))), NUM_GEARS)
      \<and> ap_learned x = snd (working_bands (ln_hist (ap_learner a)))"
    if "2 \<le> snd (working_bands (ln_hist (ap_learner a)))"
    using that p(2,3) by (auto simp: working_bands_def split: option.splits)
  then show ?thesis using b h p(2) by (intro exI [of _ b]) (auto simp: full_mark)
qed

text \<open>Flash after a ride in two gears, before the boot that fills the marker.\<close>

definition ridden :: ratio_histogram where
  "ridden = \<lparr>h_counts = (replicate BINS 0)[0 := 4, 40 := 30, 63 := 20], h_samples = 54\<rparr>"

lemma ridden_marked: "debug_mark ridden = (wit_hist, True)"
proof -
  have "\<not> (5 :: u16) \<le> 4" "(4 :: u16) + 1 = 5" by code_simp+
  then show ?thesis by (simp add: ridden_def wit_hist_def debug_mark_def sat_inc_def BINS_def list_update_swap)
qed

lemma ridden_loads: "load_hist map_flash [NVS_KEY \<mapsto> to_blob ridden] = ridden"
proof (rule stored_loads)
  show l: "length (h_counts ridden) = BINS" by (simp add: ridden_def)
  show "stored map_flash [NVS_KEY \<mapsto> to_blob ridden] ridden"
    using hist_blob.enc_len [of ridden] l by (simp add: stored_def map_flash_def)
qed

lemma ridden_bands: "working_bands wit_hist = (wit_bands, 2)"
  using wit_derived derive_spec [OF factory_good(1,2), of wit_hist] by (simp add: working_bands_def)

theorem calibration_survives_restart_witness:
  "\<exists>a x b. ends_in (run (main_next sim_hw) (app_init sim_hw (5, []) [NVS_KEY \<mapsto> to_blob ridden] 1
        (Map.empty, Map.empty) None None None) [BoardMoves (3000005, [])]) a
     \<and> persist_step sim_hw a = Go x
     \<and> app_init sim_hw (0, []) (ln_nvs (ap_learner x)) 1 (Map.empty, Map.empty) None None None = Go b
     \<and> bands (ap_est b) = Some (wit_bands, NUM_GEARS) \<and> bands (ap_est b) = bands (ap_est x)
     \<and> ap_learned b = 2 \<and> ln_hist (ap_learner b) = wit_hist"
proof -
  let ?init = "app_init sim_hw (5, []) [NVS_KEY \<mapsto> to_blob ridden] 1 (Map.empty, Map.empty) None None None"
  have hw: "hw_nvs sim_hw = map_flash" "hw_uart sim_hw = list_uart" by (simp_all add: sim_hw_def)
  obtain a0 where a0: "?init = Go a0" "ap_learner a0 = learner_new map_flash [NVS_KEY \<mapsto> to_blob ridden] 1" "ap_last_save a0 = 5"
    using boot_bands [of sim_hw "(5, [])" "[NVS_KEY \<mapsto> to_blob ridden]" 1 "(Map.empty, Map.empty)" None None None]
    by (auto simp: hw list_uart_def)
  note l = new_of_stored [OF ridden_loads, of 1]
  let ?a = "set_io (3000005, []) a0"
  have a: "ap_learner ?a = ap_learner a0" "ln_hist (ap_learner ?a) = wit_hist" "ln_dirty (ap_learner ?a)"
    using l by (simp_all add: set_io_def a0(2) ridden_marked)
  have r: "ends_in (run (main_next sim_hw) ?init [BoardMoves (3000005, [])]) ?a"
    by (simp add: a0(1) main_next_def ends_in_def)
  have ok: "set_blob map_flash n k b = (True, n(k \<mapsto> b))" for n k b by (simp add: map_flash_def)
  have c: "clock sim_hw ?a = 3000005" by (simp add: clock_def set_io_def hw list_uart_def)
  obtain a1 where a1: "save_learner sim_hw (?a\<lparr>ap_last_save := clock sim_hw ?a\<rparr>) = (True, a1)" "\<not> ln_dirty (ap_learner a1)"
    using a(3) by (simp add: save_learner_def learner_save_def hw ok Let_def)
  have "persist_step sim_hw ?a = derive_and_install (a1\<lparr>ap_flash_until := clock sim_hw a1 + 800000\<rparr>)"
    using a1(1) a0(3) c by (simp add: persist_step_def elapsed_def LEARN_SAVE_INTERVAL_def set_io_def)
  then obtain x where x: "persist_step sim_hw ?a = Go x" "\<not> ln_dirty (ap_learner x)"
    using derive_installs [of "a1\<lparr>ap_flash_until := clock sim_hw a1 + 800000\<rparr>"] a1(2) by auto
  have m: "5 \<le> h_counts wit_hist ! 0" by (simp add: wit_hist_def BINS_def)
  have n: "nvs_lawful (hw_nvs sim_hw)" using map_flash_lawful by (simp add: hw)
  from calibration_survives_restart [OF n r x(1) a(3) x(2), of "(0, [])" 1 "(Map.empty, Map.empty)" None None None]
  obtain b where b: "app_init sim_hw (0, []) (ln_nvs (ap_learner x)) 1 (Map.empty, Map.empty) None None None = Go b"
    "ln_hist (ap_learner b) = wit_hist" "bands (ap_est b) = Some (wit_bands, NUM_GEARS)" "ap_learned b = 2"
    "bands (ap_est b) = bands (ap_est x)"
    using m by (auto simp: a(2) full_mark ridden_bands)
  then show ?thesis using r x(1) by blast
qed

end
