(* ===== verification/Platform.thy ===== *)
theory Platform
  imports Rust_Str
begin

text \<open>
  The platform wrappers, \<open>esp32/src/platform.rs\<close>, and the build script, \<open>esp32/build.rs\<close>. What
  ESP-IDF returns (a timer, a text, a descriptor, a partition) is an argument, \<open>None\<close> for a null
  pointer; the wrappers turn it into the values the firmware uses.
\<close>

section \<open>Queries\<close>

text \<open>The timer counts microseconds.\<close>

definition uptime_s :: "nat \<Rightarrow> u32" where
  "uptime_s us = of_nat (us div 1000000)"

text \<open>The bytes of the C string, up to its terminator.\<close>

definition idf_version :: "u8 list option \<Rightarrow> string" where
  "idf_version p = (case p of None \<Rightarrow> ''unknown'' | Some bs \<Rightarrow> lossy (str_of bs))"

text \<open>The 32 bytes of the name field of the running image's descriptor.\<close>

definition app_project_name :: "u8 list option \<Rightarrow> string" where
  "app_project_name d =
     (case d of
        None \<Rightarrow> []
      | Some raw \<Rightarrow> lossy (str_of (takeWhile (\<lambda>b. b \<noteq> 0) raw)))"

text \<open>\<open>{:#x}\<close> of an unsigned number.\<close>

fun hex_digits :: "nat \<Rightarrow> string" where
  "hex_digits n = (if n < 16 then [hex_char n] else hex_digits (n div 16) @ [hex_char (n mod 16)])"

declare hex_digits.simps [simp del]

definition show_hex_word :: "'a::len word \<Rightarrow> string" where
  "show_hex_word w = ''0x'' @ hex_digits (unat w)"

definition u32_at :: "u8 list \<Rightarrow> nat \<Rightarrow> u32" where
  "u32_at buf k = u32_of_le (buf ! k) (buf ! (k + 1)) (buf ! (k + 2)) (buf ! (k + 3))"

definition otadata_entry :: "nat \<Rightarrow> u8 list \<times> int \<Rightarrow> string" where
  "otadata_entry i r =
     (case r of (buf, err) \<Rightarrow>
        ''['' @ show_nat i @ '': seq='' @ show_hex_word (u32_at buf 0) @ '' state='' @ show_hex_word (u32_at buf 24)
        @ '' crc='' @ show_hex_word (u32_at buf 28) @ '' err='' @ show_int err @ ''] '')"

text \<open>
  The partition, when it is found, is a read of 32 bytes at an offset, which leaves the buffer
  (zero before) and an error code.
\<close>

definition otadata_dump :: "(nat \<Rightarrow> u8 list \<times> int) option \<Rightarrow> string" where
  "otadata_dump part =
     (case part of
        None \<Rightarrow> ''no otadata partition''
      | Some read \<Rightarrow> concat (map (\<lambda>i. otadata_entry i (read (i * 0x1000))) [0..<2]))"

text \<open>A mutex whose holder panicked is poisoned; \<open>lock\<close> takes the data all the same.\<close>

record 'a mutex =
  mx_poisoned :: bool
  mx_data :: 'a

definition mutex_lock :: "'a mutex \<Rightarrow> 'a + 'a" where
  "mutex_lock m = (if mx_poisoned m then Inl (mx_data m) else Inr (mx_data m))"

definition lock :: "'a mutex \<Rightarrow> 'a" where
  "lock m = (case mutex_lock m of Inr d \<Rightarrow> d | Inl d \<Rightarrow> d)"

section \<open>The build script\<close>

text \<open>\<open>str::lines\<close>: cut at line feeds, a carriage return before one dropped, no last empty line.\<close>

definition drop_cr :: "string \<Rightarrow> string" where
  "drop_cr l = (if l \<noteq> [] \<and> last l = CHR 0x0D then butlast l else l)"

definition str_lines :: "string \<Rightarrow> string list" where
  "str_lines t =
     (let ps = split_on (\<lambda>c. c = CHR 0x0A) t
      in map drop_cr (butlast ps) @ (if last ps = [] then [] else [last ps]))"

definition trim_quotes :: "string \<Rightarrow> string" where
  "trim_quotes s = rev (dropWhile (\<lambda>c. c = CHR 0x22) (rev (dropWhile (\<lambda>c. c = CHR 0x22) s)))"

definition VERSION_KEY :: string where "VERSION_KEY = ''CONFIG_APP_PROJECT_VER=''"

definition strip_key :: "string \<Rightarrow> string option" where
  "strip_key l = (if prefix VERSION_KEY l then Some (drop (length VERSION_KEY) l) else None)"

definition configured :: "string \<Rightarrow> string option" where
  "configured t =
     map_option (\<lambda>l. trim_quotes (trim (drop (length VERSION_KEY) l)))
       (find (\<lambda>l. strip_key l \<noteq> None) (str_lines t))"

text \<open>\<open>None\<close> is a panic, which fails the build: no file, no key, or another version.\<close>

definition build_main :: "string option \<Rightarrow> string \<Rightarrow> unit option" where
  "build_main file cargo =
     Option.bind file (\<lambda>text.
     Option.bind (configured text) (\<lambda>v. if v = cargo then Some () else None))"

lemmas platform_defs [model_defs] = uptime_s_def idf_version_def app_project_name_def show_hex_word_def
  u32_at_def otadata_entry_def otadata_dump_def mutex_lock_def lock_def drop_cr_def str_lines_def
  trim_quotes_def VERSION_KEY_def strip_key_def configured_def build_main_def

section \<open>What they guarantee\<close>

text \<open>Names are text whatever the image holds; a name with a terminator or none is its bytes.\<close>

lemma names_are_text: "utf8_valid (idf_version p)" "utf8_valid (app_project_name d)"
proof -
  have "utf8_valid ''unknown''" by code_simp
  then show "utf8_valid (idf_version p)" "utf8_valid (app_project_name d)"
    by (simp_all add: idf_version_def app_project_name_def lossy_valid split: option.split)
qed

lemma project_name_read_back:
  assumes "list_all (\<lambda>c. code c \<le> 0x7F \<and> c \<noteq> CHR 0x00) name" "pad = [] \<or> hd pad = 0"
  shows "app_project_name (Some (bytes_of name @ pad)) = name"
proof -
  have c: "of_nat (code c) \<noteq> (0 :: u8)" if "c \<noteq> CHR 0x00" for c
  proof
    assume "of_nat (code c) = (0 :: u8)"
    then have "code c = 0" using unat_code [of c] by simp
    then have "c = char_of (0 :: nat)" by (metis char_of_char)
    moreover have "char_of (0 :: nat) = CHR 0x00" by code_simp
    ultimately show False using that by simp
  qed
  have "b \<noteq> 0" if "b \<in> set (bytes_of name)" for b
    using that assms(1) c by (auto simp: bytes_of_def list_all_iff)
  then have "takeWhile (\<lambda>b. b \<noteq> 0) (bytes_of name @ pad) = bytes_of name @ takeWhile (\<lambda>b. b \<noteq> 0) pad"
    by (simp add: takeWhile_append2)
  then have "takeWhile (\<lambda>b. b \<noteq> 0) (bytes_of name @ pad) = bytes_of name"
    using assms(2) by (cases pad) simp_all
  moreover have "utf8_valid name" using assms(1) by (intro utf8_ascii) (simp add: list_all_iff)
  ultimately show ?thesis by (simp add: app_project_name_def str_of_bytes lossy_id)
qed

lemma find_first: "find P ls = Some l \<longleftrightarrow> (\<exists>pre post. ls = pre @ l # post \<and> list_all (\<lambda>x. \<not> P x) pre \<and> P l)"
proof (induction ls)
  case (Cons a ls)
  show ?case
  proof (cases "P a")
    case True
    have "pre = []" if "a # ls = pre @ l # post" "list_all (\<lambda>x. \<not> P x) pre" for pre post
      using True that by (cases pre) auto
    then have "(\<exists>pre post. a # ls = pre @ l # post \<and> list_all (\<lambda>x. \<not> P x) pre \<and> P l) \<longleftrightarrow> a = l"
      using True by (metis append_Nil list.inject list.pred_inject(1))
    then show ?thesis using True by simp
  next
    case False
    show ?thesis
    proof
      assume "find P (a # ls) = Some l"
      then obtain pre post where "ls = pre @ l # post" "list_all (\<lambda>x. \<not> P x) pre" "P l"
        using False Cons.IH by auto
      then have "a # ls = (a # pre) @ l # post \<and> list_all (\<lambda>x. \<not> P x) (a # pre) \<and> P l" using False by simp
      then show "\<exists>pre post. a # ls = pre @ l # post \<and> list_all (\<lambda>x. \<not> P x) pre \<and> P l" by blast
    next
      assume "\<exists>pre post. a # ls = pre @ l # post \<and> list_all (\<lambda>x. \<not> P x) pre \<and> P l"
      then obtain pre post where p: "a # ls = pre @ l # post" "list_all (\<lambda>x. \<not> P x) pre" "P l" by blast
      then obtain pre' where "ls = pre' @ l # post" "list_all (\<lambda>x. \<not> P x) pre'" using False by (cases pre) auto
      then show "find P (a # ls) = Some l" using False Cons.IH p(3) by auto
    qed
  qed
qed simp

text \<open>A release cannot be built with a version that differs from the configured one.\<close>

lemma build_needs_equal_versions:
  "build_main file cargo = Some () \<longleftrightarrow>
    (\<exists>text pre l post. file = Some text \<and> str_lines text = pre @ l # post
       \<and> list_all (\<lambda>x. \<not> prefix VERSION_KEY x) pre \<and> prefix VERSION_KEY l
       \<and> trim_quotes (trim (drop (length VERSION_KEY) l)) = cargo)"
proof -
  have f: "find (\<lambda>l. strip_key l \<noteq> None) ls = Some l \<longleftrightarrow>
      (\<exists>pre post. ls = pre @ l # post \<and> list_all (\<lambda>x. \<not> prefix VERSION_KEY x) pre \<and> prefix VERSION_KEY l)" for ls l
    using find_first [of "prefix VERSION_KEY" ls l] by (simp add: strip_key_def)
  have "build_main file cargo = Some () \<longleftrightarrow> (\<exists>text l. file = Some text
      \<and> find (\<lambda>l. strip_key l \<noteq> None) (str_lines text) = Some l
      \<and> trim_quotes (trim (drop (length VERSION_KEY) l)) = cargo)"
    by (auto simp: build_main_def configured_def bind_eq_Some_conv)
  then show ?thesis unfolding f by blast
qed

end
