(* ===== verification/Led.thy ===== *)
theory Led
  imports Display
begin

text \<open>
  The LED thread of \<open>esp32/src/main.rs\<close> and the channel to it: a queue of four frames that the main
  loop fills without waiting and the thread empties in order. A thread whose driver cannot be
  created ends, and with it the channel. The LED driver is a parameter.
\<close>

definition LED_QUEUE :: nat where "LED_QUEUE = 4"

datatype led_state = LedStarting | LedRunning | LedGone

record 'd led_driver =
  led_new :: "'d \<Rightarrow> bool \<times> 'd"
  led_write :: "rgb list \<Rightarrow> 'd \<Rightarrow> bool \<times> 'd"

text \<open>\<open>ld_written\<close> is the history of the frames handed to the driver.\<close>

record 'd led =
  ld_state :: led_state
  ld_queue :: "rgb list list"
  ld_driver :: 'd
  ld_written :: "rgb list list"

definition led_spawn :: "'d \<Rightarrow> 'd led" where
  "led_spawn d = \<lparr>ld_state = LedStarting, ld_queue = [], ld_driver = d, ld_written = []\<rparr>"

text \<open>\<open>try_send\<close>: refused when the queue is full or the receiver is gone.\<close>

definition led_try_send :: "rgb list \<Rightarrow> 'd led \<Rightarrow> bool \<times> 'd led" where
  "led_try_send fr l =
     (if ld_state l = LedGone \<or> LED_QUEUE \<le> length (ld_queue l) then (False, l)
      else (True, l\<lparr>ld_queue := ld_queue l @ [fr]\<rparr>))"

text \<open>A step of the thread; with an empty queue it waits. A failed write is only logged.\<close>

definition led_thread :: "'d led_driver \<Rightarrow> 'd led \<Rightarrow> 'd led" where
  "led_thread dr l =
     (case ld_state l of
        LedGone \<Rightarrow> l
      | LedStarting \<Rightarrow>
          (case led_new dr (ld_driver l) of
             (True, d) \<Rightarrow> l\<lparr>ld_state := LedRunning, ld_driver := d\<rparr>
           | (False, d) \<Rightarrow> l\<lparr>ld_state := LedGone, ld_driver := d, ld_queue := []\<rparr>)
      | LedRunning \<Rightarrow>
          (case ld_queue l of
             [] \<Rightarrow> l
           | fr # q \<Rightarrow> l\<lparr>ld_queue := q, ld_driver := snd (led_write dr fr (ld_driver l)),
               ld_written := ld_written l @ [fr]\<rparr>))"

lemmas led_defs [model_defs] = LED_QUEUE_def led_spawn_def led_try_send_def led_thread_def

section \<open>Frames in order\<close>

datatype led_event = Send "rgb list" | Thread

text \<open>The thread with the frames the channel has accepted, for the statement.\<close>

fun led_step :: "'d led_driver \<Rightarrow> 'd led \<times> rgb list list \<Rightarrow> led_event \<Rightarrow> 'd led \<times> rgb list list" where
  "led_step dr (l, acc) (Send fr) = (case led_try_send fr l of (ok, l1) \<Rightarrow> (l1, if ok then acc @ [fr] else acc))"
| "led_step dr (l, acc) Thread = (led_thread dr l, acc)"

fun led_inv :: "'d led \<times> rgb list list \<Rightarrow> bool" where
  "led_inv (l, acc) \<longleftrightarrow> length (ld_queue l) \<le> LED_QUEUE
     \<and> (if ld_state l = LedGone then ld_written l = [] \<and> ld_queue l = []
        else acc = ld_written l @ ld_queue l)
     \<and> (ld_state l = LedStarting \<longrightarrow> ld_written l = [])"

interpretation leds: machine "(led_spawn d, [])" "led_step dr" "\<lambda>_. True" led_inv for d dr
proof
  show "led_inv (led_spawn d, [])" by (simp add: led_spawn_def)
  show "led_inv (led_step dr s e)" if "led_inv s" "True" for s e
  proof (cases s)
    case (Pair l acc)
    then show ?thesis
      using that by (cases e) (auto simp: led_try_send_def led_thread_def split: led_state.splits list.splits prod.splits bool.splits)
  qed
qed

text \<open>
  C39. Frames reach the matrix in order and none is lost: after any sends and steps of the thread, the
  frames written are the accepted ones but for those still queued, at most four; only a thread
  whose driver could not be created writes nothing, and from then on refuses every frame.
\<close>

theorem frames_in_order:
  assumes "run (led_step dr) (led_spawn d, []) es = (l, acc)"
  shows "if ld_state l = LedGone then ld_written l = [] \<and> (\<forall>fr. led_try_send fr l = (False, l))
    else acc = ld_written l @ ld_queue l \<and> length (ld_queue l) \<le> 4"
proof -
  have "led_inv (run (led_step dr) (led_spawn d, []) es)" by (rule leds.inv_run) (simp add: list_all_iff)
  then show ?thesis using assms by (auto simp: LED_QUEUE_def led_try_send_def split: if_splits)
qed

theorem frames_in_order_witness:
  "\<exists>l. run (led_step \<lparr>led_new = \<lambda>d. (True, d), led_write = \<lambda>fr d. (True, d)\<rparr>) (led_spawn (), [])
       [Send [OFF], Thread, Send [GREEN], Thread] = (l, [[OFF], [GREEN]])
     \<and> ld_state l = LedRunning \<and> [[OFF], [GREEN]] = ld_written l @ ld_queue l"
proof -
  let ?dr = "\<lparr>led_new = \<lambda>d. (True, d), led_write = \<lambda>fr d. (True, d)\<rparr> :: unit led_driver"
  let ?l = "\<lparr>ld_state = LedRunning, ld_queue = [[GREEN]], ld_driver = (), ld_written = [[OFF]]\<rparr>"
  have r: "run (led_step ?dr) (led_spawn (), []) [Send [OFF], Thread, Send [GREEN], Thread] = (?l, [[OFF], [GREEN]])"
    by (simp add: led_defs)
  show ?thesis using frames_in_order [OF r] r by auto
qed

lemma gone_stays: "ld_state l = LedGone \<Longrightarrow> ld_state (fst (led_step dr (l, acc) e)) = LedGone"
  by (cases e) (auto simp: led_try_send_def led_thread_def)

end
