(* ===== verification/Spec2Isabelle.thy ===== *)
theory Spec2Isabelle
  imports Ble_Start Firmware Main_Builds Calibration Platform Led Web
begin

text \<open>
  Verification of the W230 gear indicator firmware (\<open>src/firmware\<close>, Rust, ESP32).

  The device reads engine speed and road speed from the ECU over the K-line, works out the gear,
  and shows it on a 5x5 LED matrix. It learns the rpm/speed ratio of each gear while riding and
  keeps the histogram in flash. A phone app talks to it over BLE: it subscribes to live values,
  reads status pages, sends commands and WiFi credentials. A worker thread checks for firmware
  updates over WiFi and installs them into the spare slot. The crate \<open>core\<close> holds the pure parts;
  the crate \<open>esp32\<close> holds the drivers, the worker, the BLE server and the main loop.

  \<^bold>\<open>Theories and the code they model\<close>

  \<^item> \<open>W230_Prelude\<close>: machine integers (\<open>u8\<close> .. \<open>u32\<close> as words), little-endian bytes, saturating
    and wrapping arithmetic, the named collections, \<open>run\<close> (a fold of a step over events), and the
    locales \<open>codec\<close>, \<open>fixed_codec\<close> (byte formats with a round trip) and \<open>machine\<close> (an initial state,
    steps, an invariant kept by each). \<open>F32\<close>, \<open>F32_Eval\<close>, \<open>F32_Bounds\<close>: Rust's \<open>f32\<close> bit for bit,
    its evaluation, and bounds that keep results finite. \<open>Rust_Str\<close>: \<open>String\<close> as UTF-8 bytes,
    formatting and parsing of numbers, \<open>trim\<close>.
  \<^item> \<open>Gear\<close> (\<open>core/src/gear.rs\<close>): the estimator record, \<open>update\<close> with its switch, register,
    classifier, debounce and standstill steps, band installation, rpm time alignment.
  \<^item> \<open>Kds_Proto\<close> (\<open>core/src/kds_proto.rs\<close>): request frames, the response parser over any byte
    source (locale \<open>byte_source\<close>), payload extraction, decoding of values.
  \<^item> \<open>Learn\<close> (\<open>core/src/learn.rs\<close>): histogram, flash blob, peak detector, band refinement.
  \<^item> \<open>Display\<close> (\<open>core/src/display.rs\<close>): glyphs, brightness, the gear frame, the progress bar.
  \<^item> \<open>Ota_Manifest\<close> (\<open>core/src/ota_manifest.rs\<close>): the manifest after JSON decoding, versions,
    digest, the decision.
  \<^item> \<open>Ble_Proto\<close>, \<open>Ble_Json\<close> (\<open>core/src/ble_proto.rs\<close>): packets and commands; JSON bodies and
    the event ring. \<open>Diag\<close> (\<open>core/src/diag.rs\<close>): dashboard formats.
  \<^item> \<open>Learn_Store\<close> (\<open>esp32/src/learn_store.rs\<close>) and \<open>Config_Store\<close> (\<open>esp32/src/config_store.rs\<close>):
    the learner with its ride tallies, and the user settings, over a flash store.
  \<^item> \<open>Kds_Driver\<close> (\<open>esp32/src/kds.rs\<close>): pacing, fast init, queries over a UART.
  \<^item> \<open>Ota_Download\<close>, \<open>Ota_Worker\<close>, \<open>Ota_Thread\<close> (\<open>esp32/src/ota.rs\<close>): the image stream into the slot
    and its checks; the radio, the manifest check, the install, the confirmation, each as one
    function; the request loop, with each request cut into stages (\<open>stage_step\<close>).
  \<^item> \<open>Ble_Start\<close>, \<open>Ble_Server\<close> (\<open>esp32/src/ble.rs\<close>): the start-up calls; the GATT server.
  \<^item> \<open>Main_Loop\<close> (\<open>esp32/src/main.rs\<close>): the start-up state \<open>app_init\<close> and one iteration
    \<open>loop_body\<close>, composed of \<open>mirror_ota\<close>, \<open>busy_step\<close>, \<open>fail_step\<close>, \<open>boot_check\<close>, \<open>self_test\<close>,
    \<open>handle_ble_commands\<close>, \<open>button_step\<close>, \<open>reconnect_step\<close>, \<open>poll\<close>, \<open>persist_step\<close>, \<open>display_step\<close>
    and \<open>telemetry\<close>, in the order of the source, with the steps of the other builds (demo, register
    scan, deep scan, dashboard) under the switches of the record \<open>build\<close>; \<open>shipped_build\<close> holds the
    source's constants. \<open>Main_Total\<close>: its progress and well-formedness. \<open>Main_Safety\<close>: its
    requests, settings, pauses and publications. \<open>Main_Builds\<close>: what the switches change.
    \<open>Led\<close>: the queue to the LED thread and the thread.
  \<^item> \<open>Web\<close> (\<open>esp32/src/web.rs\<close>): bringing up the diagnostic dashboard, its routes and shared data.
  \<^item> \<open>Platform\<close> (\<open>esp32/src/platform.rs\<close>, \<open>esp32/build.rs\<close>): the wrappers around ESP-IDF, the
    boot-slot report, the build script's step.
  \<^item> \<open>Main_Guarantee\<close>: the iteration as a composition of steps, for any relation its steps keep, and
    what it may do to the state it shares. \<open>Main_Watch\<close>: its copy of the worker's status. \<open>Line_Board\<close>: a board with an ECU on its line, to
    evaluate iterations on. \<open>Calibration\<close>: the calibration from the ride to the display, over runs
    of the main loop and across a restart. \<open>Firmware\<close>: the main loop, its BLE server and the
    worker's thread as one interleaved system.

  \<^bold>\<open>How the code is rendered\<close>

  Structs are records, enums datatypes, integers words at their width, whose arithmetic wraps,
  saturates or is checked as the source writes it. A panic and a call that never returns are
  \<open>None\<close> (or \<open>Stuck\<close> for a step of the main loop); \<open>Result\<close> is a sum with the error on the left.
  \<open>dec n k\<close> is the decimal literal with digits \<open>n\<close> and \<open>k\<close> places, rounded to \<open>f32\<close>. Log lines
  are left out.

  What is not under \<open>src/\<close> is an argument: the UART and clock (\<open>uart\<close>), flash (\<open>nvs_ops\<close>,
  \<open>cfg_nvs\<close>), the BLE stack (\<open>bt_stack\<close>), HTTP, WiFi, SHA-256, the update partition and the JSON
  decoder (\<open>platform\<close>), and the board (\<open>hardware\<close>), each a record of operations over a state of
  its own. What a theorem needs of them is a named hypothesis: \<open>drains\<close> (a read that gives bytes
  leaves fewer), \<open>nvs_lawful\<close>, \<open>cfg_lawful\<close> and \<open>cfg_reliable\<close> (a key read back holds what was
  written), \<open>accepts_all\<close>, \<open>serves\<close>. Each has an instance in the same theory, on which the witnesses evaluate.

  Threads meet in shared state. In \<open>Ota_Thread\<close> the worker handles a request in stages, cut after each
  write to the shared status and before each read of what the main loop may write (the moving
  flag, the settings); between two stages come the main loop's writes (\<open>MainMoving\<close>, \<open>MainSeen\<close>,
  \<open>MainForgetWifi\<close>, \<open>MainSettings\<close>) and changes around it (\<open>WorldMoves\<close>). Within a stage the worker
  reads what the main loop writes at most once and then writes the shared record at most once, and
  each write of the main loop commutes with the one or the other, so what happens inside a
  stage has the effect of happening before or after it. In \<open>Main_Loop\<close> the worker's reports and the BLE stack's callbacks are
  arbitrary events between iterations (\<open>main_event\<close>). \<open>Firmware\<close> puts both together over one status,
  one request channel and one set of settings: iterations, stages of the worker, callbacks of the
  stack, and moves of the board and of the worker's world in any order (\<open>fw_event\<close>); an iteration
  is one step. It is the build without the dashboard, the only one that starts the worker. The
  lists \<open>sv_flash\<close> and
  \<open>bs_calls\<close> are histories, written and never read. Times are microseconds in the main loop and
  the K-line driver, milliseconds in the worker.

  \<^bold>\<open>Termination, bounds, fuel\<close>

  Loops are structural or have a measure: the download by the manifest's size minus the bytes
  received, a request by the rank of its stage (\<open>stage_rank\<close>), the small response by its 8 KiB bound, the trimming of the JSON bodies by what is
  left to trim; the byte reads of a frame count down the bytes still wanted. Two loops may not
  end and are partial functions into \<open>option\<close>: emptying the receive buffer (\<open>drain_rx\<close>), which
  returns under \<open>drains\<close> (lemma \<open>drain_returns\<close>, lifted to every driver call), and
  \<open>ota_status_json\<close>, which does not return for an oversized error text; the theorem
  \<open>ota_status_returns_iff\<close> gives the exact condition, and \<open>main_loop_never_stuck\<close> shows that it is the only
  way the main loop gets stuck. No definition takes fuel.

  \<^bold>\<open>What is shown\<close>

  \<^item> Estimator: validity in every reachable state; a digit needs consecutive agreeing samples; N is
    never stale; the classifier answers only the nearest band in tolerance; decay at a standstill.
  \<^item> Learning: the peak list is characterised; refinement equals its specification and never
    panics; the sample count is the sum of the bins; a clean learner is what the next boot loads.
  \<^item> Calibration: whatever the flash content and the history, a digit that appears is backed by the
    readings of that iteration and the bands in force in the estimator, each within ten percent of the
    factory's (or it is first gear at a launch); a periodic save is what
    the next boot works from, down to the same bands.
  \<^item> Protocols: the parser equals the frame format on every stream and sees any corrupted byte;
    commands and packets are read back; JSON bodies fit their attribute or the exception is named.
  \<^item> Driver: connected exactly after both handshakes; the bus pause is respected.
  \<^item> Updates: acceptance and decision are exact; run through, the stages of a request are its handler;
    between any two stages, the boot slot is switched only for a verified image of a newer
    manifest, by an install that found the bike standing (and does not look again); a good image
    does get installed; the status is that of the stage and never left busy; a check reports exactly
    the outcome that radio, server and manifest rules give; who owns the radio, and exactly when
    it is lost.
  \<^item> BLE server: tables, connections and queues stay well formed; the service is built completely;
    commands and credentials enter only over their encrypted characteristics; a subscription is read
    back as it was written.
  \<^item> Settings: a refinement of an abstract record, across restarts, from the app's command bytes on.
  \<^item> Main loop: well formed, and stuck only by a status too long for the phone; what it asks the worker for by itself, and
    when; what is published; the LED thread shows frames in the order they were sent, and the last
    one accepted is the last one shown.
  \<^item> Whole firmware: the main loop's side stays well formed whatever comes; a switched boot slot needs the phone's command or the user's setting; an image
    stays on probation until a self-test passes, and a healthy one is confirmed; while the worker writes
    an image the board is only shown frames and waited on; every run of the firmware is a run of the worker's thread,
    whose theorems therefore hold in it.
  \<^item> Other builds: the demo shows a digit, a scanning build learns nothing, its table lists each
    register once, the dashboard's wipe is honoured by the next cycle.

  \<^bold>\<open>Not modelled\<close>

  Configuration of pins, UART and the LED peripheral and the spawning of threads (driver calls
  without decisions); the HTML text of the dashboard's page (an argument); the FFI queries of
  ESP-IDF behind the wrappers (arguments); log lines; tests.
\<close>

end
